(* ===== verification/Prelude.thy ===== *)
theory Prelude
  imports Main "HOL-Library.Word" "HOL-Library.Monad_Syntax" "HOL-Library.AList"
begin

text \<open>
  Shared vocabulary of the development.

  A Go run-time panic (an index or a slice bound out of range, a nil dereference) is the
  value \<open>None\<close> of an option; a Go \<open>error\<close> result is the left part of a sum; so an operation
  that can do both has a result of type \<open>((go_error + 'a) \<times> 'state) option\<close>. A Go byte
  slice is a byte list option, where \<open>None\<close> is the nil slice.

  Unsigned Go integers that the code only stores, compares and counts with (page numbers,
  cell offsets) are naturals, and every conversion to a narrower type is written out as
  \<open>u16\<close>, \<open>u32\<close> or \<open>u64\<close>. Keys are 64-bit words compared as signed numbers.
\<close>

section \<open>Types\<close>

type_synonym byte = "8 word"
type_synonym page = "byte list"
type_synonym gobytes = "byte list option"
type_synonym key = "64 word"
type_synonym page_id = nat
type_synonym cell = "key \<times> gobytes \<times> page_id"

named_theorems slice_simps "reads of a byte sequence after a write"
named_theorems page_defs "definitions of the accessors of the page header"

section \<open>Conversions between Go's integer types\<close>

definition u16 :: "int \<Rightarrow> nat" where
  "u16 x = nat (x mod 2 ^ 16)"

definition u32 :: "nat \<Rightarrow> nat" where
  "u32 x = x mod 2 ^ 32"

definition u64 :: "nat \<Rightarrow> nat" where
  "u64 x = x mod 2 ^ 64"

definition i64 :: "int \<Rightarrow> int" where
  "i64 x = (let m = x mod 2 ^ 64 in if m < 2 ^ 63 then m else m - 2 ^ 64)"

lemma u16_int [simp]: "n < 65536 \<Longrightarrow> u16 (int n) = n"
  by (simp add: u16_def nat_mod_distrib)

lemma u16_Suc [simp]: "Suc n < 65536 \<Longrightarrow> u16 (int n + 1) = Suc n" "Suc n < 65536 \<Longrightarrow> u16 (1 + int n) = Suc n"
  using u16_int[of "Suc n"] by (simp_all add: add.commute)

lemma u16_less: "u16 x < 65536"
  by (simp add: u16_def nat_less_iff)

lemma u32_id [simp]: "n < 2 ^ 32 \<Longrightarrow> u32 n = n"
  by (simp add: u32_def)

lemma u32_less: "u32 n < 2 ^ 32"
  by (simp add: u32_def)

lemma u64_id [simp]: "n < 2 ^ 64 \<Longrightarrow> u64 n = n"
  by (simp add: u64_def)

lemma i64_id: "0 \<le> x \<Longrightarrow> x < 2 ^ 63 \<Longrightarrow> i64 x = x"
  by (simp add: i64_def)

section \<open>Go byte slices\<close>

definition gbytes :: "gobytes \<Rightarrow> byte list" where
  "gbytes v = (case v of None \<Rightarrow> [] | Some bs \<Rightarrow> bs)"

definition glen :: "gobytes \<Rightarrow> nat" where
  "glen v = length (gbytes v)"

lemma gbytes_simps [simp]: "gbytes None = []" "gbytes (Some bs) = bs"
  by (simp_all add: gbytes_def)

lemma glen_simps [simp]: "glen None = 0" "glen (Some bs) = length bs"
  by (simp_all add: glen_def)

text \<open>
  \<open>sl p o k\<close> is the \<open>k\<close> bytes of \<open>p\<close> from \<open>o\<close> on and \<open>upd p o bs\<close> is \<open>p\<close> with \<open>bs\<close> laid over
  it at \<open>o\<close>; \<open>rd\<close>, \<open>wr\<close> and \<open>copy_at\<close> are Go's slice expressions \<open>p[o:o+k]\<close> (read),
  \<open>p[o:o+k]\<close> (written) and \<open>copy(p[o:], bs)\<close> on a buffer whose capacity is its length,
  with the panic of a bound out of range.
\<close>

definition sl :: "page \<Rightarrow> nat \<Rightarrow> nat \<Rightarrow> byte list" where
  "sl p off k = take k (drop off p)"

definition upd :: "page \<Rightarrow> nat \<Rightarrow> byte list \<Rightarrow> page" where
  "upd p off bs = take off p @ bs @ drop (off + length bs) p"

definition rd :: "page \<Rightarrow> int \<Rightarrow> nat \<Rightarrow> byte list option" where
  "rd p off k =
     (if 0 \<le> off \<and> off + int k \<le> int (length p) then Some (sl p (nat off) k) else None)"

definition wr :: "page \<Rightarrow> int \<Rightarrow> byte list \<Rightarrow> page option" where
  "wr p off bs =
     (if 0 \<le> off \<and> off + int (length bs) \<le> int (length p) then Some (upd p (nat off) bs)
      else None)"

definition copy_at :: "page \<Rightarrow> int \<Rightarrow> byte list \<Rightarrow> page option" where
  "copy_at p off bs =
     (if 0 \<le> off \<and> off \<le> int (length p)
      then Some (upd p (nat off) (take (length p - nat off) bs)) else None)"

lemma rd_nat [simp]:
  "rd p (int off) k = (if off + k \<le> length p then Some (sl p off k) else None)"
  by (simp add: rd_def)

lemma rd_numeral [simp]:
  "rd p (numeral w) k = (if numeral w + k \<le> length p then Some (sl p (numeral w) k) else None)"
  using rd_nat[of p "numeral w" k] by (simp del: rd_nat)

lemma rd_one [simp]:
  "rd p 1 k = (if 1 + k \<le> length p then Some (sl p 1 k) else None)"
  using rd_nat[of p 1 k] by (simp del: rd_nat)

lemma wr_nat [simp]:
  "wr p (int off) bs = (if off + length bs \<le> length p then Some (upd p off bs) else None)"
  by (simp add: wr_def)

lemma wr_numeral [simp]:
  "wr p (numeral w) bs =
     (if numeral w + length bs \<le> length p then Some (upd p (numeral w) bs) else None)"
  using wr_nat[of p "numeral w" bs] by (simp del: wr_nat)

lemma wr_one [simp]:
  "wr p 1 bs = (if 1 + length bs \<le> length p then Some (upd p 1 bs) else None)"
  using wr_nat[of p 1 bs] by (simp del: wr_nat)

lemma copy_at_nat [simp]:
  "off + length bs \<le> length p \<Longrightarrow> copy_at p (int off) bs = Some (upd p off bs)"
  by (simp add: copy_at_def)

lemma length_sl [simp]: "off + k \<le> length p \<Longrightarrow> length (sl p off k) = k"
  by (simp add: sl_def)

lemma length_upd [simp]: "off + length bs \<le> length p \<Longrightarrow> length (upd p off bs) = length p"
  by (simp add: upd_def)

lemma sl_upd_same [slice_simps]:
  "off + length bs \<le> length p \<Longrightarrow> k = length bs \<Longrightarrow> sl (upd p off bs) off k = bs"
  by (simp add: sl_def upd_def)

lemma sl_upd_before [slice_simps]:
  "off' + k \<le> off \<Longrightarrow> off + length bs \<le> length p \<Longrightarrow> sl (upd p off bs) off' k = sl p off' k"
  by (simp add: sl_def upd_def take_drop min_def)

lemma sl_upd_after [slice_simps]:
  "off + length bs \<le> off' \<Longrightarrow> off + length bs \<le> length p \<Longrightarrow>
     sl (upd p off bs) off' k = sl p off' k"
  by (simp add: sl_def upd_def)

lemma nth_upd:
  "off + length bs \<le> length p \<Longrightarrow> j < length p \<Longrightarrow>
     upd p off bs ! j = (if off \<le> j \<and> j < off + length bs then bs ! (j - off) else p ! j)"
  by (auto simp: upd_def nth_append)

lemma sl_append: "off + (j + k) \<le> length p \<Longrightarrow> sl p off (j + k) = sl p off j @ sl p (off + j) k"
  by (simp add: sl_def take_add add.commute)

lemma sl_sub: "o2 + k2 \<le> k \<Longrightarrow> sl (sl p off k) o2 k2 = sl p (off + o2) k2"
  by (simp add: sl_def drop_take add.commute min_def)

lemma sl_all [simp]: "sl p 0 (length p) = p"
  by (simp add: sl_def)

lemma upd_upd_adjacent:
  "off + (length as + length bs) \<le> length p \<Longrightarrow>
     upd (upd p off as) (off + length as) bs = upd p off (as @ bs)"
  by (simp add: upd_def ac_simps)

lemma upd_id: "off + length bs \<le> length p \<Longrightarrow> sl p off (length bs) = bs \<Longrightarrow> upd p off bs = p"
  by (metis append_take_drop_id drop_drop add.commute sl_def upd_def)

text \<open>A byte sequence made of consecutive fields.\<close>

lemma sl_split:
  assumes "sl p off (length bs) = bs" "off + length bs \<le> length p" "bs = as @ cs"
  shows "sl p off (length as) = as" "sl p (off + length as) (length cs) = cs"
proof -
  have "sl p off (length as) @ sl p (off + length as) (length cs) = as @ cs"
    using assms sl_append[of off "length as" "length cs" p] by simp
  then show "sl p off (length as) = as" "sl p (off + length as) (length cs) = cs"
    using assms(2,3) by (simp_all add: append_eq_append_conv)
qed

lemma sl_split4:
  assumes "sl p off n = as @ bs @ cs @ ds" "n = length as + length bs + length cs + length ds"
    "off + n \<le> length p" "length as = a" "length bs = b" "length cs = c" "length ds = d"
  shows "sl p off a = as" "sl p (off + a) b = bs" "sl p (off + (a + b)) c = cs"
    "sl p (off + (a + b + c)) d = ds"
proof -
  have 0: "sl p off (length (as @ bs @ cs @ ds)) = as @ bs @ cs @ ds"
    "off + length (as @ bs @ cs @ ds) \<le> length p" using assms by (simp_all add: add.assoc)
  note 1 = sl_split[OF 0 refl]
  have "off + length as + length (bs @ cs @ ds) \<le> length p" using 0(2) by simp
  note 2 = sl_split[OF 1(2) this refl]
  have "off + length as + length bs + length (cs @ ds) \<le> length p" using 0(2) by simp
  note 3 = sl_split[OF 2(2) this refl]
  show "sl p off a = as" "sl p (off + a) b = bs" "sl p (off + (a + b)) c = cs"
    "sl p (off + (a + b + c)) d = ds"
    using 1(1) 2(1) 3 unfolding assms(4-) add.assoc by blast+
qed

lemma upd_prefix:
  assumes "sl p off (length as) = as" "off + (length as + length bs) \<le> length p"
  shows "upd p (off + length as) bs = upd p off (as @ bs)"
  using upd_upd_adjacent[of off as bs p] upd_id[of off as p] assms by simp

section \<open>Little- and big-endian integers (encoding/binary)\<close>

fun le_put :: "nat \<Rightarrow> nat \<Rightarrow> byte list" where
  "le_put 0 x = []"
| "le_put (Suc n) x = word_of_nat x # le_put n (x div 256)"

fun le_get :: "byte list \<Rightarrow> nat" where
  "le_get [] = 0"
| "le_get (b # bs) = unat b + 256 * le_get bs"

definition be_put :: "nat \<Rightarrow> nat \<Rightarrow> byte list" where
  "be_put n x = rev (le_put n x)"

definition be_get :: "byte list \<Rightarrow> nat" where
  "be_get bs = le_get (rev bs)"

lemma length_le_put [simp]: "length (le_put n x) = n"
  by (induction n arbitrary: x) auto

lemma length_be_put [simp]: "length (be_put n x) = n"
  by (simp add: be_put_def)

lemma le_get_put: "le_get (le_put n x) = x mod 256 ^ n"
proof (induction n arbitrary: x)
  case 0
  then show ?case by simp
next
  case (Suc n)
  have "unat (word_of_nat x :: byte) = x mod 256"
    by (simp add: unsigned_of_nat take_bit_eq_mod)
  then show ?case
    using Suc mod_mult2_eq[of x 256 "256 ^ n"] by simp
qed

lemma le_get_put_id [simp]:
  "x < 65536 \<Longrightarrow> le_get (le_put 2 x) = x" "x < 2 ^ 32 \<Longrightarrow> le_get (le_put 4 x) = x"
  "x < 2 ^ 64 \<Longrightarrow> le_get (le_put 8 x) = x"
  by (simp_all add: le_get_put)

lemma le_get_less: "le_get bs < 256 ^ length bs"
proof (induction bs)
  case Nil
  then show ?case by simp
next
  case (Cons b bs)
  have "unat b < 256" using unsigned_less[of b] by simp
  with Cons show ?case by simp
qed

lemma be_get_put: "be_get (be_put n x) = x mod 256 ^ n"
  by (simp add: be_get_def be_put_def le_get_put)

lemma le_put_get: "le_put (length bs) (le_get bs) = bs"
proof (induction bs)
  case Nil
  then show ?case by simp
next
  case (Cons b bs)
  have "unat b < 256" using unsigned_less[of b] by simp
  then have "(unat b + 256 * le_get bs) div 256 = le_get bs" by simp
  moreover have "(word_of_nat (unat b + 256 * le_get bs) :: byte) = b"
    using word_of_nat_eq_iff[of "unat b + 256 * le_get bs" "unat b", where 'a = 8]
    by (simp add: take_bit_eq_mod)
  ultimately show ?case using Cons by simp
qed

lemma le_get_inj: "length as = length bs \<Longrightarrow> le_get as = le_get bs \<Longrightarrow> as = bs"
  by (metis le_put_get)

lemmas endian_simps = le_get_put be_get_put

section \<open>Keys\<close>

text \<open>\<open>key_bits k\<close> is \<open>uint64(k)\<close> and \<open>bits_key\<close> is \<open>int64(u)\<close>.\<close>

definition key_bits :: "key \<Rightarrow> nat" where
  "key_bits k = unat k"

definition bits_key :: "nat \<Rightarrow> key" where
  "bits_key u = word_of_nat u"

lemma bits_key_bits [simp]: "bits_key (key_bits k) = k"
  by (simp add: bits_key_def key_bits_def)

lemma key_bits_less: "key_bits k < 2 ^ 64"
  using unsigned_less[of k] by (simp add: key_bits_def)

lemma key_roundtrip [simp]: "bits_key (le_get (le_put 8 (key_bits k))) = k"
  using key_bits_less[of k] by (simp add: le_get_put)

lemma sint_inject: "sint (a :: key) = sint b \<longleftrightarrow> a = b"
  using signed_word_eqI[of a b] by auto

section \<open>Errors\<close>

datatype io_error = EOF | NegativeOffset | Syscall

datatype go_error =
    ReadPage page_id io_error
  | WritePage page_id io_error
  | FileErr io_error
  | Wrapped string go_error
  | KeyNotFound
  | BadKeyLength nat

section \<open>Lists\<close>

lemma take_Suc_nth: "i < length xs \<Longrightarrow> take (Suc i) xs = take i xs @ [xs ! i]"
  by (rule take_Suc_conv_app_nth)

lemma list_split_nth: "i < length xs \<Longrightarrow> xs = take i xs @ xs ! i # drop (Suc i) xs"
  by (rule id_take_nth_drop)

text \<open>A loop whose body may panic, over the elements of a list.\<close>

fun mapM :: "('a \<Rightarrow> 'b option) \<Rightarrow> 'a list \<Rightarrow> 'b list option" where
  "mapM f [] = Some []"
| "mapM f (x # xs) = do { y \<leftarrow> f x; ys \<leftarrow> mapM f xs; Some (y # ys) }"

fun foldM :: "('a \<Rightarrow> 's \<Rightarrow> 's option) \<Rightarrow> 'a list \<Rightarrow> 's \<Rightarrow> 's option" where
  "foldM f [] s = Some s"
| "foldM f (x # xs) s = do { s' \<leftarrow> f x s; foldM f xs s' }"

lemma mapM_Some: "\<forall>x \<in> set xs. f x = Some (g x) \<Longrightarrow> mapM f xs = Some (map g xs)"
  by (induction xs) auto

lemma foldM_append: "foldM f (xs @ ys) s = do { s' \<leftarrow> foldM f xs s; foldM f ys s' }"
proof (induction xs arbitrary: s)
  case (Cons x xs)
  then show ?case by (cases "f x s") auto
qed simp

lemma foldM_mono [partial_function_mono]:
  assumes "\<And>x s. mono_option (\<lambda>f. B f x s)"
  shows "mono_option (\<lambda>f. foldM (B f) xs s)"
proof (induction xs arbitrary: s)
  case Nil
  then show ?case by (simp add: option.const_mono)
next
  case (Cons x xs)
  have "mono_option (\<lambda>f. do { s' \<leftarrow> B f x s; foldM (B f) xs s' })"
    by (rule bind_mono) (use assms Cons in auto)
  then show ?case by simp
qed

end
