(* ===== verification/Format.thy ===== *)
theory Format
  imports Main
begin

text \<open>
  Decimal numbers as \<open>fmt\<close> prints them with the verb d, for the strings the program builds.
\<close>

definition digit :: "nat \<Rightarrow> char" where
  "digit d = char_of (48 + d)"

fun show_nat :: "nat \<Rightarrow> string" where
  "show_nat n = (if n < 10 then [digit n] else show_nat (n div 10) @ [digit (n mod 10)])"

declare show_nat.simps [simp del]

definition show_int :: "int \<Rightarrow> string" where
  "show_int i = (if i < 0 then CHR ''-'' # show_nat (nat (- i)) else show_nat (nat i))"

lemma digit_inject: "a < 10 \<Longrightarrow> b < 10 \<Longrightarrow> digit a = digit b \<longleftrightarrow> a = b"
proof -
  assume "a < 10" "b < 10"
  moreover have "of_char (digit a) = 48 + a" "of_char (digit b) = 48 + b" if "a < 10" "b < 10"
    using that by (simp_all add: digit_def of_char_of)
  ultimately show ?thesis by (metis add_left_cancel)
qed

lemma show_nat_nonempty [simp]: "show_nat n \<noteq> []" "[] \<noteq> show_nat n"
  by (subst show_nat.simps, simp)+

lemma show_nat_inject: "show_nat a = show_nat b \<longleftrightarrow> a = b"
proof
  show "show_nat a = show_nat b \<Longrightarrow> a = b"
  proof (induction a arbitrary: b rule: show_nat.induct)
    case (1 a)
    consider "a < 10" "b < 10" | "a < 10" "\<not> b < 10" | "\<not> a < 10" "b < 10" | "\<not> a < 10" "\<not> b < 10"
      by blast
    then show ?case
    proof cases
      case 1
      then show ?thesis using "1.prems" digit_inject by (simp add: show_nat.simps)
    next
      case 2
      then show ?thesis using "1.prems" by (simp add: show_nat.simps[of a] show_nat.simps[of b])
    next
      case 3
      then show ?thesis using "1.prems" by (simp add: show_nat.simps[of a] show_nat.simps[of b])
    next
      case 4
      then have "show_nat (a div 10) = show_nat (b div 10)" "digit (a mod 10) = digit (b mod 10)"
        using "1.prems" by (simp_all add: show_nat.simps[of a] show_nat.simps[of b])
      then have "a div 10 = b div 10" "a mod 10 = b mod 10"
        using "1.IH"[OF 4(1)] digit_inject[of "a mod 10" "b mod 10"] by simp_all
      then show ?thesis by (metis div_mult_mod_eq)
    qed
  qed
qed simp

end
