(* ===== verification/Lru.thy ===== *)
theory Lru
  imports Prelude
begin

text \<open>
  The page cache of the pager (src/dbms/pager/pager.go, "LRU Cache"): a Go map from page
  numbers to entries and a doubly linked list of the entries in order of use, kept with
  explicit pointers. The entries live in a small store \<open>lru_heap\<close>; a pointer is an address
  in it and nil is \<open>None\<close>. The cache holds references to page buffers, so the page of an
  entry is the address of a buffer (see the theory Pager).

  The second part proves that the pointer manipulations refine the plain list of pairs
  (page number, page) in order of last use.
\<close>

section \<open>The code\<close>

record lru_entry =
  e_id :: page_id
  e_page :: nat
  e_prev :: "nat option"
  e_next :: "nat option"

record lru_cache =
  lru_cap :: int
  lru_items :: "(page_id \<times> nat) list"
  lru_head :: "nat option"
  lru_tail :: "nat option"
  lru_heap :: "nat \<Rightarrow> lru_entry"
  lru_fresh :: nat

definition newLRUCache :: "int \<Rightarrow> lru_cache" where
  "newLRUCache cap =
     \<lparr>lru_cap = cap, lru_items = [], lru_head = None, lru_tail = None,
      lru_heap = (\<lambda>_. \<lparr>e_id = 0, e_page = 0, e_prev = None, e_next = None\<rparr>), lru_fresh = 0\<rparr>"

definition set_prev :: "nat \<Rightarrow> nat option \<Rightarrow> (nat \<Rightarrow> lru_entry) \<Rightarrow> nat \<Rightarrow> lru_entry" where
  "set_prev e pv h = h(e := (h e)\<lparr>e_prev := pv\<rparr>)"

definition set_next :: "nat \<Rightarrow> nat option \<Rightarrow> (nat \<Rightarrow> lru_entry) \<Rightarrow> nat \<Rightarrow> lru_entry" where
  "set_next e nx h = h(e := (h e)\<lparr>e_next := nx\<rparr>)"

definition pushFront :: "nat \<Rightarrow> lru_cache \<Rightarrow> lru_cache" where
  "pushFront e c =
     (let h1 = set_prev e None (set_next e (lru_head c) (lru_heap c));
          h2 = (case lru_head c of None \<Rightarrow> h1 | Some q \<Rightarrow> set_prev q (Some e) h1)
      in c\<lparr>lru_heap := h2, lru_head := Some e,
           lru_tail := (if lru_tail c = None then Some e else lru_tail c)\<rparr>)"

definition moveToFront :: "nat \<Rightarrow> lru_cache \<Rightarrow> lru_cache" where
  "moveToFront e c =
     (if lru_head c = Some e then c
      else
        let h0 = lru_heap c;
            h1 = (case e_prev (h0 e) of None \<Rightarrow> h0 | Some q \<Rightarrow> set_next q (e_next (h0 e)) h0);
            h2 = (case e_next (h1 e) of None \<Rightarrow> h1 | Some q \<Rightarrow> set_prev q (e_prev (h1 e)) h1);
            tl = (if lru_tail c = Some e then e_prev (h2 e) else lru_tail c);
            h3 = set_next e (lru_head c) (set_prev e None h2);
            h4 = (case lru_head c of None \<Rightarrow> h3 | Some q \<Rightarrow> set_prev q (Some e) h3)
        in c\<lparr>lru_heap := h4, lru_tail := tl, lru_head := Some e\<rparr>)"

definition evict :: "lru_cache \<Rightarrow> lru_cache" where
  "evict c =
     (case lru_tail c of
        None \<Rightarrow> c
      | Some t \<Rightarrow>
          let h0 = lru_heap c;
              items = AList.delete (e_id (h0 t)) (lru_items c);
              h1 = (case e_prev (h0 t) of None \<Rightarrow> h0 | Some q \<Rightarrow> set_next q None h0);
              tl = e_prev (h1 t)
          in c\<lparr>lru_items := items, lru_heap := h1, lru_tail := tl,
               lru_head := (if tl = None then None else lru_head c)\<rparr>)"

definition lru_get :: "page_id \<Rightarrow> lru_cache \<Rightarrow> nat option \<times> lru_cache" where
  "lru_get i c =
     (case map_of (lru_items c) i of
        None \<Rightarrow> (None, c)
      | Some e \<Rightarrow> let c' = moveToFront e c in (Some (e_page (lru_heap c' e)), c'))"

definition lru_put :: "page_id \<Rightarrow> nat \<Rightarrow> lru_cache \<Rightarrow> lru_cache" where
  "lru_put i pg c =
     (case map_of (lru_items c) i of
        Some e \<Rightarrow> moveToFront e (c\<lparr>lru_heap := (lru_heap c)(e := (lru_heap c e)\<lparr>e_page := pg\<rparr>)\<rparr>)
      | None \<Rightarrow>
          let e = lru_fresh c;
              c1 = c\<lparr>lru_fresh := Suc e,
                     lru_heap := (lru_heap c)
                       (e := \<lparr>e_id = i, e_page = pg, e_prev = None, e_next = None\<rparr>),
                     lru_items := AList.update i e (lru_items c)\<rparr>;
              c2 = pushFront e c1
          in if int (length (lru_items c2)) > lru_cap c2 then evict c2 else c2)"

section \<open>The specification: a list in order of last use\<close>

definition spec_get :: "page_id \<Rightarrow> (page_id \<times> nat) list \<Rightarrow> nat option \<times> (page_id \<times> nat) list" where
  "spec_get i xs =
     (case map_of xs i of None \<Rightarrow> (None, xs) | Some pg \<Rightarrow> (Some pg, (i, pg) # AList.delete i xs))"

definition spec_put :: "int \<Rightarrow> page_id \<Rightarrow> nat \<Rightarrow> (page_id \<times> nat) list \<Rightarrow> (page_id \<times> nat) list" where
  "spec_put cap i pg xs =
     (let ys = (i, pg) # AList.delete i xs
      in if map_of xs i = None \<and> int (length ys) > cap then butlast ys else ys)"

section \<open>Doubly linked segments\<close>

fun firstp :: "nat list \<Rightarrow> nat option \<Rightarrow> nat option" where
  "firstp [] nx = nx"
| "firstp (x # xs) nx = Some x"

definition lastp :: "nat list \<Rightarrow> nat option \<Rightarrow> nat option" where
  "lastp xs pv = (if xs = [] then pv else Some (last xs))"

fun dlseg :: "(nat \<Rightarrow> lru_entry) \<Rightarrow> nat option \<Rightarrow> nat list \<Rightarrow> nat option \<Rightarrow> bool" where
  "dlseg h pv [] nx = True"
| "dlseg h pv (x # xs) nx =
     (e_prev (h x) = pv \<and> e_next (h x) = firstp xs nx \<and> dlseg h (Some x) xs nx)"

lemma lastp_simps [simp]:
  "lastp [] pv = pv" "lastp (x # xs) pv = lastp xs (Some x)" "lastp (xs @ [x]) pv = Some x"
  by (auto simp: lastp_def)

lemma firstp_append [simp]: "firstp (xs @ ys) nx = firstp xs (firstp ys nx)"
  by (cases xs) auto

lemma lastp_append [simp]: "lastp (xs @ ys) pv = lastp ys (lastp xs pv)"
  by (auto simp: lastp_def)

lemma dlseg_append [simp]:
  "dlseg h pv (xs @ ys) nx \<longleftrightarrow> dlseg h pv xs (firstp ys nx) \<and> dlseg h (lastp xs pv) ys nx"
  by (induction xs arbitrary: pv) auto

lemma dlseg_change:
  "dlseg h pv xs nx \<Longrightarrow> distinct xs \<Longrightarrow>
   \<forall>x \<in> set xs. e_prev (h' x) = (if x = hd xs then pv' else e_prev (h x)) \<Longrightarrow>
   \<forall>x \<in> set xs. e_next (h' x) = (if x = last xs then nx' else e_next (h x)) \<Longrightarrow>
   dlseg h' pv' xs nx'"
proof (induction xs arbitrary: pv pv')
  case Nil
  then show ?case by simp
next
  case (Cons x xs)
  have x: "e_prev (h' x) = pv'" "e_next (h' x) = (if x = last (x # xs) then nx' else e_next (h x))"
    using Cons.prems(3,4) by simp_all
  have "dlseg h' (Some x) xs nx'"
  proof (rule Cons.IH[of "Some x"])
    show "\<forall>y \<in> set xs. e_prev (h' y) = (if y = hd xs then Some x else e_prev (h y))"
    proof
      fix y assume y: "y \<in> set xs"
      then have "e_prev (h' y) = e_prev (h y)"
        using Cons.prems(2,3) by auto
      then show "e_prev (h' y) = (if y = hd xs then Some x else e_prev (h y))"
        using Cons.prems(1) y by (cases xs) auto
    qed
    show "\<forall>y \<in> set xs. e_next (h' y) = (if y = last xs then nx' else e_next (h y))"
      using Cons.prems(4) by (cases xs) simp_all
  qed (use Cons.prems(1,2) in simp_all)
  with x Cons.prems(1,2) show ?case by (cases xs) auto
qed

lemma dlseg_same:
  "dlseg h pv xs nx \<Longrightarrow> \<forall>x \<in> set xs. e_prev (h' x) = e_prev (h x) \<and> e_next (h' x) = e_next (h x)
   \<Longrightarrow> dlseg h' pv xs nx"
  by (induction xs arbitrary: pv) auto

lemma dlseg_prev_hd: "dlseg h pv xs nx \<Longrightarrow> xs \<noteq> [] \<Longrightarrow> e_prev (h (hd xs)) = pv"
  by (cases xs) auto

lemma dlseg_next_last: "dlseg h pv xs nx \<Longrightarrow> xs \<noteq> [] \<Longrightarrow> e_next (h (last xs)) = nx"
  by (induction xs arbitrary: pv) auto

lemma dlseg_link:
  assumes "dlseg h pv xs nx" "distinct xs" "dlseg h' pv' xs nx'" "xs \<noteq> []"
  shows "e_prev (h' (hd xs)) = pv'" "e_next (h' (last xs)) = nx'"
  using assms dlseg_prev_hd dlseg_next_last by blast+

section \<open>The representation\<close>

definition lru_rep :: "lru_cache \<Rightarrow> nat list \<Rightarrow> bool" where
  "lru_rep c ps \<longleftrightarrow>
     distinct ps \<and> (\<forall>p \<in> set ps. p < lru_fresh c) \<and>
     dlseg (lru_heap c) None ps None \<and>
     lru_head c = firstp ps None \<and> lru_tail c = lastp ps None \<and>
     distinct (map fst (lru_items c)) \<and>
     set (lru_items c) = (\<lambda>p. (e_id (lru_heap c p), p)) ` set ps"

fun walk :: "(nat \<Rightarrow> lru_entry) \<Rightarrow> nat \<Rightarrow> nat option \<Rightarrow> nat list" where
  "walk h 0 p = []"
| "walk h (Suc n) p = (case p of None \<Rightarrow> [] | Some e \<Rightarrow> e # walk h n (e_next (h e)))"

definition lru_ptrs :: "lru_cache \<Rightarrow> nat list" where
  "lru_ptrs c = walk (lru_heap c) (length (lru_items c)) (lru_head c)"

definition lru_ok :: "lru_cache \<Rightarrow> bool" where
  "lru_ok c = lru_rep c (lru_ptrs c)"

text \<open>The cached pages, most recently used first.\<close>

definition abs_at :: "(nat \<Rightarrow> lru_entry) \<Rightarrow> nat list \<Rightarrow> (page_id \<times> nat) list" where
  "abs_at h ps = map (\<lambda>p. (e_id (h p), e_page (h p))) ps"

definition lru_abs :: "lru_cache \<Rightarrow> (page_id \<times> nat) list" where
  "lru_abs c = abs_at (lru_heap c) (lru_ptrs c)"

lemma walk_dlseg: "dlseg h pv ps None \<Longrightarrow> walk h (length ps) (firstp ps None) = ps"
  by (induction ps arbitrary: pv) auto

lemma lru_rep_length:
  assumes "lru_rep c ps" shows "length (lru_items c) = length ps"
proof -
  have "length (lru_items c) = card (set (lru_items c))"
    using assms distinct_card[of "lru_items c"] by (simp add: lru_rep_def distinct_map)
  also have "\<dots> = card (set ps)"
    using assms by (simp add: lru_rep_def card_image inj_on_def)
  also have "\<dots> = length ps"
    using assms by (simp add: lru_rep_def distinct_card)
  finally show ?thesis .
qed

lemma lru_rep_ptrs: "lru_rep c ps \<Longrightarrow> lru_ptrs c = ps"
  using lru_rep_length[of c ps] walk_dlseg[of "lru_heap c" None ps]
  by (simp add: lru_ptrs_def lru_rep_def)

lemma lru_rep_ok: "lru_rep c ps \<Longrightarrow> lru_ok c"
  by (simp add: lru_ok_def lru_rep_ptrs)

lemma lru_rep_abs: "lru_rep c ps \<Longrightarrow> lru_abs c = abs_at (lru_heap c) ps"
  by (simp add: lru_abs_def lru_rep_ptrs)

lemma lru_rep_lookup:
  "lru_rep c ps \<Longrightarrow> map_of (lru_items c) i = Some p \<longleftrightarrow> p \<in> set ps \<and> e_id (lru_heap c p) = i"
  by (auto simp: lru_rep_def)

lemma lru_rep_inj:
  assumes "lru_rep c ps" "p \<in> set ps" "q \<in> set ps" "e_id (lru_heap c p) = e_id (lru_heap c q)"
  shows "p = q"
  using assms lru_rep_lookup[OF assms(1)] by (metis option.inject)

lemma lru_rep_ids: "lru_rep c ps \<Longrightarrow> distinct (map fst (abs_at (lru_heap c) ps))"
  using lru_rep_inj[of c ps] by (auto simp: abs_at_def distinct_map inj_on_def lru_rep_def)

lemma lru_abs_distinct: "lru_ok c \<Longrightarrow> distinct (map fst (lru_abs c))"
  by (simp add: lru_ok_def lru_abs_def lru_rep_ids)

lemma map_of_abs:
  assumes "lru_rep c ps"
  shows "map_of (abs_at (lru_heap c) ps) i =
           map_option (\<lambda>p. e_page (lru_heap c p)) (map_of (lru_items c) i)"
proof (cases "map_of (lru_items c) i")
  case None
  then have "\<forall>p \<in> set ps. e_id (lru_heap c p) \<noteq> i"
    using lru_rep_lookup[OF assms, of i] by auto
  then have "map_of (abs_at (lru_heap c) ps) i = None"
    by (auto simp: abs_at_def map_of_eq_None_iff)
  with None show ?thesis by simp
next
  case (Some p)
  then have "p \<in> set ps" "e_id (lru_heap c p) = i"
    using lru_rep_lookup[OF assms] by auto
  then have "map_of (abs_at (lru_heap c) ps) i = Some (e_page (lru_heap c p))"
    using lru_rep_ids[OF assms] by (auto intro!: map_of_is_SomeI simp: abs_at_def)
  with Some show ?thesis by simp
qed

section \<open>The operations refine the list\<close>

lemma lru_rep_new: "lru_rep (newLRUCache cap) []"
  by (simp add: lru_rep_def newLRUCache_def)

lemma abs_at_split:
  assumes "lru_rep c (as @ e # bs)"
  shows "AList.delete (e_id (lru_heap c e)) (abs_at (lru_heap c) (as @ e # bs)) =
           abs_at (lru_heap c) (as @ bs)"
proof -
  have "\<forall>p \<in> set (as @ bs). e_id (lru_heap c p) \<noteq> e_id (lru_heap c e)"
    using lru_rep_inj[OF assms, of _ e] assms by (auto simp: lru_rep_def)
  then have "filter (\<lambda>p. e_id (lru_heap c e) \<noteq> e_id (lru_heap c p)) as = as"
    "filter (\<lambda>p. e_id (lru_heap c e) \<noteq> e_id (lru_heap c p)) bs = bs"
    by (auto intro!: filter_True)
  then show ?thesis
    by (simp add: abs_at_def AList.delete_eq filter_map comp_def)
qed

text \<open>The links after \<open>moveToFront\<close>, entry by entry.\<close>

lemma moveToFront_links:
  assumes rep: "lru_rep c (as @ e # bs)" and as: "as \<noteq> []"
  defines "h \<equiv> lru_heap c" and "h' \<equiv> lru_heap (moveToFront e c)"
  shows "e_prev (h' x) = (if x = hd as then Some e else if x = e then None
           else if bs \<noteq> [] \<and> x = hd bs then Some (last as) else e_prev (h x))"
    and "e_next (h' x) = (if x = e then Some (hd as)
           else if x = last as then firstp bs None else e_next (h x))"
    and "e_id (h' x) = e_id (h x)" and "e_page (h' x) = e_page (h x)"
    and "lru_head (moveToFront e c) = Some e"
    and "lru_tail (moveToFront e c) = lastp (as @ bs) None"
proof -
  have d: "distinct (as @ e # bs)" and seg: "dlseg h None (as @ e # bs) None"
    and hd: "lru_head c = Some (hd as)" and tl: "lru_tail c = lastp (as @ e # bs) None"
    using rep as by (cases as; auto simp: lru_rep_def h_def)+
  have ep: "e_prev (h e) = Some (last as)" and en: "e_next (h e) = firstp bs None"
    using seg as by (auto simp: lastp_def)
  have ne: "hd as \<noteq> e" "last as \<noteq> e"
    using d as by auto
  have nb: "bs \<noteq> [] \<Longrightarrow> hd bs \<noteq> e" "bs \<noteq> [] \<Longrightarrow> hd bs \<noteq> last as" "bs \<noteq> [] \<Longrightarrow> hd bs \<noteq> hd as"
    using d as by (cases bs; auto; metis hd_in_set last_in_set)+
  have tail: "lru_tail c = Some e \<longleftrightarrow> bs = []"
    using tl d by (auto simp: lastp_def split: if_splits)
  have mv: "moveToFront e c =
    c\<lparr>lru_heap := set_prev (hd as) (Some e) (set_next e (Some (hd as)) (set_prev e None
        (case firstp bs None of None \<Rightarrow> set_next (last as) (firstp bs None) h
         | Some q \<Rightarrow> set_prev q (Some (last as)) (set_next (last as) (firstp bs None) h)))),
      lru_tail := (if bs = [] then Some (last as) else lru_tail c), lru_head := Some e\<rparr>"
    using ne ep en hd tail nb
    by (cases bs) (auto simp: moveToFront_def Let_def h_def set_next_def set_prev_def)
  show "e_prev (h' x) = (if x = hd as then Some e else if x = e then None
           else if bs \<noteq> [] \<and> x = hd bs then Some (last as) else e_prev (h x))"
    and "e_next (h' x) = (if x = e then Some (hd as)
           else if x = last as then firstp bs None else e_next (h x))"
    and "e_id (h' x) = e_id (h x)" and "e_page (h' x) = e_page (h x)"
    using ne nb by (cases bs; auto simp: h'_def mv set_next_def set_prev_def)+
  show "lru_head (moveToFront e c) = Some e"
    and "lru_tail (moveToFront e c) = lastp (as @ bs) None"
    using tl as by (auto simp: mv lastp_def)
qed

lemma moveToFront_rep:
  assumes rep: "lru_rep c (as @ e # bs)"
  shows "lru_rep (moveToFront e c) (e # as @ bs)"
    and "abs_at (lru_heap (moveToFront e c)) (e # as @ bs) = abs_at (lru_heap c) (e # as @ bs)"
    and "lru_cap (moveToFront e c) = lru_cap c"
    and "lru_heap (moveToFront e c) x = (lru_heap c x)\<lparr>e_prev := e_prev (lru_heap (moveToFront e c) x),
           e_next := e_next (lru_heap (moveToFront e c) x)\<rparr>"
proof -
  have same: "lru_items (moveToFront e c) = lru_items c" "lru_fresh (moveToFront e c) = lru_fresh c"
    "lru_cap (moveToFront e c) = lru_cap c"
    by (simp_all add: moveToFront_def Let_def)
  show "lru_cap (moveToFront e c) = lru_cap c" by (rule same)
  show "lru_rep (moveToFront e c) (e # as @ bs)"
    and "abs_at (lru_heap (moveToFront e c)) (e # as @ bs) = abs_at (lru_heap c) (e # as @ bs)"
    and "lru_heap (moveToFront e c) x = (lru_heap c x)\<lparr>e_prev := e_prev (lru_heap (moveToFront e c) x),
           e_next := e_next (lru_heap (moveToFront e c) x)\<rparr>"
  proof (atomize (full), cases "as = []")
    case True
    then have "moveToFront e c = c"
      using rep by (simp add: moveToFront_def lru_rep_def)
    then show "lru_rep (moveToFront e c) (e # as @ bs) \<and>
      abs_at (lru_heap (moveToFront e c)) (e # as @ bs) = abs_at (lru_heap c) (e # as @ bs) \<and>
      lru_heap (moveToFront e c) x = (lru_heap c x)\<lparr>e_prev := e_prev (lru_heap (moveToFront e c) x),
           e_next := e_next (lru_heap (moveToFront e c) x)\<rparr>"
      using rep True by simp
  next
    case False
    note L = moveToFront_links[OF rep False]
    let ?h = "lru_heap c" and ?h' = "lru_heap (moveToFront e c)"
    have d: "distinct (as @ e # bs)" and seg: "dlseg ?h None (as @ e # bs) None"
      using rep by (auto simp: lru_rep_def)
    have sa: "dlseg ?h' (Some e) as (firstp bs None)"
      by (rule dlseg_change[where pv = None and nx = "Some e" and h = ?h])
        (use seg d False in \<open>cases bs; auto simp: L\<close>)+
    have b: "\<forall>x \<in> set bs. x \<noteq> e \<and> x \<noteq> last as \<and> x \<noteq> hd as"
    proof -
      from d have "\<forall>x \<in> set bs. x \<noteq> e \<and> x \<notin> set as" by auto
      then show ?thesis using False by (metis hd_in_set last_in_set)
    qed
    have sb: "dlseg ?h' (Some (last as)) bs None"
    proof (rule dlseg_change)
      show "dlseg ?h (Some e) bs None" using seg by simp
      show "distinct bs" using d by simp
      show "\<forall>x \<in> set bs. e_prev (?h' x) = (if x = hd bs then Some (last as) else e_prev (?h x))"
        using b by (auto simp: L)
      show "\<forall>x \<in> set bs. e_next (?h' x) = (if x = last bs then None else e_next (?h x))"
        using b dlseg_next_last[of ?h "Some e" bs None] seg
        by (cases bs rule: rev_cases) (auto simp: L)
    qed
    have "dlseg ?h' None (e # as @ bs) None"
      using sa sb False d by (cases as) (auto simp: L lastp_def split: if_splits)
    then have 1: "lru_rep (moveToFront e c) (e # as @ bs)"
      using rep False d by (auto simp: lru_rep_def same L lastp_def)
    have 2: "abs_at ?h' (e # as @ bs) = abs_at ?h (e # as @ bs)"
      by (simp add: abs_at_def L)
    have 3: "?h' x = (?h x)\<lparr>e_prev := e_prev (?h' x), e_next := e_next (?h' x)\<rparr>"
      by (rule lru_entry.equality) (simp_all add: L)
    from 1 2 3 show "lru_rep (moveToFront e c) (e # as @ bs) \<and>
      abs_at (lru_heap (moveToFront e c)) (e # as @ bs) = abs_at (lru_heap c) (e # as @ bs) \<and>
      lru_heap (moveToFront e c) x = (lru_heap c x)\<lparr>e_prev := e_prev (lru_heap (moveToFront e c) x),
           e_next := e_next (lru_heap (moveToFront e c) x)\<rparr>"
      by blast
  qed
qed

text \<open>Storing a page in a cached entry keeps the links.\<close>

lemma lru_rep_page:
  "lru_rep c ps \<Longrightarrow>
     lru_rep (c\<lparr>lru_heap := (lru_heap c)(e := (lru_heap c e)\<lparr>e_page := pg\<rparr>)\<rparr>) ps"
  by (auto simp: lru_rep_def elim!: dlseg_same)

lemma pushFront_rep:
  fixes pg :: nat
  assumes rep: "lru_rep c ps" and new: "map_of (lru_items c) i = None"
  defines "e \<equiv> lru_fresh c"
  defines "c1 \<equiv> c\<lparr>lru_fresh := Suc e,
     lru_heap := (lru_heap c)(e := \<lparr>e_id = i, e_page = pg, e_prev = None, e_next = None\<rparr>),
     lru_items := AList.update i e (lru_items c)\<rparr>"
  shows "lru_rep (pushFront e c1) (e # ps)"
    and "abs_at (lru_heap (pushFront e c1)) (e # ps) = (i, pg) # abs_at (lru_heap c) ps"
    and "lru_cap (pushFront e c1) = lru_cap c"
    and "lru_items (pushFront e c1) = AList.update i e (lru_items c)"
proof -
  let ?h' = "lru_heap (pushFront e c1)"
  have fresh: "e \<notin> set ps" and d: "distinct ps" and seg: "dlseg (lru_heap c) None ps None"
    and hd: "lru_head c = firstp ps None" and tl: "lru_tail c = lastp ps None"
    using rep by (auto simp: lru_rep_def e_def)
  have pushed: "pushFront e c1 = c1\<lparr>lru_heap :=
      (case lru_head c of None \<Rightarrow> set_prev e None (set_next e (lru_head c) (lru_heap c1))
       | Some q \<Rightarrow> set_prev q (Some e) (set_prev e None (set_next e (lru_head c) (lru_heap c1)))),
      lru_head := Some e, lru_tail := (if ps = [] then Some e else lru_tail c)\<rparr>"
    using tl by (cases "lru_head c") (simp_all add: pushFront_def c1_def Let_def lastp_def)
  have L: "e_prev (?h' x) = (if ps \<noteq> [] \<and> x = hd ps then Some e else if x = e then None
              else e_prev (lru_heap c x))"
    "e_next (?h' x) = (if x = e then firstp ps None else e_next (lru_heap c x))"
    "e_id (?h' x) = (if x = e then i else e_id (lru_heap c x))"
    "e_page (?h' x) = (if x = e then pg else e_page (lru_heap c x))" for x
    using hd fresh unfolding pushed
    by (cases ps; auto simp: set_prev_def set_next_def c1_def)+
  have nx: "ps \<noteq> [] \<Longrightarrow> e_next (lru_heap c (last ps)) = None"
    using seg dlseg_next_last by blast
  have "dlseg ?h' (Some e) ps None"
    by (rule dlseg_change[OF seg d]) (use fresh nx in \<open>cases ps rule: rev_cases; auto simp: L\<close>)+
  then have seg': "dlseg ?h' None (e # ps) None"
    using fresh by (cases ps) (auto simp: L)
  have items: "lru_items c1 = lru_items c @ [(i, e)]"
  proof -
    have "map_of al i = None \<Longrightarrow> AList.update i e al = al @ [(i, e)]" for al :: "(nat \<times> nat) list"
      by (induction al) (auto split: if_splits)
    with new show ?thesis by (simp add: c1_def)
  qed
  have notin: "i \<notin> fst ` set (lru_items c)"
    using new by (simp add: map_of_eq_None_iff)
  have ids: "(\<lambda>p. (e_id (?h' p), p)) ` set ps = (\<lambda>p. (e_id (lru_heap c p), p)) ` set ps"
    using fresh by (auto simp: L)
  have sel: "lru_head (pushFront e c1) = Some e" "lru_tail (pushFront e c1) = lastp (e # ps) None"
    "lru_fresh (pushFront e c1) = Suc e" "lru_items (pushFront e c1) = lru_items c @ [(i, e)]"
    using tl items unfolding pushed by (auto simp: c1_def lastp_def)
  have old: "distinct (map fst (lru_items c))" "\<forall>p \<in> set ps. p < e"
    "set (lru_items c) = (\<lambda>p. (e_id (lru_heap c p), p)) ` set ps"
    using rep by (simp_all add: lru_rep_def e_def)
  show "lru_rep (pushFront e c1) (e # ps)"
    unfolding lru_rep_def sel
  proof (intro conjI)
    show "distinct (e # ps)" using fresh d by simp
    show "\<forall>p \<in> set (e # ps). p < Suc e" using old(2) by auto
    show "distinct (map fst (lru_items c @ [(i, e)]))" using old(1) notin by simp
    show "set (lru_items c @ [(i, e)]) = (\<lambda>p. (e_id (?h' p), p)) ` set (e # ps)"
      using old(3) ids by (simp add: L)
  qed (use seg' in simp_all)
  show "abs_at ?h' (e # ps) = (i, pg) # abs_at (lru_heap c) ps"
    using fresh by (auto simp: abs_at_def L)
  show "lru_cap (pushFront e c1) = lru_cap c"
    and "lru_items (pushFront e c1) = AList.update i e (lru_items c)"
    unfolding pushed by (simp_all add: c1_def)
qed

lemma evict_rep:
  assumes rep: "lru_rep c (ps @ [t])"
  shows "lru_rep (evict c) ps" and "abs_at (lru_heap (evict c)) ps = abs_at (lru_heap c) ps"
    and "lru_cap (evict c) = lru_cap c"
proof -
  let ?h = "lru_heap c" and ?h' = "lru_heap (evict c)"
  have d: "distinct (ps @ [t])" and seg: "dlseg ?h None (ps @ [t]) None"
    and tl: "lru_tail c = Some t" and hd: "lru_head c = firstp (ps @ [t]) None"
    using rep by (auto simp: lru_rep_def)
  have pv: "e_prev (?h t) = lastp ps None" using seg by simp
  have ev: "evict c = c\<lparr>lru_items := AList.delete (e_id (?h t)) (lru_items c),
      lru_heap := (if ps = [] then ?h else set_next (last ps) None ?h),
      lru_tail := lastp ps None, lru_head := (if ps = [] then None else lru_head c)\<rparr>"
    using tl pv d
    by (auto simp: evict_def Let_def lastp_def set_next_def)
  have L: "e_prev (?h' x) = e_prev (?h x)" "e_id (?h' x) = e_id (?h x)"
    "e_page (?h' x) = e_page (?h x)"
    "e_next (?h' x) = (if ps \<noteq> [] \<and> x = last ps then None else e_next (?h x))" for x
    by (auto simp: ev set_next_def)
  have seg': "dlseg ?h' None ps None"
  proof (rule dlseg_change)
    show "dlseg ?h None ps (Some t)" using seg by simp
    show "\<forall>x \<in> set ps. e_prev (?h' x) = (if x = hd ps then None else e_prev (?h x))"
      using seg dlseg_prev_hd[of ?h None ps "Some t"] by (cases ps) (auto simp: L)
    show "\<forall>x \<in> set ps. e_next (?h' x) = (if x = last ps then None else e_next (?h x))"
      by (auto simp: L)
  qed (use d in simp)
  have inj: "\<forall>p \<in> set ps. e_id (?h p) \<noteq> e_id (?h t)"
    using lru_rep_inj[OF rep, of _ t] d by auto
  have "set (AList.delete (e_id (?h t)) (lru_items c)) = (\<lambda>p. (e_id (?h p), p)) ` set ps"
    using rep inj by (auto simp: lru_rep_def AList.delete_eq)
  moreover have "distinct (map fst (AList.delete (e_id (?h t)) (lru_items c)))"
    using rep by (simp add: lru_rep_def AList.distinct_delete)
  moreover have "lru_head (evict c) = firstp ps None"
    using hd by (cases ps) (simp_all add: ev)
  ultimately show "lru_rep (evict c) ps"
    using rep seg' by (simp add: lru_rep_def L) (simp add: ev)
  show "abs_at ?h' ps = abs_at ?h ps"
    by (simp add: abs_at_def L)
  show "lru_cap (evict c) = lru_cap c" by (simp add: ev)
qed

section \<open>The refinement theorems\<close>

lemma lru_ok_new: "lru_ok (newLRUCache cap)" "lru_abs (newLRUCache cap) = []"
  "lru_cap (newLRUCache cap) = cap"
  using lru_rep_new lru_rep_ok lru_rep_abs[OF lru_rep_new]
  by (auto simp: abs_at_def newLRUCache_def)

lemma lru_get_refines:
  assumes ok: "lru_ok c" and get: "lru_get i c = (r, c')"
  shows "lru_ok c'" "(r, lru_abs c') = spec_get i (lru_abs c)" "lru_cap c' = lru_cap c"
proof -
  define ps where "ps = lru_ptrs c"
  have rep: "lru_rep c ps" using ok by (simp add: lru_ok_def ps_def)
  have "lru_ok c' \<and> (r, lru_abs c') = spec_get i (lru_abs c) \<and> lru_cap c' = lru_cap c"
  proof (cases "map_of (lru_items c) i")
    case None
    with get ok show ?thesis
      using map_of_abs[OF rep, of i] lru_rep_abs[OF rep] by (auto simp: lru_get_def spec_get_def)
  next
    case (Some e)
    then have e: "e \<in> set ps" "e_id (lru_heap c e) = i"
      using lru_rep_lookup[OF rep] by auto
    then obtain as bs where ps: "ps = as @ e # bs" by (meson split_list)
    note M = moveToFront_rep[OF rep[unfolded ps]]
    have c': "c' = moveToFront e c" and r: "r = Some (e_page (lru_heap c e))"
      using get Some M(4)[of e] by (auto simp: lru_get_def Let_def) (metis lru_entry.select_convs(2)
        lru_entry.surjective lru_entry.update_convs(3,4))
    have "lru_abs c' = (i, e_page (lru_heap c e)) # AList.delete i (lru_abs c)"
      using abs_at_split[OF rep[unfolded ps]] lru_rep_abs[OF M(1)] lru_rep_abs[OF rep] M(2) e(2)
      by (simp add: c' ps) (simp add: abs_at_def)
    moreover have "map_of (lru_abs c) i = Some (e_page (lru_heap c e))"
      by (simp add: lru_rep_abs[OF rep] map_of_abs[OF rep] Some)
    ultimately show ?thesis
      using M(1,3) lru_rep_ok by (auto simp: c' r spec_get_def)
  qed
  then show "lru_ok c'" "(r, lru_abs c') = spec_get i (lru_abs c)" "lru_cap c' = lru_cap c"
    by blast+
qed

lemma lru_put_refines:
  assumes ok: "lru_ok c"
  shows "lru_ok (lru_put i pg c)" "lru_abs (lru_put i pg c) = spec_put (lru_cap c) i pg (lru_abs c)"
    "lru_cap (lru_put i pg c) = lru_cap c"
proof -
  define ps where "ps = lru_ptrs c"
  have rep: "lru_rep c ps" using ok by (simp add: lru_ok_def ps_def)
  note lookup = map_of_abs[OF rep, of i] and abs = lru_rep_abs[OF rep]
  have "lru_ok (lru_put i pg c) \<and> lru_abs (lru_put i pg c) = spec_put (lru_cap c) i pg (lru_abs c)
    \<and> lru_cap (lru_put i pg c) = lru_cap c"
  proof (cases "map_of (lru_items c) i")
    case (Some e)
    define c1 where "c1 = c\<lparr>lru_heap := (lru_heap c)(e := (lru_heap c e)\<lparr>e_page := pg\<rparr>)\<rparr>"
    have e: "e \<in> set ps" "e_id (lru_heap c e) = i"
      using Some lru_rep_lookup[OF rep] by auto
    then obtain as bs where ps: "ps = as @ e # bs" by (meson split_list)
    have rep1: "lru_rep c1 (as @ e # bs)"
      using lru_rep_page[OF rep] by (simp add: c1_def ps)
    note M = moveToFront_rep[OF rep1]
    have "e \<notin> set as" "e \<notin> set bs" using rep ps by (auto simp: lru_rep_def)
    then have "abs_at (lru_heap c1) (e # as @ bs) = (i, pg) # abs_at (lru_heap c) (as @ bs)"
      using e(2) by (auto simp: abs_at_def c1_def)
    also have "\<dots> = (i, pg) # AList.delete i (lru_abs c)"
      using abs_at_split[OF rep[unfolded ps]] e(2) by (simp add: abs ps)
    finally have "lru_abs (moveToFront e c1) = (i, pg) # AList.delete i (lru_abs c)"
      using lru_rep_abs[OF M(1)] M(2) by simp
    then show ?thesis
      using M(1,3) lru_rep_ok Some lookup
      by (auto simp: lru_put_def spec_put_def abs c1_def)
  next
    case None
    note P = pushFront_rep[OF rep None, of pg]
    let ?c2 = "pushFront (lru_fresh c) (c\<lparr>lru_fresh := Suc (lru_fresh c),
      lru_heap := (lru_heap c)(lru_fresh c := \<lparr>e_id = i, e_page = pg, e_prev = None, e_next = None\<rparr>),
      lru_items := AList.update i (lru_fresh c) (lru_items c)\<rparr>)"
    let ?qs = "lru_fresh c # ps"
    have del: "AList.delete i (lru_abs c) = lru_abs c"
    proof -
      have "map_of (lru_abs c) i = None" using None lookup by (simp add: abs)
      then show ?thesis by (simp add: map_of_eq_None_iff)
    qed
    have len: "length (lru_items ?c2) = Suc (length (lru_abs c))"
      using lru_rep_length[OF P(1)] by (simp add: abs abs_at_def)
    obtain qs t where qs: "?qs = qs @ [t]" by (metis append_butlast_last_id list.distinct(1))
    note E = evict_rep[OF P(1)[unfolded qs]]
    have "abs_at (lru_heap ?c2) qs = butlast (abs_at (lru_heap ?c2) ?qs)"
      by (simp only: qs) (simp add: abs_at_def)
    then have ev: "lru_abs (evict ?c2) = butlast ((i, pg) # lru_abs c)"
      using lru_rep_abs[OF E(1)] E(2) P(2) by (simp add: abs)
    have "lru_put i pg c = (if int (length (lru_items ?c2)) > lru_cap c then evict ?c2 else ?c2)"
      using None P(3) by (simp add: lru_put_def Let_def)
    then show ?thesis
      using E P lru_rep_ok[OF E(1)] lru_rep_ok[OF P(1)] lru_rep_abs[OF P(1)] ev None lookup del len
      by (simp add: spec_put_def Let_def abs)
  qed
  then show "lru_ok (lru_put i pg c)" "lru_abs (lru_put i pg c) = spec_put (lru_cap c) i pg (lru_abs c)"
    "lru_cap (lru_put i pg c) = lru_cap c"
    by blast+
qed

section \<open>Whole runs of the cache\<close>

datatype cache_op = GetOp page_id | PutOp page_id nat

text \<open>The pages returned by the gets of a sequence of operations, and the final state.\<close>

fun run_cache :: "cache_op list \<Rightarrow> lru_cache \<Rightarrow> nat option list \<times> lru_cache" where
  "run_cache [] c = ([], c)"
| "run_cache (GetOp i # ops) c =
     (let (r, c1) = lru_get i c; (rs, c2) = run_cache ops c1 in (r # rs, c2))"
| "run_cache (PutOp i pg # ops) c = run_cache ops (lru_put i pg c)"

fun spec_run :: "int \<Rightarrow> cache_op list \<Rightarrow> (page_id \<times> nat) list \<Rightarrow>
    nat option list \<times> (page_id \<times> nat) list" where
  "spec_run cap [] xs = ([], xs)"
| "spec_run cap (GetOp i # ops) xs =
     (let (r, ys) = spec_get i xs; (rs, zs) = spec_run cap ops ys in (r # rs, zs))"
| "spec_run cap (PutOp i pg # ops) xs = spec_run cap ops (spec_put cap i pg xs)"

lemma run_cache_refines:
  "lru_ok c \<Longrightarrow> (case run_cache ops c of (rs, c') \<Rightarrow>
     lru_ok c' \<and> lru_cap c' = lru_cap c \<and> (rs, lru_abs c') = spec_run (lru_cap c) ops (lru_abs c))"
proof (induction ops arbitrary: c)
  case Nil
  then show ?case by simp
next
  case (Cons op ops)
  show ?case
  proof (cases op)
    case (GetOp i)
    obtain r c1 where g: "lru_get i c = (r, c1)" by (cases "lru_get i c")
    note G = lru_get_refines[OF Cons.prems g]
    show ?thesis
      using Cons.IH[OF G(1)] G(3) GetOp g
      by (auto simp flip: G(2) split: prod.splits)
  next
    case (PutOp i pg)
    note P = lru_put_refines[OF Cons.prems, of i pg]
    show ?thesis using Cons.IH[OF P(1)] P PutOp by (auto split: prod.splits)
  qed
qed

lemma spec_put_bound:
  assumes "int (length xs) \<le> max 0 cap"
  shows "int (length (spec_put cap i pg xs)) \<le> max 0 cap"
proof (cases "map_of xs i")
  case None
  then have "AList.delete i xs = xs" by (simp add: map_of_eq_None_iff)
  then show ?thesis using assms None by (simp add: spec_put_def Let_def)
next
  case (Some v)
  then have "(i, v) \<in> set xs" by (rule map_of_SomeD)
  then have "length (AList.delete i xs) < length xs"
    by (auto simp: AList.delete_eq intro: length_filter_less)
  then show ?thesis using assms Some by (simp add: spec_put_def Let_def)
qed

lemma spec_get_length: "length (snd (spec_get i xs)) \<le> length xs"
proof (cases "map_of xs i")
  case (Some v)
  then have "(i, v) \<in> set xs" by (rule map_of_SomeD)
  then have "length (AList.delete i xs) < length xs"
    by (auto simp: AList.delete_eq intro: length_filter_less)
  then show ?thesis using Some by (simp add: spec_get_def)
qed (simp add: spec_get_def)

lemma spec_run_bound:
  "int (length xs) \<le> max 0 cap \<Longrightarrow> int (length (snd (spec_run cap ops xs))) \<le> max 0 cap"
proof (induction ops arbitrary: xs)
  case (Cons op ops)
  show ?case
  proof (cases op)
    case (GetOp i)
    have "int (length (snd (spec_get i xs))) \<le> max 0 cap"
      using spec_get_length[of i xs] Cons.prems by linarith
    from Cons.IH[OF this] show ?thesis using GetOp by (simp split: prod.split) (metis snd_conv)
  next
    case (PutOp i pg)
    then show ?thesis using Cons.IH[OF spec_put_bound[OF Cons.prems]] by simp
  qed
qed simp

lemma lru_items_length: "lru_ok c \<Longrightarrow> length (lru_items c) = length (lru_abs c)"
  using lru_rep_length lru_rep_abs by (simp add: lru_ok_def abs_at_def)

text \<open>
  C15. Functional refinement of the page cache: from the empty cache, every sequence of get and
  put calls on the linked structure returns the same pages as the specification, a list kept
  in order of last use that drops its last element when a new page exceeds the capacity; the
  pointer structure stays well-formed, represents that list, and never holds more than
  \<open>cap\<close> entries (none when \<open>cap\<close> is not positive).
\<close>

theorem lru_cache_refines_list:
  "case run_cache ops (newLRUCache cap) of (rs, c) \<Rightarrow>
     (rs, lru_abs c) = spec_run cap ops [] \<and> lru_ok c \<and>
     int (length (lru_items c)) \<le> max 0 cap"
proof -
  obtain rs c where r: "run_cache ops (newLRUCache cap) = (rs, c)"
    by (cases "run_cache ops (newLRUCache cap)")
  have *: "lru_ok c" "(rs, lru_abs c) = spec_run cap ops []"
    using run_cache_refines[OF lru_ok_new(1)[of cap], of ops] r by (simp_all add: lru_ok_new)
  moreover have "int (length (lru_abs c)) \<le> max 0 cap"
    using spec_run_bound[of "[]" cap ops] arg_cong[OF *(2), of snd] by simp
  ultimately show ?thesis using r * by (simp add: lru_items_length)
qed

end
