(* ===== verification/PageStore.thy ===== *)
theory PageStore
  imports Prelude
begin

text \<open>
  What the tree engine relies on of the pager: numbered pages of one size, read through
  references to shared buffers and written back page by page. \<open>disk s i\<close> is the content of
  page \<open>i\<close> that a fresh read would return; \<open>owns s i a\<close> says that the buffer \<open>a\<close> is a
  handle on page \<open>i\<close> (no other page is cached in it); \<open>inv D s\<close> says that every cached
  buffer agrees with the disk, except those of the pages in \<open>D\<close>, which have been written
  through a handle and not been passed to Write yet.
\<close>

locale page_store =
  fixes pread :: "page_id \<Rightarrow> 's \<Rightarrow> (go_error + nat) \<times> 's"
    and pwrite :: "page_id \<Rightarrow> nat \<Rightarrow> 's \<Rightarrow> (go_error + unit) \<times> 's"
    and palloc :: "'s \<Rightarrow> (go_error + page_id) \<times> 's"
    and assign :: "nat \<Rightarrow> page \<Rightarrow> 's \<Rightarrow> 's"
    and buf :: "'s \<Rightarrow> nat \<Rightarrow> page"
    and disk :: "'s \<Rightarrow> page_id \<Rightarrow> page"
    and count :: "'s \<Rightarrow> nat"
    and psize :: "'s \<Rightarrow> nat"
    and limit :: "nat \<Rightarrow> nat"
    and inv :: "page_id set \<Rightarrow> 's \<Rightarrow> bool"
    and owns :: "'s \<Rightarrow> page_id \<Rightarrow> nat \<Rightarrow> bool"
  assumes disk_length: "inv D s \<Longrightarrow> i < count s \<Longrightarrow> length (disk s i) = psize s"
    and inv_mono: "inv D s \<Longrightarrow> D \<subseteq> E \<Longrightarrow> inv E s"
    and read_law: "inv D s \<Longrightarrow> i < count s \<Longrightarrow> i \<notin> D \<Longrightarrow>
      \<exists>a s'. pread i s = (Inr a, s') \<and> inv D s' \<and> owns s' i a \<and> buf s' a = disk s i \<and>
        disk s' = disk s \<and> count s' = count s \<and> psize s' = psize s \<and>
        (\<forall>j b. owns s j b \<longrightarrow> owns s' j b \<and> buf s' b = buf s b \<and> (j \<noteq> i \<longrightarrow> b \<noteq> a))"
    and write_law: "inv D s \<Longrightarrow> i < count s \<Longrightarrow> owns s i a \<Longrightarrow> length (buf s a) = psize s \<Longrightarrow>
      \<exists>s'. pwrite i a s = (Inr (), s') \<and> inv (D - {i}) s' \<and> disk s' = (disk s)(i := buf s a) \<and>
        buf s' = buf s \<and> count s' = count s \<and> psize s' = psize s \<and>
        (\<forall>j b. owns s j b \<and> (j = i \<or> b \<noteq> a) \<longrightarrow> owns s' j b)"
    and alloc_law: "inv D s \<Longrightarrow> count s < limit (psize s) \<Longrightarrow>
      \<exists>s'. palloc s = (Inr (count s), s') \<and> inv D s' \<and> count s' = Suc (count s) \<and>
        (\<forall>i < count s. disk s' i = disk s i) \<and> disk s' (count s) = replicate (psize s) 0 \<and>
        buf s' = buf s \<and> psize s' = psize s \<and> owns s' = owns s"
    and assign_law: "inv D s \<Longrightarrow> owns s i a \<Longrightarrow>
      inv (insert i D) (assign a c s) \<and> buf (assign a c s) = (buf s)(a := c) \<and>
      disk (assign a c s) = disk s \<and> count (assign a c s) = count s \<and>
      psize (assign a c s) = psize s \<and> owns (assign a c s) = owns s"
begin

text \<open>Overwriting a page whose handle is at hand.\<close>

lemma assign_write:
  assumes "inv D s" "i < count s" "owns s i a" "length c = psize s"
  shows "\<exists>s'. pwrite i a (assign a c s) = (Inr (), s') \<and> inv (D - {i}) s' \<and>
    disk s' = (disk s)(i := c) \<and> buf s' = (buf s)(a := c) \<and> count s' = count s \<and>
    psize s' = psize s \<and> (\<forall>j b. owns s j b \<and> (j = i \<or> b \<noteq> a) \<longrightarrow> owns s' j b)"
proof -
  note A = assign_law[OF assms(1,3), of c]
  then have "inv (insert i D) (assign a c s)" by blast
  from write_law[OF this, of i a] A assms(2-4) obtain s' where
    s': "pwrite i a (assign a c s) = (Inr (), s')" "inv (insert i D - {i}) s'"
    "disk s' = (disk s)(i := c)" "buf s' = (buf s)(a := c)" "count s' = count s"
    "psize s' = psize s" "\<forall>j b. owns s j b \<and> (j = i \<or> b \<noteq> a) \<longrightarrow> owns s' j b"
    by auto
  moreover have "inv (D - {i}) s'"
    using inv_mono[OF s'(2), of "D - {i}"] by blast
  ultimately show ?thesis by blast
qed

text \<open>Reading a page, overwriting its buffer and writing it back.\<close>

lemma read_assign_write:
  assumes "inv {} s" "i < count s" "length c = psize s"
  obtains a s1 s2 where "pread i s = (Inr a, s1)" "buf s1 a = disk s i" "owns s1 i a" "inv {} s1"
    "pwrite i a (assign a c s1) = (Inr (), s2)" "inv {} s2" "disk s2 = (disk s)(i := c)"
    "count s2 = count s" "psize s2 = psize s"
proof -
  obtain a s1 where r: "pread i s = (Inr a, s1)" "inv {} s1" "owns s1 i a" "buf s1 a = disk s i"
    "disk s1 = disk s" "count s1 = count s" "psize s1 = psize s"
    using read_law[OF assms(1,2)] by blast
  obtain s2 where "pwrite i a (assign a c s1) = (Inr (), s2)" "inv ({} - {i}) s2"
    "disk s2 = (disk s1)(i := c)" "count s2 = count s1" "psize s2 = psize s1"
    using assign_write[OF r(2) _ r(3), of c] r assms by auto
  with r that show thesis by auto
qed

text \<open>
  A page split: with the buffer of page \<open>i\<close> at hand, a new page is allocated and read, both
  buffers are overwritten, both pages are written back.
\<close>

lemma split_pages:
  assumes "inv D s" "D \<subseteq> {i}" "i < count s" "owns s i a" "count s < limit (psize s)"
    "length c = psize s" "length c' = psize s"
  obtains b s1 s2 s3 s4 where "palloc s = (Inr (count s), s1)" "pread (count s) s1 = (Inr b, s2)"
    "buf s2 a = buf s a" "buf s2 b = replicate (psize s) 0" "a \<noteq> b"
    "pwrite i a (assign b c' (assign a c s2)) = (Inr (), s3)"
    "pwrite (count s) b s3 = (Inr (), s4)"
    "inv {} s4" "count s4 = Suc (count s)" "psize s4 = psize s"
    "\<forall>j < count s. disk s4 j = (if j = i then c else disk s j)" "disk s4 (count s) = c'"
proof -
  let ?n = "count s"
  obtain s1 where s1: "palloc s = (Inr ?n, s1)" "inv D s1" "count s1 = Suc ?n"
    "\<forall>j < ?n. disk s1 j = disk s j" "disk s1 ?n = replicate (psize s) 0" "buf s1 = buf s"
    "psize s1 = psize s" "owns s1 = owns s"
    using alloc_law[OF assms(1,5)] by blast
  have n: "?n \<notin> D" "i \<noteq> ?n" using assms(2,3) by auto
  obtain b s2 where r: "pread ?n s1 = (Inr b, s2)" "inv D s2" "owns s2 ?n b"
    "buf s2 b = disk s1 ?n" "disk s2 = disk s1" "count s2 = count s1" "psize s2 = psize s1"
    "\<forall>j d. owns s1 j d \<longrightarrow> owns s2 j d \<and> buf s2 d = buf s1 d \<and> (j \<noteq> ?n \<longrightarrow> d \<noteq> b)"
    using read_law[OF s1(2) _ n(1)] s1(3) by auto
  have "owns s1 i a" using s1(8) assms(4) by simp
  with r n(2) have h: "owns s2 i a" "buf s2 a = buf s1 a" "a \<noteq> b" by blast+
  note s2 = r(1-5) r(6)[unfolded s1(3)] r(7)[unfolded s1(7)] h(1) h(2)[unfolded s1(6)] h(3)
  let ?s3 = "assign b c' (assign a c s2)"
  note A = assign_law[OF s2(2,8), of c]
  note B = assign_law[of "insert i D" "assign a c s2" ?n b c']
  have s3: "inv (insert ?n (insert i D)) ?s3" "owns ?s3 = owns s2" "disk ?s3 = disk s1"
    "count ?s3 = Suc ?n" "psize ?s3 = psize s" "buf ?s3 a = c" "buf ?s3 b = c'"
    using A B s2 by auto
  obtain s3 where w1: "pwrite i a ?s3 = (Inr (), s3)" "inv (insert ?n (insert i D) - {i}) s3"
    "disk s3 = (disk s1)(i := c)" "buf s3 = buf ?s3" "count s3 = Suc ?n" "psize s3 = psize s"
    "owns s3 ?n b"
    using write_law[OF s3(1), of i a] s3 s2 assms(3,6) by auto
  obtain s4 where w2: "pwrite ?n b s3 = (Inr (), s4)"
    "inv (insert ?n (insert i D) - {i} - {?n}) s4" "disk s4 = (disk s3)(?n := c')"
    "count s4 = Suc ?n" "psize s4 = psize s"
    using write_law[OF w1(2) _ w1(7)] w1 s3 assms(7) by auto
  have "insert ?n (insert i D) - {i} - {?n} = {}" using assms(2) by auto
  with w2(2) have "inv {} s4" by simp
  moreover have "\<forall>j < ?n. disk s4 j = (if j = i then c else disk s j)" "disk s4 ?n = c'"
    using w1 w2 s1(4) n by auto
  ultimately show thesis
    using that s1(1) s2 s1(5) w1(1) w2 by auto
qed

end

end
