(* ===== verification/Pager.thy ===== *)
theory Pager
  imports Lru PageStore
begin

text \<open>
  The pager (src/dbms/pager/pager.go): a file of fixed-size pages behind a write-through
  LRU cache.

  A page handed out by the pager is a Go slice, a reference to a buffer that the cache and
  the caller share; the callers write through it. The model keeps this aliasing: \<open>bufs\<close> is
  the part of the Go heap that holds page buffers, a page in the hands of a caller is the
  address of its buffer, and \<open>poke\<close> is an assignment through such a slice.

  The operating system's file is a byte list with the semantics of Go's ReadAt and WriteAt
  (short reads are EOF, writes past the end extend the file with zeros) and a list of
  faults that lets any call fail: \<open>Some k\<close> makes the next call fail, a write after its
  first \<open>k\<close> bytes. \<open>fsynced\<close> is the content at the last successful Sync.
\<close>

section \<open>Files\<close>

record os_file =
  fdata :: "byte list"
  fsynced :: "byte list"
  ffaults :: "nat option list"

definition next_fault :: "os_file \<Rightarrow> nat option \<times> os_file" where
  "next_fault f = (case ffaults f of [] \<Rightarrow> (None, f) | x # xs \<Rightarrow> (x, f\<lparr>ffaults := xs\<rparr>))"

definition overlay :: "byte list \<Rightarrow> nat \<Rightarrow> byte list \<Rightarrow> byte list" where
  "overlay d off bs = upd (d @ replicate (off + length bs - length d) 0) off bs"

definition readAt :: "int \<Rightarrow> nat \<Rightarrow> os_file \<Rightarrow> (io_error + byte list) \<times> os_file" where
  "readAt off k f =
     (if off < 0 then (Inl NegativeOffset, f)
      else if k = 0 then (Inr [], f)
      else case next_fault f of
        (Some _, f') \<Rightarrow> (Inl Syscall, f')
      | (None, f') \<Rightarrow>
          (if nat off + k \<le> length (fdata f') then Inr (sl (fdata f') (nat off) k) else Inl EOF, f'))"

definition writeAt :: "int \<Rightarrow> byte list \<Rightarrow> os_file \<Rightarrow> (io_error + unit) \<times> os_file" where
  "writeAt off bs f =
     (if off < 0 then (Inl NegativeOffset, f)
      else if bs = [] then (Inr (), f)
      else case next_fault f of
        (Some k, f') \<Rightarrow>
          (Inl Syscall, f'\<lparr>fdata := overlay (fdata f') (nat off) (take k bs)\<rparr>)
      | (None, f') \<Rightarrow> (Inr (), f'\<lparr>fdata := overlay (fdata f') (nat off) bs\<rparr>))"

definition fsync :: "os_file \<Rightarrow> (io_error + unit) \<times> os_file" where
  "fsync f =
     (case next_fault f of
        (Some _, f') \<Rightarrow> (Inl Syscall, f')
      | (None, f') \<Rightarrow> (Inr (), f'\<lparr>fsynced := fdata f'\<rparr>))"

definition fclose :: "os_file \<Rightarrow> (io_error + unit) \<times> os_file" where
  "fclose f = (case next_fault f of (Some _, f') \<Rightarrow> (Inl Syscall, f') | (None, f') \<Rightarrow> (Inr (), f'))"

section \<open>The pager\<close>

record pager =
  pfile :: os_file
  cache :: lru_cache
  pageCount :: nat
  PageSize :: nat
  writeCount :: int
  SyncInterval :: int
  bufs :: "nat \<Rightarrow> page"
  next_buf :: nat

definition new_buf :: "page \<Rightarrow> pager \<Rightarrow> nat \<times> pager" where
  "new_buf c p = (next_buf p, p\<lparr>bufs := (bufs p)(next_buf p := c), next_buf := Suc (next_buf p)\<rparr>)"

definition poke :: "nat \<Rightarrow> page \<Rightarrow> pager \<Rightarrow> pager" where
  "poke a c p = p\<lparr>bufs := (bufs p)(a := c)\<rparr>"

definition offset :: "pager \<Rightarrow> page_id \<Rightarrow> int" where
  "offset p i = i64 (i64 (int i) * int (PageSize p))"

definition readPageFromDisk :: "page_id \<Rightarrow> pager \<Rightarrow> (go_error + nat) \<times> pager" where
  "readPageFromDisk i p =
     (case readAt (offset p i) (PageSize p) (pfile p) of
        (Inl e, f) \<Rightarrow> (Inl (ReadPage i e), p\<lparr>pfile := f\<rparr>)
      | (Inr c, f) \<Rightarrow> (case new_buf c (p\<lparr>pfile := f\<rparr>) of (a, p') \<Rightarrow> (Inr a, p')))"

definition writePageToDisk :: "page_id \<Rightarrow> page \<Rightarrow> pager \<Rightarrow> (go_error + unit) \<times> pager" where
  "writePageToDisk i c p =
     (case writeAt (offset p i) c (pfile p) of
        (Inl e, f) \<Rightarrow> (Inl (WritePage i e), p\<lparr>pfile := f\<rparr>)
      | (Inr _, f) \<Rightarrow>
          let p1 = p\<lparr>pfile := f\<rparr> in
          if SyncInterval p1 > 0 then
            let p2 = p1\<lparr>writeCount := i64 (writeCount p1 + 1)\<rparr> in
            if writeCount p2 mod SyncInterval p2 = 0 then
              (case fsync (pfile p2) of
                 (Inl e, f') \<Rightarrow> (Inl (FileErr e), p2\<lparr>pfile := f'\<rparr>)
               | (Inr _, f') \<Rightarrow> (Inr (), p2\<lparr>pfile := f'\<rparr>))
            else (Inr (), p2)
          else (Inr (), p1))"

definition Allocate :: "pager \<Rightarrow> (go_error + page_id) \<times> pager" where
  "Allocate p =
     (let i = pageCount p;
          p1 = p\<lparr>pageCount := u64 (i + 1)\<rparr>
      in case writePageToDisk i (replicate (PageSize p1) 0) p1 of
           (Inl e, p2) \<Rightarrow> (Inl e, p2)
         | (Inr _, p2) \<Rightarrow> (Inr i, p2))"

definition Read :: "page_id \<Rightarrow> pager \<Rightarrow> (go_error + nat) \<times> pager" where
  "Read i p =
     (case lru_get i (cache p) of
        (Some a, c) \<Rightarrow> (Inr a, p\<lparr>cache := c\<rparr>)
      | (None, c) \<Rightarrow>
          (case readPageFromDisk i (p\<lparr>cache := c\<rparr>) of
             (Inl e, p1) \<Rightarrow> (Inl e, p1)
           | (Inr a, p1) \<Rightarrow> (Inr a, p1\<lparr>cache := lru_put i a (cache p1)\<rparr>)))"

definition Write :: "page_id \<Rightarrow> nat \<Rightarrow> pager \<Rightarrow> (go_error + unit) \<times> pager" where
  "Write i a p = writePageToDisk i (bufs p a) (p\<lparr>cache := lru_put i a (cache p)\<rparr>)"

definition SetSyncInterval :: "int \<Rightarrow> pager \<Rightarrow> pager" where
  "SetSyncInterval n p = p\<lparr>SyncInterval := n\<rparr>"

definition PageCount :: "pager \<Rightarrow> nat" where
  "PageCount p = pageCount p"

definition fileExists :: "pager \<Rightarrow> (go_error + bool) \<times> pager" where
  "fileExists p =
     (case next_fault (pfile p) of
        (Some _, f) \<Rightarrow> (Inl (Wrapped ''stat file'' (FileErr Syscall)), p\<lparr>pfile := f\<rparr>)
      | (None, f) \<Rightarrow> (Inr (length (fdata f) > 0), p\<lparr>pfile := f\<rparr>))"

definition readPageCount :: "pager \<Rightarrow> ((go_error + unit) \<times> pager) option" where
  "readPageCount p =
     (case readPageFromDisk 0 p of
        (Inl e, p1) \<Rightarrow> Some (Inl e, p1)
      | (Inr a, p1) \<Rightarrow> do {
          b \<leftarrow> rd (bufs p1 a) 0 8;
          Some (Inr (), p1\<lparr>pageCount := le_get b\<rparr>)
        })"

definition writePageCount :: "pager \<Rightarrow> ((go_error + unit) \<times> pager) option" where
  "writePageCount p =
     (let hdr = replicate (PageSize p) 0;
          (hdr1, p1) =
            (if pageCount p > 1 then
               (case readPageFromDisk 0 p of
                  (Inr a, p') \<Rightarrow> (upd hdr 0 (take (length hdr) (bufs p' a)), p')
                | (Inl _, p') \<Rightarrow> (hdr, p'))
             else (hdr, p))
      in do {
           hdr2 \<leftarrow> wr hdr1 0 (le_put 8 (pageCount p1));
           Some (writePageToDisk 0 hdr2 p1)
         })"

definition open_pager :: "os_file \<Rightarrow> int \<Rightarrow> nat \<Rightarrow> (go_error \<times> os_file + pager) option" where
  "open_pager f0 cachePages pageSize =
     (case next_fault f0 of
        (Some _, f) \<Rightarrow> Some (Inl (Wrapped ''opening pager file'' (FileErr Syscall), f))
      | (None, f) \<Rightarrow>
          let p = \<lparr>pfile = f, cache = newLRUCache cachePages, pageCount = 0, PageSize = pageSize,
                   writeCount = 0, SyncInterval = 10000, bufs = (\<lambda>_. []), next_buf = 0\<rparr>
          in case fileExists p of
               (Inl e, p1) \<Rightarrow> Some (Inl (e, snd (fclose (pfile p1))))
             | (Inr True, p1) \<Rightarrow> do {
                 (r, p2) \<leftarrow> readPageCount p1;
                 case r of
                   Inl e \<Rightarrow> Some (Inl (Wrapped ''read page count'' e, snd (fclose (pfile p2))))
                 | Inr _ \<Rightarrow> Some (Inr p2)
               }
             | (Inr False, p1) \<Rightarrow> do {
                 (r, p2) \<leftarrow> writePageCount (p1\<lparr>pageCount := 1\<rparr>);
                 case r of
                   Inl e \<Rightarrow> Some (Inl (Wrapped ''write page count'' e, snd (fclose (pfile p2))))
                 | Inr _ \<Rightarrow> Some (Inr p2)
               })"

definition close_pager :: "pager \<Rightarrow> ((go_error + unit) \<times> pager) option" where
  "close_pager p = do {
     (_, p1) \<leftarrow> writePageCount p;
     Some (case fclose (pfile p1) of
             (Inl e, f) \<Rightarrow> (Inl (FileErr e), p1\<lparr>pfile := f\<rparr>)
           | (Inr _, f) \<Rightarrow> (Inr (), p1\<lparr>pfile := f\<rparr>))
   }"

section \<open>Files without faults\<close>

definition no_faults :: "os_file \<Rightarrow> bool" where
  "no_faults f \<longleftrightarrow> set (ffaults f) \<subseteq> {None}"

abbreviation quiet :: "os_file \<Rightarrow> os_file" where
  "quiet f \<equiv> f\<lparr>ffaults := tl (ffaults f)\<rparr>"

lemma no_faults_quiet [simp]: "no_faults f \<Longrightarrow> no_faults (quiet f)"
  by (cases "ffaults f") (auto simp: no_faults_def)

lemma no_faults_upd [simp]:
  "no_faults (f\<lparr>fdata := d\<rparr>) = no_faults f" "no_faults (f\<lparr>fsynced := d\<rparr>) = no_faults f"
  by (simp_all add: no_faults_def)

lemma next_fault_quiet [simp]: "no_faults f \<Longrightarrow> next_fault f = (None, quiet f)"
  by (cases "ffaults f") (auto simp: next_fault_def no_faults_def)

lemma readAt_ok:
  "no_faults f \<Longrightarrow> 0 < k \<Longrightarrow> o1 + k \<le> length (fdata f) \<Longrightarrow>
     readAt (int o1) k f = (Inr (sl (fdata f) o1 k), quiet f)"
  by (simp add: readAt_def)

lemma writeAt_ok:
  "no_faults f \<Longrightarrow> bs \<noteq> [] \<Longrightarrow>
     writeAt (int o1) bs f = (Inr (), (quiet f)\<lparr>fdata := overlay (fdata f) o1 bs\<rparr>)"
  by (simp add: writeAt_def)

lemma length_overlay: "length (overlay d o1 bs) = max (length d) (o1 + length bs)"
  by (simp add: overlay_def)

lemma sl_overlay_same: "sl (overlay d o1 bs) o1 (length bs) = bs"
  by (simp add: overlay_def slice_simps)

lemma sl_overlay_other:
  assumes "o2 + k \<le> o1 \<or> o1 + length bs \<le> o2" "o2 + k \<le> length d"
  shows "sl (overlay d o1 bs) o2 k = sl d o2 k"
proof -
  let ?d = "d @ replicate (o1 + length bs - length d) 0"
  have "sl (upd ?d o1 bs) o2 k = sl ?d o2 k"
    using assms(1) sl_upd_before[of o2 k o1 bs ?d] sl_upd_after[of o1 bs o2 ?d k] by auto
  also have "\<dots> = sl d o2 k"
    using assms(2) by (simp add: sl_def)
  finally show ?thesis by (simp add: overlay_def)
qed

section \<open>The invariant\<close>

abbreviation cached :: "pager \<Rightarrow> page_id \<Rightarrow> nat option" where
  "cached p \<equiv> map_of (lru_abs (cache p))"

definition disk_page :: "pager \<Rightarrow> page_id \<Rightarrow> page" where
  "disk_page p i = sl (fdata (pfile p)) (i * PageSize p) (PageSize p)"

definition page_limit :: "nat \<Rightarrow> nat" where
  "page_limit ps = (2 ^ 63 - 1) div ps"

definition owns_buf :: "pager \<Rightarrow> page_id \<Rightarrow> nat \<Rightarrow> bool" where
  "owns_buf p i a \<longleftrightarrow> a < next_buf p \<and> (\<forall>j. cached p j = Some a \<longrightarrow> j = i)"

definition pager_inv :: "page_id set \<Rightarrow> pager \<Rightarrow> bool" where
  "pager_inv D p \<longleftrightarrow>
     lru_ok (cache p) \<and> no_faults (pfile p) \<and> 0 < PageSize p \<and>
     pageCount p \<le> page_limit (PageSize p) \<and>
     pageCount p * PageSize p \<le> length (fdata (pfile p)) \<and>
     (\<forall>i a. cached p i = Some a \<longrightarrow>
        i < pageCount p \<and> owns_buf p i a \<and> (i \<notin> D \<longrightarrow> bufs p a = disk_page p i))"

lemma limit_bound:
  assumes "0 < ps" "n \<le> page_limit ps"
  shows "n * ps < 2 ^ 63"
proof -
  have "n * ps \<le> (2 ^ 63 - 1) div ps * ps"
    using assms(2) unfolding page_limit_def by (rule mult_le_mono1)
  also have "\<dots> \<le> 2 ^ 63 - 1" by (rule div_times_less_eq_dividend)
  finally show ?thesis by simp
qed

lemma page_end: "i < n \<Longrightarrow> i * ps + ps \<le> n * (ps::nat)"
  using mult_le_mono1[of "Suc i" n ps] by simp

lemma offset_ok:
  assumes "0 < PageSize p" "i \<le> page_limit (PageSize p)"
  shows "offset p i = int (i * PageSize p)"
proof -
  have b: "i * PageSize p < 2 ^ 63" using limit_bound assms by blast
  moreover have "i \<le> i * PageSize p" using assms(1) by simp
  ultimately have "i < 2 ^ 63" by linarith
  then have "i64 (int i) = int i" by (simp add: i64_id)
  moreover have "int (i * PageSize p) < int (2 ^ 63)" using b by (simp only: of_nat_less_iff)
  ultimately show ?thesis
    unfolding offset_def by (simp add: i64_id flip: of_nat_mult)
qed

lemma pages_apart:
  "i \<noteq> j \<Longrightarrow> i * ps + ps \<le> j * ps \<or> j * ps + ps \<le> i * (ps::nat)"
  by (metis linorder_neqE_nat page_end)

lemma writePageToDisk_ok:
  assumes "no_faults (pfile p)" "0 < PageSize p" "i \<le> page_limit (PageSize p)"
    "length c = PageSize p"
  shows "\<exists>f w. writePageToDisk i c p = (Inr (), p\<lparr>pfile := f, writeCount := w\<rparr>) \<and>
    no_faults f \<and> fdata f = overlay (fdata (pfile p)) (i * PageSize p) c"
proof -
  let ?f = "(quiet (pfile p))\<lparr>fdata := overlay (fdata (pfile p)) (i * PageSize p) c\<rparr>"
  let ?w = "i64 (writeCount p + 1)"
  have c: "c \<noteq> []" using assms(2,4) by auto
  have w: "writeAt (offset p i) c (pfile p) = (Inr (), ?f)"
    unfolding offset_ok[OF assms(2,3)] by (rule writeAt_ok[OF assms(1) c])
  have nf: "no_faults ?f" using assms(1) by simp
  show ?thesis
  proof (cases "SyncInterval p > 0 \<and> ?w mod SyncInterval p = 0")
    case True
    let ?f' = "(quiet ?f)\<lparr>fsynced := fdata ?f\<rparr>"
    have "writePageToDisk i c p = (Inr (), p\<lparr>pfile := ?f', writeCount := ?w\<rparr>)"
      using True w nf by (simp add: writePageToDisk_def fsync_def Let_def)
    moreover have "no_faults ?f'"
      unfolding no_faults_upd by (rule no_faults_quiet[OF nf])
    moreover have "fdata ?f' = fdata ?f" by simp
    ultimately show ?thesis by auto
  next
    case False
    then have "writePageToDisk i c p =
        (Inr (), p\<lparr>pfile := ?f, writeCount := (if SyncInterval p > 0 then ?w else writeCount p)\<rparr>)"
      using w by (auto simp: writePageToDisk_def Let_def)
    moreover have "fdata ?f = overlay (fdata (pfile p)) (i * PageSize p) c" by simp
    ultimately show ?thesis using nf by blast
  qed
qed

lemma readPageFromDisk_ok:
  assumes "no_faults (pfile p)" "0 < PageSize p" "i < n" "n \<le> page_limit (PageSize p)"
    "n * PageSize p \<le> length (fdata (pfile p))"
  shows "readPageFromDisk i p = (Inr (next_buf p),
    p\<lparr>pfile := quiet (pfile p), bufs := (bufs p)(next_buf p := disk_page p i),
      next_buf := Suc (next_buf p)\<rparr>)"
proof -
  have off: "offset p i = int (i * PageSize p)"
    using offset_ok assms(2-4) by simp
  have b: "i * PageSize p + PageSize p \<le> length (fdata (pfile p))"
    using page_end[OF assms(3), of "PageSize p"] assms(5) by linarith
  show ?thesis
    unfolding readPageFromDisk_def off readAt_ok[OF assms(1,2) b]
    by (simp add: new_buf_def disk_page_def)
qed

lemma map_of_delete: "map_of (AList.delete i xs) j = (if j = i then None else map_of xs j)"
  by (simp add: delete_conv')

lemma map_of_butlast: "distinct (map fst xs) \<Longrightarrow> map_of (butlast xs) i = Some v \<Longrightarrow> map_of xs i = Some v"
  by (metis append_butlast_last_id butlast.simps(1) map_add_Some_iff map_of_append
      map_of_eq_None_iff option.distinct(1) map_of_is_SomeI map_of_SomeD in_set_butlastD)

lemma lru_put_cached:
  assumes "lru_ok c" "map_of (lru_abs (lru_put i a c)) j = Some b"
  shows "(j = i \<and> b = a) \<or> (j \<noteq> i \<and> map_of (lru_abs c) j = Some b)"
proof -
  let ?ys = "(i, a) # AList.delete i (lru_abs c)"
  have "distinct (map fst ?ys)"
    using lru_abs_distinct[OF assms(1)] by (simp add: AList.distinct_delete delete_notin_dom)
  moreover have "lru_abs (lru_put i a c) = ?ys \<or> lru_abs (lru_put i a c) = butlast ?ys"
    unfolding lru_put_refines(2)[OF assms(1)] spec_put_def Let_def by presburger
  ultimately have "map_of ?ys j = Some b"
    using assms(2) map_of_butlast by metis
  then show ?thesis
    by (auto simp: map_of_delete split: if_splits)
qed

lemma lru_get_cached:
  assumes "lru_ok c" "lru_get i c = (r, c')"
  shows "r = map_of (lru_abs c) i" "map_of (lru_abs c') = map_of (lru_abs c)" "lru_ok c'"
  using lru_get_refines[OF assms]
  by (auto simp: spec_get_def map_of_delete split: option.splits)

section \<open>The pager is a page store\<close>

lemma pager_invD:
  assumes "pager_inv D p"
  shows "lru_ok (cache p)" "no_faults (pfile p)" "0 < PageSize p"
    "pageCount p \<le> page_limit (PageSize p)"
    "pageCount p * PageSize p \<le> length (fdata (pfile p))"
    "cached p i = Some a \<Longrightarrow> i < pageCount p"
    "cached p i = Some a \<Longrightarrow> a < next_buf p"
    "cached p i = Some a \<Longrightarrow> cached p j = Some a \<Longrightarrow> j = i"
    "cached p i = Some a \<Longrightarrow> i \<notin> D \<Longrightarrow> bufs p a = disk_page p i"
  using assms unfolding pager_inv_def owns_buf_def by blast+

lemma disk_page_length:
  "pager_inv D p \<Longrightarrow> i < pageCount p \<Longrightarrow> length (disk_page p i) = PageSize p"
  using page_end[of i "pageCount p" "PageSize p"]
  by (simp add: pager_inv_def disk_page_def)

lemma pager_inv_mono: "pager_inv D p \<Longrightarrow> D \<subseteq> E \<Longrightarrow> pager_inv E p"
  unfolding pager_inv_def by blast

lemma Read_law:
  assumes inv: "pager_inv D p" and i: "i < pageCount p" "i \<notin> D"
  shows "\<exists>a p'. Read i p = (Inr a, p') \<and> pager_inv D p' \<and> owns_buf p' i a \<and>
    bufs p' a = disk_page p i \<and> disk_page p' = disk_page p \<and> pageCount p' = pageCount p \<and>
    PageSize p' = PageSize p \<and>
    (\<forall>j b. owns_buf p j b \<longrightarrow> owns_buf p' j b \<and> bufs p' b = bufs p b \<and> (j \<noteq> i \<longrightarrow> b \<noteq> a))"
proof -
  note I = pager_invD[OF inv]
  obtain r c where g: "lru_get i (cache p) = (r, c)" by (cases "lru_get i (cache p)")
  note G = lru_get_cached[OF I(1) g]
  show ?thesis
  proof (cases r)
    case (Some a)
    let ?p = "p\<lparr>cache := c\<rparr>"
    have own: "owns_buf ?p = owns_buf p" and d: "disk_page ?p = disk_page p"
      by (simp_all add: fun_eq_iff owns_buf_def disk_page_def G)
    have "pager_inv D ?p"
      using inv by (simp add: pager_inv_def own d G)
    moreover have R: "Read i p = (Inr a, ?p)" using g Some by (simp add: Read_def)
    moreover have c: "cached p i = Some a" using G(1) Some by simp
    moreover have "owns_buf ?p i a" "bufs ?p a = disk_page p i"
      using I(7-9)[OF c] i(2) own by (auto simp: owns_buf_def)
    moreover have "owns_buf ?p j b \<and> bufs ?p b = bufs p b \<and> (j \<noteq> i \<longrightarrow> b \<noteq> a)"
      if "owns_buf p j b" for j b
      using c that own by (auto simp: owns_buf_def)
    moreover have "pageCount ?p = pageCount p" "PageSize ?p = PageSize p" by simp_all
    ultimately show ?thesis using d by blast
  next
    case None
    let ?p1 = "p\<lparr>cache := c, pfile := quiet (pfile p),
      bufs := (bufs p)(next_buf p := disk_page p i), next_buf := Suc (next_buf p)\<rparr>"
    let ?a = "next_buf p" and ?p = "?p1\<lparr>cache := lru_put i (next_buf p) c\<rparr>"
    have "readPageFromDisk i (p\<lparr>cache := c\<rparr>) = (Inr ?a, ?p1)"
      using readPageFromDisk_ok[of "p\<lparr>cache := c\<rparr>" i "pageCount p"] I(2-5) i(1)
      by (simp add: disk_page_def)
    then have R: "Read i p = (Inr ?a, ?p)"
      using g None by (simp add: Read_def)
    have d: "disk_page ?p = disk_page p" by (simp add: fun_eq_iff disk_page_def)
    have new: "cached ?p j = Some b \<Longrightarrow> (j = i \<and> b = ?a) \<or> (j \<noteq> i \<and> cached p j = Some b)" for j b
      using lru_put_cached[OF G(3), of i ?a j b] G(2) by simp
    have old: "cached p j = Some b \<Longrightarrow> b \<noteq> ?a" for j b using I(7)[of j b] by auto
    have own: "owns_buf ?p i ?a"
      using new old by (auto simp: owns_buf_def)
    have keep: "owns_buf p j b \<Longrightarrow> owns_buf ?p j b \<and> bufs ?p b = bufs p b \<and> b \<noteq> ?a" for j b
      using new by (auto simp: owns_buf_def)
    have "pager_inv D ?p"
      unfolding pager_inv_def
    proof (intro conjI allI impI)
      show "lru_ok (cache ?p)" using lru_put_refines(1)[OF G(3)] by simp
      fix j b assume "cached ?p j = Some b"
      from new[OF this] consider "j = i" "b = ?a" | "j \<noteq> i" "cached p j = Some b" by blast
      then have "j < pageCount p \<and> owns_buf ?p j b \<and> (j \<notin> D \<longrightarrow> bufs ?p b = disk_page ?p j)"
      proof cases
        case 1
        then show ?thesis using i own d by simp
      next
        case 2
        then have "owns_buf p j b" using I(7,8) by (auto simp: owns_buf_def)
        then show ?thesis using keep[of j b] 2 I(6,9) d by auto
      qed
      then show "j < pageCount ?p" "owns_buf ?p j b" "j \<notin> D \<Longrightarrow> bufs ?p b = disk_page ?p j"
        by simp_all
    qed (use I(2-5) in simp_all)
    have f: "bufs ?p ?a = disk_page p i" "pageCount ?p = pageCount p" "PageSize ?p = PageSize p"
      by simp_all
    from R \<open>pager_inv D ?p\<close> own f d keep show ?thesis by blast
  qed
qed

lemma Write_law:
  assumes inv: "pager_inv D p" and i: "i < pageCount p" and own: "owns_buf p i a"
    and len: "length (bufs p a) = PageSize p"
  shows "\<exists>p'. Write i a p = (Inr (), p') \<and> pager_inv (D - {i}) p' \<and>
    disk_page p' = (disk_page p)(i := bufs p a) \<and> bufs p' = bufs p \<and>
    pageCount p' = pageCount p \<and> PageSize p' = PageSize p \<and>
    (\<forall>j b. owns_buf p j b \<and> (j = i \<or> b \<noteq> a) \<longrightarrow> owns_buf p' j b)"
proof -
  note I = pager_invD[OF inv]
  let ?p1 = "p\<lparr>cache := lru_put i a (cache p)\<rparr>"
  have "i \<le> page_limit (PageSize p)" using i I(4) by simp
  then obtain f w where W: "writePageToDisk i (bufs p a) ?p1 = (Inr (), ?p1\<lparr>pfile := f, writeCount := w\<rparr>)"
    "no_faults f" "fdata f = overlay (fdata (pfile p)) (i * PageSize p) (bufs p a)"
    using writePageToDisk_ok[of ?p1 i "bufs p a"] I(2,3) len by auto
  let ?p = "?p1\<lparr>pfile := f, writeCount := w\<rparr>"
  have R: "Write i a p = (Inr (), ?p)" using W(1) by (simp add: Write_def)
  have fits: "j < pageCount p \<Longrightarrow> j * PageSize p + PageSize p \<le> length (fdata (pfile p))" for j
    using page_end[of j "pageCount p" "PageSize p"] I(5) by linarith
  have d: "disk_page ?p j = ((disk_page p)(i := bufs p a)) j" for j
  proof (cases "j = i")
    case True
    then show ?thesis
      using len W(3) sl_overlay_same[of "fdata (pfile p)" "i * PageSize p" "bufs p a"]
      by (simp add: disk_page_def)
  next
    case False
    have "length (overlay (fdata (pfile p)) (i * PageSize p) (bufs p a)) = length (fdata (pfile p))"
      using fits[OF i] len by (simp add: length_overlay)
    moreover have "overlay (fdata (pfile p)) (i * PageSize p) (bufs p a) =
        upd (fdata (pfile p)) (i * PageSize p) (bufs p a)"
      using fits[OF i] len by (simp add: overlay_def)
    ultimately show ?thesis
      using False pages_apart[of j i "PageSize p"] fits[OF i] len W(3)
      by (auto simp: disk_page_def slice_simps)
  qed
  have new: "cached ?p j = Some b \<Longrightarrow> (j = i \<and> b = a) \<or> (j \<noteq> i \<and> cached p j = Some b)" for j b
    using lru_put_cached[OF I(1), of i a j b] by simp
  have keep: "owns_buf p j b \<Longrightarrow> j = i \<or> b \<noteq> a \<Longrightarrow> owns_buf ?p j b" for j b
    using new by (auto simp: owns_buf_def)
  have "pager_inv (D - {i}) ?p"
    unfolding pager_inv_def
  proof (intro conjI allI impI)
    show "lru_ok (cache ?p)" using lru_put_refines(1)[OF I(1)] by simp
    show "pageCount ?p * PageSize ?p \<le> length (fdata (pfile ?p))"
      using I(5) W(3) by (simp add: length_overlay)
    fix j b assume "cached ?p j = Some b"
    from new[OF this] consider "j = i" "b = a" | "j \<noteq> i" "cached p j = Some b" by blast
    then have "j < pageCount p \<and> owns_buf ?p j b \<and> (j \<notin> D - {i} \<longrightarrow> bufs ?p b = disk_page ?p j)"
    proof cases
      case 1
      then show ?thesis using i keep[OF own] d[of i] by simp
    next
      case 2
      then have "owns_buf p j b" "b \<noteq> a"
        using I(7,8) own by (auto simp: owns_buf_def)
      then show ?thesis using keep[of j b] 2 I(6,9) d by auto
    qed
    then show "j < pageCount ?p" "owns_buf ?p j b" "j \<notin> D - {i} \<Longrightarrow> bufs ?p b = disk_page ?p j"
      by simp_all
  qed (use I(3,4) W(2) in simp_all)
  then show ?thesis
    using R d keep by (auto simp: fun_eq_iff)
qed

lemma Allocate_law:
  assumes inv: "pager_inv D p" and lim: "pageCount p < page_limit (PageSize p)"
  shows "\<exists>p'. Allocate p = (Inr (pageCount p), p') \<and> pager_inv D p' \<and>
    pageCount p' = Suc (pageCount p) \<and>
    (\<forall>i < pageCount p. disk_page p' i = disk_page p i) \<and>
    disk_page p' (pageCount p) = replicate (PageSize p) 0 \<and> bufs p' = bufs p \<and>
    PageSize p' = PageSize p \<and> owns_buf p' = owns_buf p"
proof -
  note I = pager_invD[OF inv]
  let ?n = "pageCount p" and ?z = "replicate (PageSize p) (0::byte)"
  have "?n < 2 ^ 63"
    using limit_bound[OF I(3,4)] I(3) by (metis gr0_implies_Suc le_add1 le_less_trans mult_Suc_right)
  then have u: "u64 (Suc ?n) = Suc ?n" by simp
  let ?p1 = "p\<lparr>pageCount := Suc ?n\<rparr>"
  obtain f w where W: "writePageToDisk ?n ?z ?p1 = (Inr (), ?p1\<lparr>pfile := f, writeCount := w\<rparr>)"
    "no_faults f" "fdata f = overlay (fdata (pfile p)) (?n * PageSize p) ?z"
    using writePageToDisk_ok[of ?p1 ?n ?z] I(2,3) lim by auto
  let ?p = "?p1\<lparr>pfile := f, writeCount := w\<rparr>"
  have R: "Allocate p = (Inr ?n, ?p)" using W(1) by (simp add: Allocate_def u Let_def)
  have d: "disk_page ?p i = disk_page p i" if "i < ?n" for i
    using page_end[OF that, of "PageSize p"] I(5) W(3)
    by (simp add: disk_page_def sl_overlay_other)
  have d': "disk_page ?p ?n = ?z"
    using W(3) sl_overlay_same[of "fdata (pfile p)" "?n * PageSize p" ?z]
    by (simp add: disk_page_def)
  have own: "owns_buf ?p = owns_buf p" by (simp add: fun_eq_iff owns_buf_def)
  have "pager_inv D ?p"
    unfolding pager_inv_def
  proof (intro conjI allI impI)
    show "pageCount ?p * PageSize ?p \<le> length (fdata (pfile ?p))"
      using W(3) by (simp add: length_overlay)
    fix i a assume c: "cached ?p i = Some a"
    then have c': "cached p i = Some a" by simp
    show "i < pageCount ?p" using I(6)[OF c'] by simp
    show "owns_buf ?p i a" unfolding own using I(7,8)[OF c'] by (auto simp: owns_buf_def)
    show "i \<notin> D \<Longrightarrow> bufs ?p a = disk_page ?p i" using I(9)[OF c'] d[OF I(6)[OF c']] by simp
  qed (use I lim W(2) in simp_all)
  then show ?thesis using R d d' own by auto
qed

lemma poke_law:
  assumes inv: "pager_inv D p" and own: "owns_buf p i a"
  shows "pager_inv (insert i D) (poke a c p) \<and> bufs (poke a c p) = (bufs p)(a := c) \<and>
    disk_page (poke a c p) = disk_page p \<and> pageCount (poke a c p) = pageCount p \<and>
    PageSize (poke a c p) = PageSize p \<and> owns_buf (poke a c p) = owns_buf p"
proof -
  have eq: "disk_page (poke a c p) = disk_page p" "owns_buf (poke a c p) = owns_buf p"
    by (simp_all add: fun_eq_iff disk_page_def owns_buf_def poke_def)
  have "cached p j = Some a \<Longrightarrow> j = i" for j using own by (auto simp: owns_buf_def)
  then have "pager_inv (insert i D) (poke a c p)"
    using inv unfolding pager_inv_def eq by (auto simp: poke_def)
  then show ?thesis using eq by (simp add: poke_def)
qed

interpretation pg: page_store Read Write Allocate poke bufs disk_page pageCount PageSize
  page_limit pager_inv owns_buf
proof unfold_locales
qed (fact disk_page_length pager_inv_mono Read_law Write_law Allocate_law poke_law)+

section \<open>Opening and closing\<close>

text \<open>
  A file left by Close: \<open>n\<close> pages, the first of which starts with the number of pages.
\<close>

definition closed_file :: "nat \<Rightarrow> nat \<Rightarrow> os_file \<Rightarrow> bool" where
  "closed_file ps n f \<longleftrightarrow>
     no_faults f \<and> 0 < n \<and> n \<le> page_limit ps \<and> n * ps \<le> length (fdata f) \<and>
     sl (fdata f) 0 8 = le_put 8 n"

definition file_page :: "nat \<Rightarrow> os_file \<Rightarrow> page_id \<Rightarrow> page" where
  "file_page ps f i = sl (fdata f) (i * ps) ps"

lemma disk_page_file: "disk_page p i = file_page (PageSize p) (pfile p) i"
  by (simp add: disk_page_def file_page_def)

lemma page_limit_less: "0 < ps \<Longrightarrow> n \<le> page_limit ps \<Longrightarrow> n < 2 ^ 63"
  using limit_bound[of ps n] by (metis gr0_implies_Suc le_add1 le_less_trans mult_Suc_right)

lemma fileExists_ok:
  "no_faults (pfile p) \<Longrightarrow>
   fileExists p = (Inr (length (fdata (pfile p)) > 0), p\<lparr>pfile := quiet (pfile p)\<rparr>)"
  by (simp add: fileExists_def)

lemma quiet_data [simp]: "fdata (quiet f) = fdata f" by simp

text \<open>A fresh pager has nothing in its cache.\<close>

lemma pager_inv_fresh:
  assumes "lru_abs (cache p) = []" "lru_ok (cache p)" "no_faults (pfile p)" "0 < PageSize p"
    "pageCount p \<le> page_limit (PageSize p)"
    "pageCount p * PageSize p \<le> length (fdata (pfile p))"
  shows "pager_inv {} p"
  using assms by (simp add: pager_inv_def)

lemma open_pager_existing:
  assumes f: "closed_file ps n f" and ps: "8 \<le> ps"
  obtains p where "open_pager f cap ps = Some (Inr p)" "pager_inv {} p" "pageCount p = n"
    "PageSize p = ps" "fdata (pfile p) = fdata f"
proof -
  note F = f[unfolded closed_file_def]
  let ?z = "\<lparr>pfile = quiet f, cache = newLRUCache cap, pageCount = 0, PageSize = ps,
    writeCount = 0, SyncInterval = 10000, bufs = (\<lambda>_. []), next_buf = 0\<rparr>"
  let ?p1 = "?z\<lparr>pfile := quiet (quiet f)\<rparr>"
  let ?p2 = "?p1\<lparr>pfile := quiet (quiet (quiet f)), bufs := (bufs ?p1)(0 := disk_page ?p1 0),
      next_buf := Suc 0\<rparr>"
  let ?p = "?p2\<lparr>pageCount := n\<rparr>"
  have n: "n < 2 ^ 63" using F ps page_limit_less[of ps n] by simp
  have len: "ps \<le> length (fdata f)" using F ps by (metis mult_le_mono1 One_nat_def Suc_leI le_trans nat_mult_1)
  have nf: "no_faults (quiet f)" "no_faults (quiet (quiet f))" "no_faults (quiet (quiet (quiet f)))"
    using F no_faults_quiet by blast+
  have ex: "fileExists ?z = (Inr True, ?p1)"
    using fileExists_ok[of ?z] nf len ps by auto
  have rd0: "readPageFromDisk 0 ?p1 = (Inr 0, ?p2)"
    using readPageFromDisk_ok[of ?p1 0 n] nf F ps by simp
  have d0: "disk_page ?p1 0 = sl (fdata f) 0 ps" by (simp add: disk_page_def)
  have "sl (sl (fdata f) 0 ps) 0 8 = le_put 8 n"
    using F ps sl_sub[of 0 8 ps "fdata f" 0] by simp
  then have "rd (bufs ?p2 0) 0 8 = Some (le_put 8 n)"
    using ps len d0 rd_nat[of "bufs ?p2 0" 0 8] by (simp del: rd_nat)
  then have rc: "readPageCount ?p1 = Some (Inr (), ?p)"
    unfolding readPageCount_def rd0 using n by simp
  have "open_pager f cap ps = Some (Inr ?p)"
    using F ex rc unfolding open_pager_def Let_def by simp
  moreover have "pager_inv {} ?p"
    by (rule pager_inv_fresh) (use F ps nf(3) lru_ok_new in auto)
  ultimately show thesis using that[of ?p] by simp
qed

lemma open_pager_new:
  assumes f: "no_faults f" "fdata f = []" and ps: "8 \<le> ps" "ps < 2 ^ 63"
  obtains p where "open_pager f cap ps = Some (Inr p)" "pager_inv {} p" "pageCount p = 1"
    "PageSize p = ps" "sl (fdata (pfile p)) 0 8 = le_put 8 1"
proof -
  let ?z = "\<lparr>pfile = quiet f, cache = newLRUCache cap, pageCount = 0, PageSize = ps,
    writeCount = 0, SyncInterval = 10000, bufs = (\<lambda>_. []), next_buf = 0\<rparr>"
  let ?p1 = "?z\<lparr>pfile := quiet (quiet f)\<rparr>"
  let ?p2 = "?p1\<lparr>pageCount := 1\<rparr>"
  let ?h = "upd (replicate ps 0) 0 (le_put 8 1)"
  have nf: "no_faults (quiet f)" "no_faults (quiet (quiet f))"
    using f no_faults_quiet by blast+
  have lim: "1 \<le> page_limit ps" using ps by (simp add: page_limit_def div_greater_zero_iff less_eq_div_iff_mult_less_eq)
  have ex: "fileExists ?z = (Inr False, ?p1)"
    using fileExists_ok[of ?z] nf f by auto
  have wr0: "wr (replicate ps (0::byte)) 0 (le_put 8 1) = Some ?h"
    using ps wr_nat[of "replicate ps (0::byte)" 0 "le_put 8 1"] by (simp del: wr_nat)
  have lh: "length ?h = ps" using ps by simp
  obtain g w where W: "writePageToDisk 0 ?h ?p2 = (Inr (), ?p2\<lparr>pfile := g, writeCount := w\<rparr>)"
    "no_faults g" "fdata g = overlay (fdata (pfile ?p2)) (0 * PageSize ?p2) ?h"
    using writePageToDisk_ok[of ?p2 0 ?h] nf ps lh by auto
  let ?p = "?p2\<lparr>pfile := g, writeCount := w\<rparr>"
  have g: "fdata g = ?h" using W(3) f(2) lh by (simp add: overlay_def upd_def)
  have wc: "writePageCount ?p2 = Some (Inr (), ?p)"
    unfolding writePageCount_def using wr0 W(1) by simp
  have "open_pager f cap ps = Some (Inr ?p)"
    using f ex wc unfolding open_pager_def Let_def by simp
  moreover have "pager_inv {} ?p"
    by (rule pager_inv_fresh) (use ps lim W(2) g lh lru_ok_new in auto)
  moreover have "sl (fdata (pfile ?p)) 0 8 = le_put 8 1"
    using g ps by (simp add: slice_simps)
  ultimately show thesis using that[of ?p] by simp
qed

lemma close_pager_ok:
  assumes inv: "pager_inv {} p" and n: "0 < pageCount p" and ps: "8 \<le> PageSize p"
  obtains p' where "close_pager p = Some (Inr (), p')"
    "closed_file (PageSize p) (pageCount p) (pfile p')"
    "\<forall>i. 0 < i \<and> i < pageCount p \<longrightarrow> file_page (PageSize p) (pfile p') i = disk_page p i"
proof -
  note I = pager_invD[OF inv]
  let ?ps = "PageSize p"
  have n63: "pageCount p < 2 ^ 63" using page_limit_less I(3,4) by blast
  have room: "?ps \<le> length (fdata (pfile p))"
    using n I(5) by (metis Suc_leI mult_le_mono1 nat_mult_1 One_nat_def le_trans)
  obtain hdr p1 where H:
    "(if pageCount p > 1 then
        (case readPageFromDisk 0 p of
           (Inr a, p') \<Rightarrow> (upd (replicate ?ps 0) 0 (take (length (replicate ?ps (0::byte))) (bufs p' a)), p')
         | (Inl _, p') \<Rightarrow> (replicate ?ps 0, p'))
      else (replicate ?ps 0, p)) = (hdr, p1)"
    "length hdr = ?ps" "no_faults (pfile p1)" "fdata (pfile p1) = fdata (pfile p)"
    "pageCount p1 = pageCount p" "PageSize p1 = ?ps"
  proof (cases "pageCount p > 1")
    case True
    have "readPageFromDisk 0 p = (Inr (next_buf p), p\<lparr>pfile := quiet (pfile p),
        bufs := (bufs p)(next_buf p := disk_page p 0), next_buf := Suc (next_buf p)\<rparr>)"
      by (rule readPageFromDisk_ok[OF I(2,3) n I(4,5)])
    then show thesis
      using that[of "upd (replicate ?ps 0) 0 (disk_page p 0)" "p\<lparr>pfile := quiet (pfile p),
        bufs := (bufs p)(next_buf p := disk_page p 0), next_buf := Suc (next_buf p)\<rparr>"]
        True disk_page_length[OF inv n] I(2) by simp
  next
    case False
    then show thesis using that[of "replicate ?ps 0" p] I(2) by simp
  qed
  let ?h = "upd hdr 0 (le_put 8 (pageCount p))"
  have lh: "length ?h = ?ps" using H(2) ps by simp
  have wr0: "wr hdr 0 (le_put 8 (pageCount p1)) = Some ?h"
    using ps H(2,5) wr_nat[of hdr 0 "le_put 8 (pageCount p)"] by (simp del: wr_nat)
  obtain g w where W: "writePageToDisk 0 ?h p1 = (Inr (), p1\<lparr>pfile := g, writeCount := w\<rparr>)"
    "no_faults g" "fdata g = overlay (fdata (pfile p1)) (0 * PageSize p1) ?h"
    using writePageToDisk_ok[of p1 0 ?h] H I(3) lh by auto
  let ?p2 = "p1\<lparr>pfile := g, writeCount := w\<rparr>"
  have g: "fdata g = upd (fdata (pfile p)) 0 ?h"
    using W(3) H(4) room lh by (simp add: overlay_def)
  have "writePageCount p = Some (Inr (), ?p2)"
    unfolding writePageCount_def Let_def H(1) using wr0 W(1) by simp
  then have "close_pager p = Some (Inr (), ?p2\<lparr>pfile := quiet g\<rparr>)"
    using W(2) unfolding close_pager_def by (simp add: fclose_def)
  moreover have "closed_file ?ps (pageCount p) (quiet g)"
  proof -
    have "sl (fdata g) 0 8 = sl (sl (fdata g) 0 ?ps) 0 8"
      using ps sl_sub[of 0 8 ?ps "fdata g" 0] by simp
    also have "sl (fdata g) 0 ?ps = ?h"
      unfolding g using room lh by (simp add: slice_simps)
    also have "sl ?h 0 8 = le_put 8 (pageCount p)"
      using H(2) ps by (simp add: slice_simps)
    finally show ?thesis
      using W(2) n I(4,5) g room lh by (simp add: closed_file_def)
  qed
  moreover have "file_page ?ps (quiet g) i = disk_page p i" if "0 < i" "i < pageCount p" for i
    using that page_end[of 0 i ?ps] room lh g
    by (simp add: file_page_def disk_page_def slice_simps)
  ultimately show thesis using that[of "?p2\<lparr>pfile := quiet g\<rparr>"] by simp
qed

section \<open>The pager as an array of pages\<close>

text \<open>
  What a client does with pages: allocate one, look at one, replace the content of one by
  reading it, writing through the shared buffer and passing the buffer to Write, and change
  the sync interval. The specification is a list of pages.
\<close>

datatype page_op = AllocOp | ReadOp page_id | WriteOp page_id page | SyncOp int

datatype page_obs = NewPage page_id | Content page | Done | Failed go_error

fun pager_step :: "page_op \<Rightarrow> pager \<Rightarrow> page_obs \<times> pager" where
  "pager_step AllocOp s =
     (case Allocate s of (Inl e, s1) \<Rightarrow> (Failed e, s1) | (Inr i, s1) \<Rightarrow> (NewPage i, s1))"
| "pager_step (ReadOp i) s =
     (case Read i s of (Inl e, s1) \<Rightarrow> (Failed e, s1) | (Inr a, s1) \<Rightarrow> (Content (bufs s1 a), s1))"
| "pager_step (WriteOp i c) s =
     (case Read i s of
        (Inl e, s1) \<Rightarrow> (Failed e, s1)
      | (Inr a, s1) \<Rightarrow>
          (case Write i a (poke a c s1) of (Inl e, s2) \<Rightarrow> (Failed e, s2) | (Inr _, s2) \<Rightarrow> (Done, s2)))"
| "pager_step (SyncOp n) s = (Done, SetSyncInterval n s)"

fun array_step :: "nat \<Rightarrow> page_op \<Rightarrow> page list \<Rightarrow> page_obs \<times> page list" where
  "array_step ps AllocOp xs = (NewPage (length xs), xs @ [replicate ps 0])"
| "array_step ps (ReadOp i) xs = (Content (xs ! i), xs)"
| "array_step ps (WriteOp i c) xs = (Done, xs[i := c])"
| "array_step ps (SyncOp n) xs = (Done, xs)"

fun run_steps :: "('o \<Rightarrow> 's \<Rightarrow> 'r \<times> 's) \<Rightarrow> 'o list \<Rightarrow> 's \<Rightarrow> 'r list \<times> 's" where
  "run_steps f [] s = ([], s)"
| "run_steps f (x # xs) s =
     (let (r, s1) = f x s; (rs, s2) = run_steps f xs s1 in (r # rs, s2))"

text \<open>The operations stay within the allocated pages and the size of the file.\<close>

fun op_ok :: "nat \<Rightarrow> page_op \<Rightarrow> page list \<Rightarrow> bool" where
  "op_ok ps AllocOp xs = (length xs < page_limit ps)"
| "op_ok ps (ReadOp i) xs = (i < length xs)"
| "op_ok ps (WriteOp i c) xs = (i < length xs \<and> length c = ps)"
| "op_ok ps (SyncOp n) xs = True"

fun ops_ok :: "nat \<Rightarrow> page_op list \<Rightarrow> page list \<Rightarrow> bool" where
  "ops_ok ps [] xs = True"
| "ops_ok ps (x # ops) xs = (op_ok ps x xs \<and> ops_ok ps ops (snd (array_step ps x xs)))"

definition pages :: "pager \<Rightarrow> page list" where
  "pages s = map (disk_page s) [0..<pageCount s]"

lemma length_pages [simp]: "length (pages s) = pageCount s"
  by (simp add: pages_def)

lemma nth_pages [simp]: "i < pageCount s \<Longrightarrow> pages s ! i = disk_page s i"
  by (simp add: pages_def)

lemma pages_cong: "pageCount s' = pageCount s \<Longrightarrow> disk_page s' = disk_page s \<Longrightarrow> pages s' = pages s"
  by (simp add: pages_def)

lemma SetSyncInterval_inv:
  "pager_inv D (SetSyncInterval n s) = pager_inv D s"
  "disk_page (SetSyncInterval n s) = disk_page s" "pageCount (SetSyncInterval n s) = pageCount s"
  "PageSize (SetSyncInterval n s) = PageSize s"
  by (simp_all add: SetSyncInterval_def pager_inv_def owns_buf_def disk_page_def fun_eq_iff)

lemma pager_step_refines:
  assumes inv: "pager_inv {} s" and ok: "op_ok (PageSize s) x (pages s)"
  obtains r s' where "pager_step x s = (r, s')" "pager_inv {} s'" "PageSize s' = PageSize s"
    "array_step (PageSize s) x (pages s) = (r, pages s')"
proof (cases x)
  case AllocOp
  then have "pageCount s < page_limit (PageSize s)" using ok by simp
  from Allocate_law[OF inv this] obtain s' where A: "Allocate s = (Inr (pageCount s), s')"
    "pager_inv {} s'" "pageCount s' = Suc (pageCount s)" "PageSize s' = PageSize s"
    "\<forall>i < pageCount s. disk_page s' i = disk_page s i"
    "disk_page s' (pageCount s) = replicate (PageSize s) 0" by blast
  have "pages s' = pages s @ [replicate (PageSize s) 0]"
    using A(3,5,6) by (auto simp: pages_def)
  then show thesis using that[of "NewPage (pageCount s)" s'] A AllocOp by simp
next
  case (ReadOp i)
  then have i: "i < pageCount s" using ok by simp
  from Read_law[OF inv i] obtain a s' where R: "Read i s = (Inr a, s')" "pager_inv {} s'"
    "bufs s' a = disk_page s i" "disk_page s' = disk_page s" "pageCount s' = pageCount s"
    "PageSize s' = PageSize s" by blast
  then show thesis
    using that[of "Content (disk_page s i)" s'] ReadOp i pages_cong[of s' s] by simp
next
  case (WriteOp i c)
  then have i: "i < pageCount s" "length c = PageSize s" using ok by simp_all
  obtain a s1 s2 where W: "Read i s = (Inr a, s1)" "Write i a (poke a c s1) = (Inr (), s2)"
    "pager_inv {} s2" "disk_page s2 = (disk_page s)(i := c)" "pageCount s2 = pageCount s"
    "PageSize s2 = PageSize s"
    using pg.read_assign_write[OF inv i] .
  have "pages s2 = (pages s)[i := c]"
    by (rule nth_equalityI) (use W(4,5) i in \<open>auto simp: nth_list_update\<close>)
  then show thesis using that[of Done s2] W WriteOp by simp
next
  case (SyncOp n)
  have "pages (SetSyncInterval n s) = pages s"
    by (rule pages_cong) (simp_all add: SetSyncInterval_inv)
  then show thesis
    using that[of Done "SetSyncInterval n s"] SyncOp inv by (simp add: SetSyncInterval_inv)
qed

lemma run_pager_refines:
  assumes "pager_inv {} s" "ops_ok (PageSize s) ops (pages s)"
  shows "\<exists>rs s'. run_steps pager_step ops s = (rs, s') \<and> pager_inv {} s' \<and>
    PageSize s' = PageSize s \<and> run_steps (array_step (PageSize s)) ops (pages s) = (rs, pages s')"
  using assms
proof (induction ops arbitrary: s)
  case Nil
  then show ?case by simp
next
  case (Cons x ops)
  obtain r s1 where 1: "pager_step x s = (r, s1)" "pager_inv {} s1" "PageSize s1 = PageSize s"
    "array_step (PageSize s) x (pages s) = (r, pages s1)"
    using pager_step_refines[OF Cons.prems(1)] Cons.prems(2) by auto
  then obtain rs s2 where 2: "run_steps pager_step ops s1 = (rs, s2)" "pager_inv {} s2"
    "PageSize s2 = PageSize s1" "run_steps (array_step (PageSize s1)) ops (pages s1) = (rs, pages s2)"
    using Cons.IH[OF 1(2)] Cons.prems(2) by auto
  show ?case using 1 2 by auto
qed

text \<open>
  C11. The pager is an array of pages: on a file without faults, whatever the cache holds and
  whatever its capacity and sync interval, every sequence of allocations, reads and
  read-modify-write cycles within the allocated pages returns page numbers and contents of
  a plain list of pages, and the bytes of the file itself are those pages after every
  operation (the cache is write-through).
\<close>

theorem pager_refines_array:
  assumes "pager_inv {} s" "ops_ok (PageSize s) ops (pages s)"
  shows "case run_steps pager_step ops s of (rs, s') \<Rightarrow>
     pager_inv {} s' \<and> run_steps (array_step (PageSize s)) ops (pages s) = (rs, pages s')"
  using run_pager_refines[OF assms] by auto

text \<open>
  C12. Durability across Close and Open: a pager opened on an empty file, used by any such
  sequence of operations and closed leaves a file from which Open restores the number of
  pages and the content of every page but the header page 0, with any cache capacity.
\<close>

theorem pager_reopen:
  assumes "no_faults f" "fdata f = []" "8 \<le> ps" "ps < 2 ^ 63"
    and "open_pager f cap ps = Some (Inr p)" "ops_ok ps ops (pages p)"
  shows "\<exists>p1 p2. close_pager (snd (run_steps pager_step ops p)) = Some (Inr (), p1) \<and>
     open_pager (pfile p1) cap' ps = Some (Inr p2) \<and> pager_inv {} p2 \<and>
     tl (pages p2) = tl (snd (run_steps (array_step ps) ops (pages p)))"
proof -
  have p: "pager_inv {} p" "pageCount p = 1" "PageSize p = ps"
    using open_pager_new[OF assms(1-4), of cap] assms(5) by (metis Inr_inject option.inject)+
  obtain rs s where r: "run_steps pager_step ops p = (rs, s)" "pager_inv {} s" "PageSize s = ps"
    "run_steps (array_step ps) ops (pages p) = (rs, pages s)"
    using run_pager_refines[OF p(1), of ops] assms(6) p(3) by auto
  have "length (snd (run_steps (array_step ps) ops xs)) \<ge> length xs" for xs
  proof (induction ops arbitrary: xs)
    case (Cons x ops)
    have "length xs \<le> length (snd (array_step ps x xs))" by (cases x) simp_all
    also have "\<dots> \<le> length (snd (run_steps (array_step ps) ops (snd (array_step ps x xs))))"
      by (rule Cons.IH)
    finally show ?case by (simp split: prod.splits) (metis snd_conv)
  qed simp
  from this[of "pages p"] have n: "0 < pageCount s" using r(4) p(2) by simp
  obtain p1 where c: "close_pager s = Some (Inr (), p1)"
    "closed_file ps (pageCount s) (pfile p1)"
    "\<forall>i. 0 < i \<and> i < pageCount s \<longrightarrow> file_page ps (pfile p1) i = disk_page s i"
    using close_pager_ok[OF r(2) n] r(3) assms(3) by metis
  obtain p2 where o2: "open_pager (pfile p1) cap' ps = Some (Inr p2)" "pager_inv {} p2"
    "pageCount p2 = pageCount s" "PageSize p2 = ps" "fdata (pfile p2) = fdata (pfile p1)"
    using open_pager_existing[OF c(2) assms(3)] .
  have "tl (pages p2) = tl (pages s)"
  proof (rule nth_equalityI)
    fix i assume "i < length (tl (pages p2))"
    then have i: "Suc i < pageCount s" using o2(3) by simp
    then show "tl (pages p2) ! i = tl (pages s) ! i"
      using spec[OF c(3), of "Suc i"] o2(3-5) r(3) by (simp add: nth_tl disk_page_def file_page_def)
  qed (use o2(3) in simp)
  then show ?thesis using c(1) o2(1,2) r by auto
qed

definition empty_file :: os_file where
  "empty_file = \<lparr>fdata = [], fsynced = [], ffaults = []\<rparr>"

lemma empty_file_simps [simp]: "no_faults empty_file" "fdata empty_file = []"
  by (simp_all add: empty_file_def no_faults_def)

lemma sample_ops_ok:
  "pageCount p = 1 \<Longrightarrow> ops_ok 16 [AllocOp, WriteOp 1 (replicate 16 7), ReadOp 1] (pages p)"
  by (simp add: page_limit_def)

theorem pager_refines_array_witness:
  "\<exists>p. open_pager empty_file 2 16 = Some (Inr p) \<and>
     (case run_steps pager_step [AllocOp, WriteOp 1 (replicate 16 7), ReadOp 1] p of (rs, s') \<Rightarrow>
       pager_inv {} s' \<and> rs = [NewPage 1, Done, Content (replicate 16 7)])"
proof -
  obtain p where p: "open_pager empty_file 2 16 = Some (Inr p)" "pager_inv {} p" "pageCount p = 1"
    "PageSize p = 16"
    by (rule open_pager_new[of empty_file 16 2]) auto
  have "ops_ok (PageSize p) [AllocOp, WriteOp 1 (replicate 16 7), ReadOp 1] (pages p)"
    using sample_ops_ok[OF p(3)] p(4) by simp
  from pager_refines_array[OF p(2) this] p show ?thesis
    by (auto simp: nth_append split: prod.splits)
qed

theorem pager_reopen_witness:
  "\<exists>p p1 p2. open_pager empty_file 2 16 = Some (Inr p) \<and>
     close_pager (snd (run_steps pager_step [AllocOp, WriteOp 1 (replicate 16 7), ReadOp 1] p)) =
       Some (Inr (), p1) \<and>
     open_pager (pfile p1) 3 16 = Some (Inr p2) \<and> tl (pages p2) = [replicate 16 7]"
proof -
  obtain p where p: "open_pager empty_file 2 16 = Some (Inr p)" "pageCount p = 1"
    by (rule open_pager_new[of empty_file 16 2]) auto
  have "tl (pages p) = []" using p(2) by (simp add: pages_def)
  moreover from p(2) have "pages p \<noteq> []" by (simp add: pages_def)
  ultimately have "tl (snd (run_steps (array_step 16) [AllocOp, WriteOp 1 (replicate 16 7), ReadOp 1] (pages p)))
      = [replicate 16 7]"
    using p(2) by (cases "pages p") (simp_all add: nth_append)
  then show ?thesis
    using pager_reopen[OF _ _ _ _ p(1) sample_ops_ok[OF p(2)], of 3] p(1) by auto
qed

end
