(* ===== verification/Btpage.thy ===== *)
theory Btpage
  imports Prelude
begin

text \<open>
  The layout of a tree page (src/dbms/index/btpage/page.go): a 13-byte header (type, number
  of cells, start of the cell area, rightmost child, next leaf), the array of cell pointers
  growing upwards behind it, and the cells growing downwards from the end of the page. Every
  accessor works on the bytes and panics (\<open>None\<close>) where Go's slice expression would.

  \<open>page_rep\<close> is the representation invariant of a page and the lemmas below it say what each
  primitive does to a page that satisfies it.
\<close>

section \<open>The code\<close>

abbreviation TypeInternal :: byte where "TypeInternal \<equiv> 0"
abbreviation TypeLeaf :: byte where "TypeLeaf \<equiv> 1"
abbreviation OffNumCells :: int where "OffNumCells \<equiv> 1"
abbreviation OffCellContent :: int where "OffCellContent \<equiv> 3"
abbreviation OffRightmost :: int where "OffRightmost \<equiv> 5"
abbreviation OffNextLeaf :: int where "OffNextLeaf \<equiv> 9"
abbreviation OffCellPtrs :: nat where "OffCellPtrs \<equiv> 13"
abbreviation CellPtrSize :: nat where "CellPtrSize \<equiv> 2"
abbreviation InvalidPage :: page_id where "InvalidPage \<equiv> 0xFFFFFFFF"

definition page_type :: "page \<Rightarrow> byte option" where
  "page_type p = (case p of [] \<Rightarrow> None | b # _ \<Rightarrow> Some b)"

definition NumCells :: "page \<Rightarrow> nat option" where
  "NumCells p = do { b \<leftarrow> rd p OffNumCells 2; Some (le_get b) }"

definition SetNumCells :: "page \<Rightarrow> int \<Rightarrow> page option" where
  "SetNumCells p n = wr p OffNumCells (le_put 2 (u16 n))"

definition CellContent :: "page \<Rightarrow> nat option" where
  "CellContent p = do { b \<leftarrow> rd p OffCellContent 2; Some (le_get b) }"

definition SetCellContent :: "page \<Rightarrow> nat \<Rightarrow> page option" where
  "SetCellContent p v = wr p OffCellContent (le_put 2 v)"

definition Rightmost :: "page \<Rightarrow> page_id option" where
  "Rightmost p = do { b \<leftarrow> rd p OffRightmost 4; Some (le_get b) }"

definition SetRightmost :: "page \<Rightarrow> page_id \<Rightarrow> page option" where
  "SetRightmost p i = wr p OffRightmost (le_put 4 i)"

definition NextLeaf :: "page \<Rightarrow> page_id option" where
  "NextLeaf p = do { b \<leftarrow> rd p OffNextLeaf 4; Some (le_get b) }"

definition SetNextLeaf :: "page \<Rightarrow> page_id \<Rightarrow> page option" where
  "SetNextLeaf p i = wr p OffNextLeaf (le_put 4 i)"

definition CellPtr :: "page \<Rightarrow> nat \<Rightarrow> nat option" where
  "CellPtr p i = do { b \<leftarrow> rd p (int (OffCellPtrs + i * CellPtrSize)) 2; Some (le_get b) }"

definition SetCellPtr :: "page \<Rightarrow> nat \<Rightarrow> nat \<Rightarrow> page option" where
  "SetCellPtr p i off = wr p (int (OffCellPtrs + i * CellPtrSize)) (le_put 2 off)"

definition FreeSpace :: "page \<Rightarrow> nat \<Rightarrow> int option" where
  "FreeSpace p n = do { c \<leftarrow> CellContent p; Some (int c - int (OffCellPtrs + n * CellPtrSize)) }"

definition AllocCell :: "page \<Rightarrow> nat \<Rightarrow> (int \<times> page) option" where
  "AllocCell p sz = do {
     c \<leftarrow> CellContent p;
     let top = int c - int sz;
     p1 \<leftarrow> SetCellContent p (u16 top);
     Some (top, p1)
   }"

definition InitPage :: "page \<Rightarrow> byte \<Rightarrow> page option" where
  "InitPage p pt = do {
     let p0 = replicate (length p) 0;
     p1 \<leftarrow> wr p0 0 [pt];
     p2 \<leftarrow> SetNumCells p1 0;
     p3 \<leftarrow> SetCellContent p2 (u16 (int (length p2)));
     SetNextLeaf p3 InvalidPage
   }"

section \<open>Fields of a page\<close>

definition u16_at :: "page \<Rightarrow> nat \<Rightarrow> nat" where
  "u16_at p off = le_get (sl p off 2)"

definition u32_at :: "page \<Rightarrow> nat \<Rightarrow> nat" where
  "u32_at p off = le_get (sl p off 4)"

abbreviation ptr_off :: "nat \<Rightarrow> nat" where "ptr_off i \<equiv> 13 + 2 * i"

lemma u16_at_less: "off + 2 \<le> length p \<Longrightarrow> u16_at p off < 65536"
  using le_get_less[of "sl p off 2"] by (simp add: u16_at_def)

lemma u32_at_less: "off + 4 \<le> length p \<Longrightarrow> u32_at p off < 2 ^ 32"
  using le_get_less[of "sl p off 4"] by (simp add: u32_at_def)

lemma u16_at_upd [slice_simps]:
  "off + 2 \<le> length p \<Longrightarrow> v < 65536 \<Longrightarrow> u16_at (upd p off (le_put 2 v)) off = v"
  by (simp add: u16_at_def sl_upd_same le_get_put)

lemma u32_at_upd [slice_simps]:
  "off + 4 \<le> length p \<Longrightarrow> v < 2 ^ 32 \<Longrightarrow> u32_at (upd p off (le_put 4 v)) off = v"
  by (simp add: u32_at_def sl_upd_same le_get_put)

lemma u16_at_other [slice_simps]:
  "off' + 2 \<le> off \<or> off + length bs \<le> off' \<Longrightarrow> off + length bs \<le> length p \<Longrightarrow>
     u16_at (upd p off bs) off' = u16_at p off'"
  by (auto simp: u16_at_def slice_simps)

lemma u32_at_other [slice_simps]:
  "off' + 4 \<le> off \<or> off + length bs \<le> off' \<Longrightarrow> off + length bs \<le> length p \<Longrightarrow>
     u32_at (upd p off bs) off' = u32_at p off'"
  by (auto simp: u32_at_def slice_simps)

lemma header_reads [page_defs]:
  "13 \<le> length p \<Longrightarrow> NumCells p = Some (u16_at p 1)"
  "13 \<le> length p \<Longrightarrow> CellContent p = Some (u16_at p 3)"
  "13 \<le> length p \<Longrightarrow> Rightmost p = Some (u32_at p 5)"
  "13 \<le> length p \<Longrightarrow> NextLeaf p = Some (u32_at p 9)"
  "ptr_off i + 2 \<le> length p \<Longrightarrow> CellPtr p i = Some (u16_at p (ptr_off i))"
  "13 \<le> length p \<Longrightarrow> FreeSpace p n = Some (int (u16_at p 3) - int (ptr_off n))"
  "13 \<le> length p \<Longrightarrow> page_type p = Some (p ! 0)"
  using rd_nat[of p "ptr_off i" 2]
  by (auto simp: NumCells_def CellContent_def Rightmost_def NextLeaf_def CellPtr_def
      FreeSpace_def u16_at_def u32_at_def page_type_def mult.commute split: list.splits
      simp del: rd_nat)

lemma header_writes [page_defs]:
  "13 \<le> length p \<Longrightarrow> SetNumCells p n' = Some (upd p 1 (le_put 2 (u16 n')))"
  "13 \<le> length p \<Longrightarrow> SetCellContent p v = Some (upd p 3 (le_put 2 v))"
  "13 \<le> length p \<Longrightarrow> SetRightmost p j = Some (upd p 5 (le_put 4 j))"
  "13 \<le> length p \<Longrightarrow> SetNextLeaf p j = Some (upd p 9 (le_put 4 j))"
  "ptr_off i + 2 \<le> length p \<Longrightarrow> SetCellPtr p i v = Some (upd p (ptr_off i) (le_put 2 v))"
  using wr_nat[of p "ptr_off i" "le_put 2 v"]
  by (auto simp: SetNumCells_def SetCellContent_def SetRightmost_def SetNextLeaf_def
      SetCellPtr_def mult.commute simp del: wr_nat)

section \<open>The representation invariant\<close>

text \<open>
  \<open>page_rep enc leaf p ocs c\<close>: page \<open>p\<close> holds the cells \<open>map snd ocs\<close>, cell by cell at the
  offsets \<open>map fst ocs\<close>, its cell area starts at \<open>c\<close> above the pointer array, and no two
  cells overlap. \<open>enc\<close> is the byte format of a cell.
\<close>

definition apart :: "(bool \<Rightarrow> cell \<Rightarrow> byte list) \<Rightarrow> bool \<Rightarrow> nat \<times> cell \<Rightarrow> nat \<times> cell \<Rightarrow> bool" where
  "apart enc leaf x y \<longleftrightarrow>
     fst x + length (enc leaf (snd x)) \<le> fst y \<or> fst y + length (enc leaf (snd y)) \<le> fst x"

definition cell_at :: "(bool \<Rightarrow> cell \<Rightarrow> byte list) \<Rightarrow> bool \<Rightarrow> page \<Rightarrow> nat \<times> cell \<Rightarrow> bool" where
  "cell_at enc leaf p x \<longleftrightarrow>
     fst x + length (enc leaf (snd x)) \<le> length p \<and>
     sl p (fst x) (length (enc leaf (snd x))) = enc leaf (snd x)"

definition ptrs :: "page \<Rightarrow> nat \<Rightarrow> nat list" where
  "ptrs p n = map (\<lambda>i. u16_at p (ptr_off i)) [0..<n]"

definition page_rep ::
  "(bool \<Rightarrow> cell \<Rightarrow> byte list) \<Rightarrow> bool \<Rightarrow> page \<Rightarrow> (nat \<times> cell) list \<Rightarrow> nat \<Rightarrow> bool" where
  "page_rep enc leaf p ocs c \<longleftrightarrow>
     length p < 65536 \<and> p ! 0 = (if leaf then TypeLeaf else TypeInternal) \<and>
     u16_at p 1 = length ocs \<and> u16_at p 3 = c \<and> ptr_off (length ocs) \<le> c \<and> c \<le> length p \<and>
     ptrs p (length ocs) = map fst ocs \<and>
     (\<forall>x \<in> set ocs. c \<le> fst x \<and> cell_at enc leaf p x) \<and> sorted_wrt (apart enc leaf) ocs"

lemma apart_sym: "apart enc leaf x y = apart enc leaf y x"
  by (auto simp: apart_def)

lemma length_ptrs [simp]: "length (ptrs p n) = n"
  by (simp add: ptrs_def)

lemma nth_ptrs [simp]: "i < n \<Longrightarrow> ptrs p n ! i = u16_at p (ptr_off i)"
  by (simp add: ptrs_def)

lemma page_repD:
  assumes "page_rep enc leaf p ocs c"
  shows "length p < 65536" "p ! 0 = (if leaf then TypeLeaf else TypeInternal)"
    "u16_at p 1 = length ocs" "u16_at p 3 = c" "ptr_off (length ocs) \<le> c" "c \<le> length p"
    "ptrs p (length ocs) = map fst ocs" "13 \<le> length p"
    "x \<in> set ocs \<Longrightarrow> c \<le> fst x" "x \<in> set ocs \<Longrightarrow> cell_at enc leaf p x"
    "sorted_wrt (apart enc leaf) ocs"
  using assms by (auto simp: page_rep_def)

lemma page_rep_ptr:
  assumes "page_rep enc leaf p ocs c" "i < length ocs"
  shows "CellPtr p i = Some (fst (ocs ! i))" "u16_at p (ptr_off i) = fst (ocs ! i)"
proof -
  note R = page_repD[OF assms(1)]
  have "ptrs p (length ocs) ! i = map fst ocs ! i" using R(7) by simp
  then show "u16_at p (ptr_off i) = fst (ocs ! i)" using assms(2) by simp
  moreover have "ptr_off i + 2 \<le> length p" using assms(2) R(5,6) by simp
  ultimately show "CellPtr p i = Some (fst (ocs ! i))" by (simp add: page_defs)
qed

text \<open>A byte sequence laid below the cells does not touch them.\<close>

lemma cell_at_upd_below:
  "cell_at enc leaf p x \<Longrightarrow> off + length bs \<le> fst x \<Longrightarrow> cell_at enc leaf (upd p off bs) x"
  by (auto simp: cell_at_def slice_simps)

lemma cell_at_same:
  "cell_at enc leaf p x \<Longrightarrow> length p' = length p \<Longrightarrow>
   sl p' (fst x) (length (enc leaf (snd x))) = sl p (fst x) (length (enc leaf (snd x))) \<Longrightarrow>
   cell_at enc leaf p' x"
  by (simp add: cell_at_def)

lemma nth_upd_0: "0 < off \<Longrightarrow> off + length bs \<le> length p \<Longrightarrow> upd p off bs ! 0 = p ! 0"
  by (cases "length p = 0") (auto simp: nth_upd)

lemma header_upd [slice_simps]:
  assumes "13 \<le> length p" "0 < off" "off + length bs \<le> length p"
  shows "length (upd p off bs) = length p" "upd p off bs ! 0 = p ! 0"
  using assms by (simp_all add: nth_upd_0)

section \<open>The empty page\<close>

lemma InitPage_rep:
  assumes "13 \<le> length p" "length p < 65536"
  obtains q where "InitPage p (if leaf then TypeLeaf else TypeInternal) = Some q"
    "length q = length p" "page_rep enc leaf q [] (length p)" "u32_at q 5 = 0"
    "u32_at q 9 = InvalidPage"
proof -
  let ?t = "if leaf then TypeLeaf else TypeInternal"
  let ?p0 = "replicate (length p) (0::byte)"
  let ?p1 = "upd ?p0 0 [?t]"
  let ?p2 = "upd ?p1 1 (le_put 2 0)"
  let ?p3 = "upd ?p2 3 (le_put 2 (length p))"
  let ?q = "upd ?p3 9 (le_put 4 InvalidPage)"
  have u0: "u16 0 = 0" by (simp add: u16_def)
  have w0: "wr ?p0 0 [?t] = Some ?p1" using assms(1) by (simp add: wr_def)
  have l: "length ?p1 = length p" "length ?p2 = length p" "length ?p3 = length p"
    "length ?q = length p"
    using assms(1) by simp_all
  have ini: "InitPage p ?t = Some ?q"
    unfolding InitPage_def Let_def w0 bind.bind_lunit
    using assms l by (simp add: page_defs u0)
  have "u32_at ?q 5 = u32_at ?p0 5"
    using assms(1) by (simp add: slice_simps)
  also have "\<dots> = 0"
    using assms(1) by (simp add: u32_at_def sl_def numeral_eq_Suc)
  finally have z: "u32_at ?q 5 = 0" .
  have t: "?q ! 0 = ?t"
  proof -
    have "0 < length p" using assms(1) by linarith
    then have "?p1 ! 0 = ?t" using nth_upd[of 0 "[?t]" ?p0 0] by (simp del: length_greater_0_conv)
    then show ?thesis using assms(1) by (simp add: slice_simps)
  qed
  show thesis
    by (rule that[OF ini l(4) _ z])
      (use assms l t in \<open>auto simp: page_rep_def slice_simps ptrs_def\<close>)
qed

end
