(* ===== verification/Engine.thy ===== *)
theory Engine
  imports Pager Btpage
begin

text \<open>
  The shared B-tree engine (src/dbms/index/shared/tree.go), generic in a node accessor.
  Go's interface NodeAccessor is the record \<open>node_accessor\<close> of its methods, passed to every
  engine function in place of the receiver's field Acc. A page argument of a Go function
  that the function writes through is the address of its buffer; a page argument that is
  only read, or whose new content is returned, is the byte list itself.

  The result (key, value, page id, split, error) of insertRec, doInsert and splitNode is
  \<open>Inl e\<close> for an error, \<open>Inr None\<close> for no split and \<open>Inr (Some (key, value, id))\<close> for a
  split: the code never returns an error together with a split.
\<close>

record node_accessor =
  CellSize :: "bool \<Rightarrow> gobytes \<Rightarrow> nat"
  ReadCell :: "page \<Rightarrow> nat \<Rightarrow> bool \<Rightarrow> cell option"
  WriteCell :: "page \<Rightarrow> int \<Rightarrow> key \<Rightarrow> gobytes \<Rightarrow> page_id \<Rightarrow> bool \<Rightarrow> page option"
  OverwriteValue :: "page \<Rightarrow> nat \<Rightarrow> gobytes \<Rightarrow> bool \<Rightarrow> page option"
  CopyUpLeaves :: bool
  LinkLeaves :: "page \<Rightarrow> page \<Rightarrow> page_id \<Rightarrow> page_id \<Rightarrow> (page \<times> page) option"

record tree =
  Pg :: pager
  RootID :: page_id

section \<open>Helpers\<close>

definition isLeaf :: "page \<Rightarrow> bool option" where
  "isLeaf p = do { t \<leftarrow> page_type p; Some (t = TypeLeaf) }"

definition Tree_readCell :: "node_accessor \<Rightarrow> page \<Rightarrow> nat \<Rightarrow> cell option" where
  "Tree_readCell acc p i = do { leaf \<leftarrow> isLeaf p; ReadCell acc p i leaf }"

definition Tree_cellSize :: "node_accessor \<Rightarrow> page \<Rightarrow> gobytes \<Rightarrow> nat option" where
  "Tree_cellSize acc p value = do { leaf \<leftarrow> isLeaf p; Some (CellSize acc leaf value) }"

definition AppendCell ::
  "node_accessor \<Rightarrow> page \<Rightarrow> key \<Rightarrow> gobytes \<Rightarrow> page_id \<Rightarrow> page option" where
  "AppendCell acc p key val leftChild = do {
     n \<leftarrow> NumCells p;
     leaf \<leftarrow> isLeaf p;
     (off, p1) \<leftarrow> AllocCell p (CellSize acc leaf val);
     leaf1 \<leftarrow> isLeaf p1;
     p2 \<leftarrow> WriteCell acc p1 off key val leftChild leaf1;
     p3 \<leftarrow> SetCellPtr p2 n (u16 off);
     SetNumCells p3 (int n + 1)
   }"

function delete_shift :: "page \<Rightarrow> nat \<Rightarrow> nat \<Rightarrow> page option" where
  "delete_shift p j n =
     (if j + 1 < n then do {
        c \<leftarrow> CellPtr p (j + 1);
        p1 \<leftarrow> SetCellPtr p j c;
        delete_shift p1 (j + 1) n
      } else Some p)"
  by pat_completeness auto
termination by (relation "measure (\<lambda>(p, j, n). n - j)") auto

definition DeleteCell :: "page \<Rightarrow> nat \<Rightarrow> page option" where
  "DeleteCell p i = do {
     n \<leftarrow> NumCells p;
     p1 \<leftarrow> delete_shift p i n;
     SetNumCells p1 (int n - 1)
   }"

definition ChildAt :: "node_accessor \<Rightarrow> page \<Rightarrow> nat \<Rightarrow> nat \<Rightarrow> page_id option" where
  "ChildAt acc p idx n =
     (if idx = n then Rightmost p else do { (_, _, lc) \<leftarrow> ReadCell acc p idx False; Some lc })"

function find_loop ::
  "node_accessor \<Rightarrow> page \<Rightarrow> key \<Rightarrow> bool \<Rightarrow> nat \<Rightarrow> nat \<Rightarrow> nat option" where
  "find_loop acc p key leaf lo hi =
     (if lo < hi then do {
        let m = (lo + hi) div 2;
        (k, _, _) \<leftarrow> ReadCell acc p m leaf;
        if sint k < sint key \<or> (\<not> leaf \<and> k = key \<and> CopyUpLeaves acc)
        then find_loop acc p key leaf (m + 1) hi
        else find_loop acc p key leaf lo m
      } else Some lo)"
  by pat_completeness auto
termination by (relation "measure (\<lambda>(acc, p, key, leaf, lo, hi). hi - lo)") auto

declare delete_shift.simps [simp del] find_loop.simps [simp del]

definition FindIdx :: "node_accessor \<Rightarrow> page \<Rightarrow> key \<Rightarrow> nat \<Rightarrow> bool \<Rightarrow> nat option" where
  "FindIdx acc p key n leaf = find_loop acc p key leaf 0 n"

section \<open>Lookup\<close>

partial_function (option) get_loop ::
  "node_accessor \<Rightarrow> key \<Rightarrow> page_id \<Rightarrow> pager \<Rightarrow> ((go_error + gobytes) \<times> pager) option" where
  "get_loop acc key cur s =
     (case Read cur s of
        (Inl e, s1) \<Rightarrow> Some (Inl e, s1)
      | (Inr a, s1) \<Rightarrow> do {
          let p = bufs s1 a;
          n \<leftarrow> NumCells p;
          leaf \<leftarrow> isLeaf p;
          idx \<leftarrow> FindIdx acc p key n leaf;
          hit \<leftarrow> (if idx < n then do {
                    (k, val, _) \<leftarrow> ReadCell acc p idx leaf;
                    Some (if k = key \<and> val \<noteq> None then val else None)
                  } else Some None);
          if hit \<noteq> None then Some (Inr hit, s1)
          else if leaf then Some (Inr None, s1)
          else do {
            child \<leftarrow> ChildAt acc p idx n;
            get_loop acc key child s1
          }
        })"

definition Tree_Get ::
  "node_accessor \<Rightarrow> key \<Rightarrow> tree \<Rightarrow> ((go_error + gobytes) \<times> tree) option" where
  "Tree_Get acc key t = do {
     (r, s) \<leftarrow> get_loop acc key (RootID t) (Pg t);
     Some (r, t\<lparr>Pg := s\<rparr>)
   }"

partial_function (option) find_leaf_loop ::
  "node_accessor \<Rightarrow> key \<Rightarrow> page_id \<Rightarrow> pager \<Rightarrow> ((go_error + page_id) \<times> pager) option" where
  "find_leaf_loop acc key cur s =
     (case Read cur s of
        (Inl e, s1) \<Rightarrow> Some (Inl e, s1)
      | (Inr a, s1) \<Rightarrow> do {
          let p = bufs s1 a;
          leaf \<leftarrow> isLeaf p;
          if leaf then Some (Inr cur, s1)
          else do {
            n \<leftarrow> NumCells p;
            idx \<leftarrow> FindIdx acc p key n False;
            child \<leftarrow> ChildAt acc p idx n;
            find_leaf_loop acc key child s1
          }
        })"

definition FindLeaf ::
  "node_accessor \<Rightarrow> key \<Rightarrow> tree \<Rightarrow> ((go_error + page_id) \<times> tree) option" where
  "FindLeaf acc key t = do {
     (r, s) \<leftarrow> find_leaf_loop acc key (RootID t) (Pg t);
     Some (r, t\<lparr>Pg := s\<rparr>)
   }"

section \<open>Insertion\<close>

type_synonym split_result = "go_error + (key \<times> gobytes \<times> page_id) option"

text \<open>The error of a Go call whose result is ignored, and of one that is returned.\<close>

definition returned :: "(go_error + unit) \<times> pager \<Rightarrow> split_result \<times> pager" where
  "returned r = (case r of (Inl e, s) \<Rightarrow> (Inl e, s) | (Inr _, s) \<Rightarrow> (Inr None, s))"

definition ignored_id :: "go_error + page_id \<Rightarrow> page_id" where
  "ignored_id r = (case r of Inl _ \<Rightarrow> 0 | Inr i \<Rightarrow> i)"

fun append_cells :: "node_accessor \<Rightarrow> cell list \<Rightarrow> page \<Rightarrow> page option" where
  "append_cells acc [] p = Some p"
| "append_cells acc ((k, v, lc) # cs) p = do {
     p1 \<leftarrow> AppendCell acc p k v lc;
     append_cells acc cs p1
   }"

definition splitNode ::
  "node_accessor \<Rightarrow> page_id \<Rightarrow> nat \<Rightarrow> nat \<Rightarrow> nat \<Rightarrow> key \<Rightarrow> gobytes \<Rightarrow> page_id \<Rightarrow> pager \<Rightarrow>
     (split_result \<times> pager) option" where
  "splitNode acc i a n idx key val rightChild s = do {
     let p = bufs s a;
     leaf \<leftarrow> isLeaf p;
     pageType \<leftarrow> page_type p;
     cells \<leftarrow> mapM (\<lambda>j. ReadCell acc p j leaf) [0..<n];
     insertLC \<leftarrow> (if leaf then Some 0 else ChildAt acc p idx n);
     let all0 = take idx cells @ (key, val, insertLC) # drop idx cells;
     rm \<leftarrow> Rightmost p;
     oldNext \<leftarrow> NextLeaf p;
     let oldRightmost = (if \<not> leaf \<and> idx = n then u32 rightChild else rm);
     let all = (if \<not> leaf \<and> idx \<noteq> n
                then all0[idx + 1 := (case all0 ! (idx + 1) of (k, v, _) \<Rightarrow> (k, v, u32 rightChild))]
                else all0);
     let mid = (n + 1) div 2;
     let promoted = all ! mid;
     (let (r1, s1) = Allocate s;
          newID = ignored_id r1
      in case Read newID s1 of
        (Inl _, _) \<Rightarrow> None
      | (Inr b, s2) \<Rightarrow> do {
          left0 \<leftarrow> InitPage p pageType;
          right0 \<leftarrow> InitPage (bufs s2 b) pageType;
          left1 \<leftarrow> append_cells acc (take mid all) left0;
          (left2, right2) \<leftarrow>
            (if leaf then do {
               let start = (if CopyUpLeaves acc then mid else mid + 1);
               right1 \<leftarrow> append_cells acc (drop start all) right0;
               LinkLeaves acc left1 right1 (u32 newID) oldNext
             } else do {
               left2 \<leftarrow> SetRightmost left1 (snd (snd promoted));
               right1 \<leftarrow> append_cells acc (drop (mid + 1) all) right0;
               right2 \<leftarrow> SetRightmost right1 oldRightmost;
               Some (left2, right2)
             });
          let s3 = snd (Write i a (poke b right2 (poke a left2 s2)));
          let s4 = snd (Write newID b s3);
          let promotedVal = (if leaf \<and> CopyUpLeaves acc then None else fst (snd promoted));
          Some (Inr (Some (fst promoted, promotedVal, newID)), s4)
        })
   }"

function insert_shift :: "page \<Rightarrow> nat \<Rightarrow> nat \<Rightarrow> page option" where
  "insert_shift p j idx =
     (if idx < j then do {
        c \<leftarrow> CellPtr p (j - 1);
        p1 \<leftarrow> SetCellPtr p j c;
        insert_shift p1 (j - 1) idx
      } else Some p)"
  by pat_completeness auto
termination by (relation "measure (\<lambda>(p, j, idx). j)") auto

declare insert_shift.simps [simp del]

text \<open>The part of doInsert that works on the bytes of the page alone.\<close>

definition insert_cell ::
  "node_accessor \<Rightarrow> page \<Rightarrow> nat \<Rightarrow> nat \<Rightarrow> key \<Rightarrow> gobytes \<Rightarrow> page_id \<Rightarrow> page option" where
  "insert_cell acc p n idx key val rightChild = do {
     leaf \<leftarrow> isLeaf p;
     p1 \<leftarrow> insert_shift p n idx;
     leftChild \<leftarrow> (if leaf then Some 0 else ChildAt acc p1 idx n);
     (off, p2) \<leftarrow> AllocCell p1 (CellSize acc leaf val);
     p3 \<leftarrow> WriteCell acc p2 off key val leftChild leaf;
     p4 \<leftarrow> SetCellPtr p3 idx (u16 off);
     p5 \<leftarrow> (if idx = n then SetRightmost p4 (u32 rightChild)
           else if \<not> leaf then do {
             off1 \<leftarrow> CellPtr p4 (idx + 1);
             wr p4 (int off1) (le_put 4 (u32 rightChild))
           } else Some p4);
     SetNumCells p5 (int n + 1)
   }"

definition doInsert ::
  "node_accessor \<Rightarrow> page_id \<Rightarrow> nat \<Rightarrow> nat \<Rightarrow> nat \<Rightarrow> key \<Rightarrow> gobytes \<Rightarrow> page_id \<Rightarrow> pager \<Rightarrow>
     (split_result \<times> pager) option" where
  "doInsert acc i a n idx key val rightChild s = do {
     let p = bufs s a;
     leaf \<leftarrow> isLeaf p;
     free \<leftarrow> FreeSpace p n;
     if free \<ge> int (CellSize acc leaf val) then do {
       p1 \<leftarrow> insert_cell acc p n idx key val rightChild;
       Some (returned (Write i a (poke a p1 s)))
     } else splitNode acc i a n idx key val rightChild s
   }"

partial_function (option) insertRec ::
  "node_accessor \<Rightarrow> page_id \<Rightarrow> key \<Rightarrow> gobytes \<Rightarrow> pager \<Rightarrow> (split_result \<times> pager) option" where
  "insertRec acc i key val s =
     (case Read i s of
        (Inl e, s1) \<Rightarrow> Some (Inl e, s1)
      | (Inr a, s1) \<Rightarrow> do {
          let p = bufs s1 a;
          n \<leftarrow> NumCells p;
          leaf \<leftarrow> isLeaf p;
          idx \<leftarrow> FindIdx acc p key n leaf;
          oldVal \<leftarrow> (if idx < n then do {
                       (k, v, _) \<leftarrow> ReadCell acc p idx leaf;
                       Some (if k = key then Some v else None)
                     } else Some None);
          if oldVal \<noteq> None \<and> glen val \<le> glen (the oldVal) then do {
            p1 \<leftarrow> OverwriteValue acc p idx val leaf;
            Some (returned (Write i a (poke a p1 s1)))
          } else do {
            p1 \<leftarrow> (if oldVal \<noteq> None then DeleteCell p idx else Some p);
            let n1 = (if oldVal \<noteq> None then n - 1 else n);
            let s2 = poke a p1 s1;
            if leaf then doInsert acc i a n1 idx key val 0 s2
            else do {
              childID \<leftarrow> ChildAt acc p1 idx n1;
              (r, s3) \<leftarrow> insertRec acc childID key val s2;
              (case r of
                 Inl e \<Rightarrow> Some (Inl e, s3)
               | Inr None \<Rightarrow> Some (Inr None, s3)
               | Inr (Some (mk, mv, rc)) \<Rightarrow>
                   (case Read i s3 of
                      (Inl e, s4) \<Rightarrow> Some (Inl e, s4)
                    | (Inr b, s4) \<Rightarrow> do {
                        let q = bufs s4 b;
                        n2 \<leftarrow> NumCells q;
                        idx2 \<leftarrow> FindIdx acc q mk n2 False;
                        doInsert acc i b n2 idx2 mk mv rc s4
                      }))
            }
          }
        })"

section \<open>The file header page\<close>

definition WriteHeader :: "tree \<Rightarrow> ((go_error + unit) \<times> tree) option" where
  "WriteHeader t =
     (case Read 1 (Pg t) of
        (Inl e, s) \<Rightarrow> Some (Inl e, t\<lparr>Pg := s\<rparr>)
      | (Inr a, s) \<Rightarrow> do {
          p \<leftarrow> wr (bufs s a) 0 (le_put 4 (RootID t));
          let (r, s1) = Write 1 a (poke a p s);
          Some (r, t\<lparr>Pg := s1\<rparr>)
        })"

definition ReadHeader :: "tree \<Rightarrow> ((go_error + unit) \<times> tree) option" where
  "ReadHeader t =
     (case Read 1 (Pg t) of
        (Inl e, s) \<Rightarrow> Some (Inl e, t\<lparr>Pg := s\<rparr>)
      | (Inr a, s) \<Rightarrow> do {
          b \<leftarrow> rd (bufs s a) 0 4;
          Some (Inr (), t\<lparr>Pg := s, RootID := le_get b\<rparr>)
        })"

definition Tree_Insert ::
  "node_accessor \<Rightarrow> key \<Rightarrow> gobytes \<Rightarrow> tree \<Rightarrow> ((go_error + unit) \<times> tree) option" where
  "Tree_Insert acc key val t = do {
     (r, s) \<leftarrow> insertRec acc (RootID t) key val (Pg t);
     (case r of
        Inl e \<Rightarrow> Some (Inl e, t\<lparr>Pg := s\<rparr>)
      | Inr None \<Rightarrow> Some (Inr (), t\<lparr>Pg := s\<rparr>)
      | Inr (Some (mk, mv, rightID)) \<Rightarrow>
          (let (r1, s1) = Allocate s;
               newRoot = ignored_id r1
           in case Read newRoot s1 of
             (Inl _, _) \<Rightarrow> None
           | (Inr a, s2) \<Rightarrow> do {
               p1 \<leftarrow> InitPage (bufs s2 a) TypeInternal;
               p2 \<leftarrow> SetRightmost p1 (u32 rightID);
               p3 \<leftarrow> AppendCell acc p2 mk mv (RootID t);
               let s3 = snd (Write newRoot a (poke a p3 s2));
               WriteHeader \<lparr>Pg = s3, RootID = u32 newRoot\<rparr>
             }))
   }"

section \<open>Shape of the tree\<close>

partial_function (option) height_loop ::
  "page_id \<Rightarrow> nat \<Rightarrow> pager \<Rightarrow> (nat \<times> pager) option" where
  "height_loop cur h s =
     (case Read cur s of
        (Inl _, _) \<Rightarrow> None
      | (Inr a, s1) \<Rightarrow> do {
          t \<leftarrow> page_type (bufs s1 a);
          if t = TypeLeaf then Some (h, s1)
          else do {
            child \<leftarrow> Rightmost (bufs s1 a);
            height_loop child (h + 1) s1
          }
        })"

definition Height :: "tree \<Rightarrow> (nat \<times> tree) option" where
  "Height t = do { (h, s) \<leftarrow> height_loop (RootID t) 1 (Pg t); Some (h, t\<lparr>Pg := s\<rparr>) }"

partial_function (option) countLeavesRec ::
  "node_accessor \<Rightarrow> page_id \<Rightarrow> pager \<Rightarrow> (nat \<times> pager) option" where
  "countLeavesRec acc i s =
     (case Read i s of
        (Inl _, s1) \<Rightarrow> Some (0, s1)
      | (Inr a, s1) \<Rightarrow> do {
          leaf \<leftarrow> isLeaf (bufs s1 a);
          if leaf then Some (1, s1)
          else do {
            n \<leftarrow> NumCells (bufs s1 a);
            (count, s2) \<leftarrow> foldM (\<lambda>j (count, s'). do {
                (_, _, lc) \<leftarrow> ReadCell acc (bufs s' a) j False;
                (c, s'') \<leftarrow> countLeavesRec acc lc s';
                Some (count + c, s'')
              }) [0..<n] (0, s1);
            rm \<leftarrow> Rightmost (bufs s2 a);
            (c, s3) \<leftarrow> countLeavesRec acc rm s2;
            Some (count + c, s3)
          }
        })"

definition CountLeaves :: "node_accessor \<Rightarrow> tree \<Rightarrow> (nat \<times> tree) option" where
  "CountLeaves acc t = do {
     (c, s) \<leftarrow> countLeavesRec acc (RootID t) (Pg t);
     Some (c, t\<lparr>Pg := s\<rparr>)
   }"

definition Tree_SetSyncInterval :: "int \<Rightarrow> tree \<Rightarrow> tree" where
  "Tree_SetSyncInterval n t = t\<lparr>Pg := SetSyncInterval n (Pg t)\<rparr>"

section \<open>Opening and closing a tree file\<close>

text \<open>
  btree.Open and bptree.Open differ only in the suffix of the file name and the accessor
  they store, which Open does not use; \<open>open_tree\<close> is their common body. The argument is the
  content of the file at that path.
\<close>

definition open_tree ::
  "os_file \<Rightarrow> int \<Rightarrow> nat \<Rightarrow> (go_error \<times> os_file + tree) option" where
  "open_tree f cachePages pageSize = do {
     r \<leftarrow> open_pager f cachePages pageSize;
     (case r of
        Inl e \<Rightarrow> Some (Inl e)
      | Inr pg \<Rightarrow>
          if PageCount pg \<le> 2 then
            (let s1 = snd (Allocate pg);
                 (r2, s2) = Allocate s1;
                 rootID = ignored_id r2;
                 (a, s3) = new_buf (replicate pageSize 0) s2
             in do {
               p \<leftarrow> InitPage (bufs s3 a) TypeLeaf;
               let s4 = snd (Write rootID a (poke a p s3));
               (_, t) \<leftarrow> WriteHeader \<lparr>Pg = s4, RootID = u32 rootID\<rparr>;
               Some (Inr t)
             })
          else do {
            (_, t) \<leftarrow> ReadHeader \<lparr>Pg = pg, RootID = 0\<rparr>;
            Some (Inr t)
          })
   }"

definition close_tree :: "tree \<Rightarrow> ((go_error + unit) \<times> tree) option" where
  "close_tree t = do {
     (_, t1) \<leftarrow> WriteHeader t;
     (r, s) \<leftarrow> close_pager (Pg t1);
     Some (r, t1\<lparr>Pg := s\<rparr>)
   }"

declare get_loop.simps [code]
  and find_leaf_loop.simps [code]
  and insertRec.simps [code]
  and height_loop.simps [code]
  and countLeavesRec.simps [code]

end
