(* ===== verification/NodeOps.thy ===== *)
theory NodeOps
  imports Engine
begin

text \<open>
  What the engine's page operations do to a well-formed page, for any node accessor that
  keeps the contract \<open>cell_codec\<close>: it reads back what it writes, writes only inside the cell
  it was given, and overwrites a value in place without moving the cell.
\<close>

section \<open>Page-level lemmas\<close>

lemma ptrs_eqI:
  "length os = n \<Longrightarrow> (\<And>i. i < n \<Longrightarrow> u16_at p (ptr_off i) = os ! i) \<Longrightarrow> ptrs p n = os"
  by (auto intro: nth_equalityI)

lemma page_rep_nth_ptr:
  "page_rep enc leaf p ocs c \<Longrightarrow> i < length ocs \<Longrightarrow> u16_at p (ptr_off i) = map fst ocs ! i"
  using page_rep_ptr(2) by simp

lemma sorted_wrt_sym_insert:
  assumes "\<And>a b. R a b = R b a"
  shows "sorted_wrt R (xs @ x # ys) \<longleftrightarrow> sorted_wrt R (xs @ ys) \<and> (\<forall>y \<in> set xs \<union> set ys. R x y)"
  using assms by (auto simp: sorted_wrt_append)

lemmas apart_insert = sorted_wrt_sym_insert[of "apart enc leaf" for enc leaf, OF apart_sym]

text \<open>Rewriting one cell in place, without growing it.\<close>

lemma page_rep_update:
  assumes rep: "page_rep enc leaf p ocs c" and i: "i < length ocs" and o1: "ocs ! i = (off, x)"
    and le: "length bs \<le> length (enc leaf x)" "length (enc leaf x') \<le> length (enc leaf x)"
    and new: "sl (upd p off bs) off (length (enc leaf x')) = enc leaf x'"
  shows "page_rep enc leaf (upd p off bs) (ocs[i := (off, x')]) c"
    and "u32_at (upd p off bs) 5 = u32_at p 5" "u32_at (upd p off bs) 9 = u32_at p 9"
    and "length (upd p off bs) = length p"
proof -
  note R = page_repD[OF rep]
  have x: "(off, x) \<in> set ocs" using i o1 nth_mem by metis
  have c: "c \<le> off" and fit: "off + length (enc leaf x) \<le> length p"
    using R(9,10)[OF x] by (auto simp: cell_at_def)
  have fit': "off + length bs \<le> length p" using fit le by simp
  have lo: "ptr_off (length ocs) \<le> off" using c R(5) by simp
  have ap: "sorted_wrt (apart enc leaf) (ocs[i := (off, x')])"
    "\<forall>y \<in> set (ocs[i := (off, x')]). c \<le> fst y \<and> cell_at enc leaf (upd p off bs) y"
  proof -
    have split: "ocs = take i ocs @ (off, x) # drop (Suc i) ocs"
      using id_take_nth_drop[OF i] o1 by simp
    have upd: "ocs[i := (off, x')] = take i ocs @ (off, x') # drop (Suc i) ocs"
      using i by (simp add: upd_conv_take_nth_drop)
    have s: "sorted_wrt (apart enc leaf) (take i ocs @ (off, x) # drop (Suc i) ocs)"
      using R(11) split by simp
    have ne: "apart enc leaf (off, x) y" if "y \<in> set (take i ocs) \<union> set (drop (Suc i) ocs)" for y
      using s that by (simp add: apart_insert)
    have ap': "apart enc leaf (off, x') y" if "apart enc leaf (off, x) y" for y
      using that le by (auto simp: apart_def)
    then show "sorted_wrt (apart enc leaf) (ocs[i := (off, x')])"
      using s ne ap' unfolding upd apart_insert by blast
    show "\<forall>y \<in> set (ocs[i := (off, x')]). c \<le> fst y \<and> cell_at enc leaf (upd p off bs) y"
    proof
      fix y assume "y \<in> set (ocs[i := (off, x')])"
      then consider "y = (off, x')" | "y \<in> set (take i ocs) \<union> set (drop (Suc i) ocs)"
        unfolding upd by auto
      then show "c \<le> fst y \<and> cell_at enc leaf (upd p off bs) y"
      proof cases
        case 1
        then show ?thesis using c fit fit' le new by (simp add: cell_at_def)
      next
        case 2
        then have y: "y \<in> set ocs" by (auto dest: in_set_takeD in_set_dropD)
        have "fst y + length (enc leaf (snd y)) \<le> off \<or> off + length bs \<le> fst y"
          using ne[OF 2] le by (auto simp: apart_def)
        then show ?thesis
          using R(9,10)[OF y] fit' by (auto simp: cell_at_def slice_simps)
      qed
    qed
  qed
  have "ptrs (upd p off bs) (length ocs) = map fst ocs"
    by (rule ptrs_eqI) (use page_rep_nth_ptr[OF rep] lo fit' in \<open>auto simp: slice_simps\<close>)
  moreover have "map fst (ocs[i := (off, x')]) = map fst ocs"
    using o1 i by (metis fst_conv list_update_id map_update nth_map)
  ultimately show "page_rep enc leaf (upd p off bs) (ocs[i := (off, x')]) c"
    unfolding page_rep_def using R(1-8) ap lo fit' by (auto simp: slice_simps)
  show "u32_at (upd p off bs) 5 = u32_at p 5" "u32_at (upd p off bs) 9 = u32_at p 9"
    "length (upd p off bs) = length p"
    using lo fit' by (auto simp: slice_simps)
qed

text \<open>The shift of the pointer array in front of an insertion.\<close>

lemma insert_shift_spec:
  "idx \<le> j \<Longrightarrow> ptr_off (Suc j) \<le> length p \<Longrightarrow>
   \<exists>q. insert_shift p j idx = Some q \<and> length q = length p \<and>
     (\<forall>off k. off + k \<le> ptr_off (Suc idx) \<or> ptr_off (Suc j) \<le> off \<longrightarrow> sl q off k = sl p off k) \<and>
     (\<forall>i. idx < i \<and> i \<le> j \<longrightarrow> u16_at q (ptr_off i) = u16_at p (ptr_off (i - 1)))"
proof (induction p j idx rule: insert_shift.induct)
  case (1 p j idx)
  show ?case
  proof (cases "idx < j")
    case False
    then have "insert_shift p j idx = Some p" by (simp add: insert_shift.simps[of p j idx])
    with False show ?thesis by (intro exI[of _ p]) auto
  next
    case True
    let ?p1 = "upd p (ptr_off j) (le_put 2 (u16_at p (ptr_off (j - 1))))"
    have c: "CellPtr p (j - 1) = Some (u16_at p (ptr_off (j - 1)))"
      and w: "SetCellPtr p j (u16_at p (ptr_off (j - 1))) = Some ?p1"
      using "1.prems" True by (simp_all add: page_defs)
    have l: "length ?p1 = length p" using "1.prems" by simp
    have pre: "idx \<le> j - 1" "ptr_off (Suc (j - 1)) \<le> length ?p1" using True "1.prems" l by simp_all
    obtain q where q: "insert_shift ?p1 (j - 1) idx = Some q" "length q = length p"
      "\<forall>off k. off + k \<le> ptr_off (Suc idx) \<or> ptr_off j \<le> off \<longrightarrow> sl q off k = sl ?p1 off k"
      "\<forall>i. idx < i \<and> i \<le> j - 1 \<longrightarrow> u16_at q (ptr_off i) = u16_at ?p1 (ptr_off (i - 1))"
      using "1.IH"[OF True c w pre] True l by auto
    have "insert_shift p j idx = Some q"
      using True c w q(1) by (simp add: insert_shift.simps[of p j idx])
    moreover have "sl q off k = sl p off k"
      if "off + k \<le> ptr_off (Suc idx) \<or> ptr_off (Suc j) \<le> off" for off k
    proof -
      have "sl q off k = sl ?p1 off k" using q(3) that by auto
      also have "\<dots> = sl p off k"
        using that True "1.prems" by (auto intro: sl_upd_before sl_upd_after)
      finally show ?thesis .
    qed
    moreover have "u16_at q (ptr_off i) = u16_at p (ptr_off (i - 1))" if "idx < i" "i \<le> j" for i
    proof (cases "i = j")
      case True
      have "u16_at q (ptr_off j) = u16_at ?p1 (ptr_off j)" using q(3) by (simp add: u16_at_def)
      also have "\<dots> = u16_at p (ptr_off (j - 1))"
        using "1.prems" u16_at_less[of "ptr_off (j - 1)" p] by (simp add: slice_simps)
      finally show ?thesis using True by simp
    next
      case False
      then have "u16_at q (ptr_off i) = u16_at ?p1 (ptr_off (i - 1))" using q(4) that by simp
      also have "\<dots> = u16_at p (ptr_off (i - 1))"
        using False that "1.prems" by (auto intro: u16_at_other)
      finally show ?thesis .
    qed
    ultimately show ?thesis using q(2) by blast
  qed
qed

text \<open>
  The core of both AppendCell and doInsert: once the pointer array has a gap at \<open>idx\<close>, a new
  cell is laid below the others and its pointer and the count are set.
\<close>

lemma page_rep_add:
  assumes rep: "page_rep enc leaf p ocs c" and idx: "idx \<le> length ocs"
    and fit: "ptr_off (Suc (length ocs)) + length (enc leaf x) \<le> c"
    and q: "length q = length p"
    and hd: "sl q 0 13 = sl p 0 13"
    and cells: "\<forall>off k. ptr_off (Suc (length ocs)) \<le> off \<longrightarrow> sl q off k = sl p off k"
    and lo: "\<forall>i < idx. u16_at q (ptr_off i) = u16_at p (ptr_off i)"
    and hi: "\<forall>i. idx < i \<and> i \<le> length ocs \<longrightarrow> u16_at q (ptr_off i) = u16_at p (ptr_off (i - 1))"
  defines "off \<equiv> c - length (enc leaf x)"
  defines "r \<equiv> upd (upd (upd (upd q 3 (le_put 2 off)) off (enc leaf x))
                (ptr_off idx) (le_put 2 off)) 1 (le_put 2 (Suc (length ocs)))"
  shows "page_rep enc leaf r (take idx ocs @ (off, x) # drop idx ocs) off"
    "length r = length p" "u32_at r 5 = u32_at p 5" "u32_at r 9 = u32_at p 9"
proof -
  note R = page_repD[OF rep]
  let ?n = "length ocs"
  let ?q1 = "upd q 3 (le_put 2 off)"
  let ?q2 = "upd ?q1 off (enc leaf x)"
  let ?q3 = "upd ?q2 (ptr_off idx) (le_put 2 off)"
  have off: "ptr_off (Suc ?n) \<le> off" "off + length (enc leaf x) = c" "off < 65536"
    "off + length (enc leaf x) \<le> length p"
    using fit R(1,6) by (simp_all add: off_def)
  have l: "length ?q1 = length p" "length ?q2 = length p" "length ?q3 = length p"
    "length r = length p"
    using q off idx unfolding r_def by simp_all
  then show "length r = length p" by simp
  have hdr: "sl q a b = sl p a b" if "a + b \<le> 13" for a b
    using hd that sl_sub[of a b 13 q 0] sl_sub[of a b 13 p 0] by simp
  show "u32_at r 5 = u32_at p 5" "u32_at r 9 = u32_at p 9"
    unfolding r_def using q off idx l hdr[of 5 4] hdr[of 9 4]
    by (simp_all add: slice_simps) (simp_all add: u32_at_def)
  have t: "r ! 0 = p ! 0"
  proof -
    have "p \<noteq> []" "q \<noteq> []" using R(8) q by auto
    then have "q ! 0 = p ! 0"
      using hdr[of 0 1] by (cases p; cases q) (simp_all add: sl_def)
    then show ?thesis unfolding r_def using q off idx R(8) l by (simp add: slice_simps)
  qed
  have n: "u16_at r 1 = Suc ?n"
    unfolding r_def using l off R(8) by (simp add: slice_simps)
  have c: "u16_at r 3 = off"
    unfolding r_def using q off idx l R(8) by (simp add: slice_simps)
  have ptr: "ptrs r (Suc ?n) = map fst (take idx ocs @ (off, x) # drop idx ocs)"
  proof (rule ptrs_eqI)
    fix i assume i: "i < Suc ?n"
    show "u16_at r (ptr_off i) = map fst (take idx ocs @ (off, x) # drop idx ocs) ! i"
    proof (cases "i = idx")
      case True
      then show ?thesis
        unfolding r_def using idx off l by (simp add: slice_simps nth_append)
    next
      case False
      have "u16_at r (ptr_off i) = u16_at q (ptr_off i)"
        unfolding r_def using False q idx off l i
        by (cases "i < idx") (simp_all add: slice_simps)
      also have "\<dots> = (if i < idx then fst (ocs ! i) else fst (ocs ! (i - 1)))"
        using lo hi False i page_rep_nth_ptr[OF rep] idx by auto
      also have "\<dots> = map fst (take idx ocs @ (off, x) # drop idx ocs) ! i"
        using False i idx by (auto simp: nth_append nth_Cons' min_def)
      finally show ?thesis .
    qed
  qed (use idx in simp)
  have new: "cell_at enc leaf r (off, x)"
    unfolding cell_at_def r_def using q idx off l R(8) by (simp add: slice_simps)
  have old: "cell_at enc leaf r y" if y: "y \<in> set ocs" for y
  proof -
    have "c \<le> fst y" "cell_at enc leaf p y" using R(9,10)[OF y] .
    then have "cell_at enc leaf q y"
      using cells off q by (intro cell_at_same[of enc leaf p y q]) auto
    then show ?thesis
      unfolding r_def using \<open>c \<le> fst y\<close> off idx by (intro cell_at_upd_below) auto
  qed
  have split: "sorted_wrt (apart enc leaf) (take idx ocs @ drop idx ocs)" using R(11) by simp
  have new_apart: "apart enc leaf (off, x) y" if "y \<in> set ocs" for y
    using R(9)[OF that] off by (simp add: apart_def)
  have "sorted_wrt (apart enc leaf) (take idx ocs @ (off, x) # drop idx ocs)"
    using split new_apart unfolding apart_insert by (auto dest: in_set_takeD in_set_dropD)
  moreover have "\<forall>y \<in> set (take idx ocs @ (off, x) # drop idx ocs). off \<le> fst y \<and> cell_at enc leaf r y"
    using new old R(9) off by (auto dest!: in_set_takeD in_set_dropD) fastforce+
  ultimately show "page_rep enc leaf r (take idx ocs @ (off, x) # drop idx ocs) off"
    unfolding page_rep_def using R(1,2) l(4) t n c ptr off idx by simp
qed

lemma upd_commute:
  assumes "a + length as \<le> b \<or> b + length bs \<le> a" "a + length as \<le> length p" "b + length bs \<le> length p"
  shows "upd (upd p a as) b bs = upd (upd p b bs) a as"
  using assms by (intro nth_equalityI) (auto simp: nth_upd)

text \<open>The rightmost child and the next leaf may change freely.\<close>

lemma page_rep_header:
  assumes "page_rep enc leaf p ocs c" "off = 5 \<or> off = 9" "length bs = 4"
  shows "page_rep enc leaf (upd p off bs) ocs c" "length (upd p off bs) = length p"
proof -
  note R = page_repD[OF assms(1)]
  show "length (upd p off bs) = length p" using assms R(8) by auto
  have "ptrs (upd p off bs) (length ocs) = map fst ocs"
    by (rule ptrs_eqI) (use page_rep_nth_ptr[OF assms(1)] assms R(5,6,8) in \<open>auto simp: slice_simps\<close>)
  moreover have "cell_at enc leaf (upd p off bs) y" if "y \<in> set ocs" for y
    using R(9,10)[OF that] R(5) assms(2,3) by (intro cell_at_upd_below) auto
  ultimately show "page_rep enc leaf (upd p off bs) ocs c"
    unfolding page_rep_def using R assms(2,3) by (auto simp: slice_simps)
qed

section \<open>The contract of a node accessor\<close>

text \<open>
  \<open>enc\<close> is the byte format of a cell, \<open>norm\<close> the cell that reading returns after a cell has
  been written (a B+ tree drops the value of an internal cell and the child of a leaf cell).
\<close>

definition cell_ok :: "cell \<Rightarrow> bool" where
  "cell_ok x \<longleftrightarrow> glen (fst (snd x)) < 65536 \<and> snd (snd x) < 2 ^ 32"

definition node_rep ::
  "(bool \<Rightarrow> cell \<Rightarrow> byte list) \<Rightarrow> (bool \<Rightarrow> cell \<Rightarrow> cell) \<Rightarrow> bool \<Rightarrow> page \<Rightarrow> cell list \<Rightarrow> nat \<Rightarrow> bool"
where
  "node_rep enc norm leaf p cs c \<longleftrightarrow>
     (\<exists>ocs. page_rep enc leaf p ocs c \<and> map snd ocs = cs \<and>
        (\<forall>x \<in> set cs. cell_ok x \<and> norm leaf x = x))"

definition set_child :: "page_id \<Rightarrow> cell \<Rightarrow> cell" where
  "set_child j x = (case x of (k, v, _) \<Rightarrow> (k, v, j))"

lemma set_child_simps [simp]:
  "fst (set_child j x) = fst x" "fst (snd (set_child j x)) = fst (snd x)"
  "snd (snd (set_child j x)) = j"
  by (cases x; simp add: set_child_def)+

locale cell_codec =
  fixes acc :: node_accessor
    and enc :: "bool \<Rightarrow> cell \<Rightarrow> byte list"
    and norm :: "bool \<Rightarrow> cell \<Rightarrow> cell"
  assumes enc_length: "length (enc leaf (k, v, lc)) = CellSize acc leaf v"
    and enc_norm: "enc leaf (norm leaf x) = enc leaf x"
    and norm_norm: "norm leaf (norm leaf x) = norm leaf x"
    and norm_key: "fst (norm leaf x) = fst x"
    and norm_ok: "cell_ok x \<Longrightarrow> cell_ok (norm leaf x)"
    and norm_child: "norm False (set_child j x) = set_child j (norm False x)"
    and norm_overwrite: "norm leaf (k, v, lc) = (k, v, lc) \<Longrightarrow> glen v' \<le> glen v \<Longrightarrow>
      snd (snd (norm leaf (k, v', lc))) = lc"
    and enc_child: "enc False (set_child j x) = le_put 4 j @ drop 4 (enc False x)"
    and enc_long: "4 \<le> length (enc leaf x)"
    and read_cell: "cell_at enc leaf p (off, x) \<Longrightarrow> cell_ok x \<Longrightarrow> CellPtr p i = Some off \<Longrightarrow>
      ReadCell acc p i leaf = Some (norm leaf x)"
    and write_cell: "off + CellSize acc leaf v \<le> length p \<Longrightarrow>
      WriteCell acc p (int off) k v lc leaf = Some (upd p off (enc leaf (k, v, lc)))"
    and overwrite_cell: "cell_at enc leaf p (off, (k, v, lc)) \<Longrightarrow> cell_ok (k, v, lc) \<Longrightarrow>
      CellPtr p i = Some off \<Longrightarrow> glen v' \<le> glen v \<Longrightarrow>
      OverwriteValue acc p i v' leaf = Some (upd p off (enc leaf (k, v', lc)))"
    and overwrite_size: "glen v' \<le> glen v \<Longrightarrow> CellSize acc leaf v' \<le> CellSize acc leaf v"
    and link_copy: "CopyUpLeaves acc \<Longrightarrow> LinkLeaves acc l r newID oldNext =
      do { l' \<leftarrow> SetNextLeaf l newID; r' \<leftarrow> SetNextLeaf r oldNext; Some (l', r') }"
    and link_none: "\<not> CopyUpLeaves acc \<Longrightarrow> LinkLeaves acc l r newID oldNext = Some (l, r)"
begin

text \<open>Header fields and cells of a well-formed node.\<close>

lemma node_repD:
  assumes "node_rep enc norm leaf p cs c"
  shows "length p < 65536" "13 \<le> length p" "ptr_off (length cs) \<le> c" "c \<le> length p"
    "NumCells p = Some (length cs)" "isLeaf p = Some leaf"
    "page_type p = Some (if leaf then TypeLeaf else TypeInternal)"
    "FreeSpace p n = Some (int c - int (ptr_off n))"
    "Rightmost p = Some (u32_at p 5)" "NextLeaf p = Some (u32_at p 9)"
    "x \<in> set cs \<Longrightarrow> cell_ok x" "x \<in> set cs \<Longrightarrow> norm leaf x = x"
proof -
  obtain ocs where rep: "page_rep enc leaf p ocs c" and cs: "map snd ocs = cs"
    and ok: "\<forall>x \<in> set cs. cell_ok x \<and> norm leaf x = x"
    using assms by (auto simp: node_rep_def)
  note R = page_repD[OF rep]
  have len: "length ocs = length cs" using cs by auto
  show "length p < 65536" "13 \<le> length p" "ptr_off (length cs) \<le> c" "c \<le> length p"
    "x \<in> set cs \<Longrightarrow> cell_ok x" "x \<in> set cs \<Longrightarrow> norm leaf x = x"
    using R len ok by simp_all
  show "NumCells p = Some (length cs)" "isLeaf p = Some leaf"
    "page_type p = Some (if leaf then TypeLeaf else TypeInternal)"
    "FreeSpace p n = Some (int c - int (ptr_off n))"
    "Rightmost p = Some (u32_at p 5)" "NextLeaf p = Some (u32_at p 9)"
    using R len by (simp_all add: isLeaf_def page_defs)
qed

lemma node_read:
  assumes "node_rep enc norm leaf p cs c" "i < length cs"
  shows "ReadCell acc p i leaf = Some (cs ! i)"
proof -
  obtain ocs where rep: "page_rep enc leaf p ocs c" and cs: "map snd ocs = cs"
    and ok: "\<forall>x \<in> set cs. cell_ok x \<and> norm leaf x = x"
    using assms(1) by (auto simp: node_rep_def)
  have i: "i < length ocs" using assms(2) cs by auto
  have at: "cell_at enc leaf p (fst (ocs ! i), cs ! i)"
    using page_repD(10)[OF rep nth_mem[OF i]] cs i by auto
  have "cell_ok (cs ! i)" "norm leaf (cs ! i) = cs ! i" using ok assms(2) by simp_all
  with read_cell[OF at _ page_rep_ptr(1)[OF rep i]] show ?thesis by simp
qed

lemma node_mapM:
  assumes "node_rep enc norm leaf p cs c"
  shows "mapM (\<lambda>j. ReadCell acc p j leaf) [0..<length cs] = Some cs"
proof -
  have "mapM (\<lambda>j. ReadCell acc p j leaf) [0..<length cs] = Some (map ((!) cs) [0..<length cs])"
    by (rule mapM_Some) (use node_read[OF assms] in auto)
  then show ?thesis by (simp add: map_nth)
qed

lemma node_child:
  assumes "node_rep enc norm False p cs c" "idx \<le> length cs"
  shows "ChildAt acc p idx (length cs) =
    Some (if idx = length cs then u32_at p 5 else snd (snd (cs ! idx)))"
  using node_repD(9)[OF assms(1)] node_read[OF assms(1), of idx] assms(2)
  by (auto simp: ChildAt_def split: prod.splits)

text \<open>Binary search.\<close>

definition before :: "bool \<Rightarrow> key \<Rightarrow> cell \<Rightarrow> bool" where
  "before leaf key x \<longleftrightarrow>
     sint (fst x) < sint key \<or> (\<not> leaf \<and> fst x = key \<and> CopyUpLeaves acc)"

lemma find_loop_spec:
  assumes rep: "node_rep enc norm leaf p cs c"
    and mono: "\<And>i j. i \<le> j \<Longrightarrow> j < length cs \<Longrightarrow> before leaf key (cs ! j) \<Longrightarrow> before leaf key (cs ! i)"
  shows "lo \<le> hi \<Longrightarrow> hi \<le> length cs \<Longrightarrow> \<forall>i < lo. before leaf key (cs ! i) \<Longrightarrow>
     \<forall>i. hi \<le> i \<and> i < length cs \<longrightarrow> \<not> before leaf key (cs ! i) \<Longrightarrow>
   \<exists>idx. find_loop acc p key leaf lo hi = Some idx \<and> idx \<le> length cs \<and>
     (\<forall>i < idx. before leaf key (cs ! i)) \<and>
     (\<forall>i. idx \<le> i \<and> i < length cs \<longrightarrow> \<not> before leaf key (cs ! i))"
proof (induction "hi - lo" arbitrary: lo hi rule: less_induct)
  case less
  show ?case
  proof (cases "lo < hi")
    case False
    then have "find_loop acc p key leaf lo hi = Some lo" "lo = hi"
      using less.prems(1) by (simp_all add: find_loop.simps)
    then show ?thesis using less.prems by auto
  next
    case True
    let ?m = "(lo + hi) div 2"
    have m: "lo \<le> ?m" "?m < hi" using True by auto
    obtain k v lc where cm: "cs ! ?m = (k, v, lc)" by (metis prod_cases3)
    have rd: "ReadCell acc p ?m leaf = Some (k, v, lc)"
      using node_read[OF rep, of ?m] m less.prems(2) cm by simp
    show ?thesis
    proof (cases "before leaf key (cs ! ?m)")
      case T: True
      have "find_loop acc p key leaf lo hi = find_loop acc p key leaf (?m + 1) hi"
        using True T cm by (subst find_loop.simps) (simp add: rd before_def Let_def)
      moreover have "\<forall>i < ?m + 1. before leaf key (cs ! i)"
        using mono[of _ ?m] T m less.prems(2) by auto
      ultimately show ?thesis
        using less.hyps[of hi "?m + 1"] m less.prems by auto
    next
      case F: False
      have "find_loop acc p key leaf lo hi = find_loop acc p key leaf lo ?m"
        using True F cm by (subst find_loop.simps) (auto simp: rd before_def Let_def)
      moreover have "\<forall>i. ?m \<le> i \<and> i < length cs \<longrightarrow> \<not> before leaf key (cs ! i)"
        using mono[of ?m] F by auto
      ultimately show ?thesis
        using less.hyps[of ?m lo] m less.prems by auto
    qed
  qed
qed

lemma FindIdx_spec:
  assumes "node_rep enc norm leaf p cs c"
    and "\<And>i j. i \<le> j \<Longrightarrow> j < length cs \<Longrightarrow> before leaf key (cs ! j) \<Longrightarrow> before leaf key (cs ! i)"
  obtains idx where "FindIdx acc p key (length cs) leaf = Some idx" "idx \<le> length cs"
    "\<And>i. i < idx \<Longrightarrow> before leaf key (cs ! i)"
    "\<And>i. idx \<le> i \<Longrightarrow> i < length cs \<Longrightarrow> \<not> before leaf key (cs ! i)"
proof -
  have "\<exists>idx. find_loop acc p key leaf 0 (length cs) = Some idx \<and> idx \<le> length cs \<and>
     (\<forall>i < idx. before leaf key (cs ! i)) \<and>
     (\<forall>i. idx \<le> i \<and> i < length cs \<longrightarrow> \<not> before leaf key (cs ! i))"
    by (rule find_loop_spec[OF assms(1)]) (use assms(2) in auto)
  then show thesis using that by (auto simp: FindIdx_def)
qed

text \<open>Appending a cell, and a list of cells.\<close>

lemma node_rep_ocs:
  assumes "node_rep enc norm leaf p cs c"
  obtains ocs where "page_rep enc leaf p ocs c" "map snd ocs = cs" "length ocs = length cs"
    "\<forall>x \<in> set cs. cell_ok x \<and> norm leaf x = x"
  using assms by (auto simp: node_rep_def)

lemma page_rep_norm:
  assumes "page_rep enc leaf p (xs @ (off, x) # ys) c"
  shows "page_rep enc leaf p (xs @ (off, norm leaf x) # ys) c"
proof -
  have "apart enc leaf (off, norm leaf x) = apart enc leaf (off, x)"
    by (simp add: apart_def enc_norm fun_eq_iff)
  then show ?thesis
    using assms unfolding page_rep_def apart_insert
    by (auto simp: cell_at_def enc_norm)
qed

lemma AppendCell_spec:
  assumes rep: "node_rep enc norm leaf p cs c" and ok: "cell_ok (k, v, lc)"
    and fit: "ptr_off (Suc (length cs)) + CellSize acc leaf v \<le> c"
  obtains q where "AppendCell acc p k v lc = Some q" "length q = length p"
    "node_rep enc norm leaf q (cs @ [norm leaf (k, v, lc)]) (c - CellSize acc leaf v)"
    "u32_at q 5 = u32_at p 5" "u32_at q 9 = u32_at p 9"
proof -
  obtain ocs where ocs: "page_rep enc leaf p ocs c" "map snd ocs = cs" "length ocs = length cs"
    "\<forall>x \<in> set cs. cell_ok x \<and> norm leaf x = x"
    using node_rep_ocs[OF rep] .
  note R = page_repD[OF ocs(1)]
  note N = node_repD[OF rep]
  obtain off where c: "c = off + CellSize acc leaf v"
    using fit by (metis add.commute add_leD2 le_Suc_ex)
  let ?x = "(k, v, lc)" and ?off = off and ?n = "length cs"
  let ?q1 = "upd p 3 (le_put 2 ?off)"
  let ?q2 = "upd ?q1 ?off (enc leaf ?x)"
  let ?q3 = "upd ?q2 (ptr_off ?n) (le_put 2 ?off)"
  let ?r = "upd ?q3 1 (le_put 2 (Suc ?n))"
  have len: "length (enc leaf ?x) = CellSize acc leaf v" by (rule enc_length)
  have off: "ptr_off (Suc ?n) \<le> ?off" "?off + CellSize acc leaf v \<le> length p" "?off < 65536"
    using fit N(1,4) c by auto
  have u: "u16 (int ?off) = ?off" "u16 (int ?n + 1) = Suc ?n"
    using off N(1) u16_int[of ?off] by auto
  have l: "length ?q1 = length p" "length ?q2 = length p" "length ?q3 = length p"
    using off len by simp_all
  have alloc: "AllocCell p (CellSize acc leaf v) = Some (int ?off, ?q1)"
    using R(4,8) c u(1) by (simp add: AllocCell_def page_defs Let_def)
  have leaf1: "isLeaf ?q1 = Some leaf"
  proof -
    have "?q1 ! 0 = p ! 0" using N(2) by (simp add: slice_simps)
    then show ?thesis using l(1) R(2,8) by (simp add: isLeaf_def page_defs)
  qed
  have wr: "WriteCell acc ?q1 (int ?off) k v lc leaf = Some ?q2"
    by (rule write_cell) (use off l in simp)
  have ap: "AppendCell acc p k v lc = Some ?r"
    using N(5,6) alloc leaf1 wr u off l
    by (simp add: AppendCell_def page_defs)
  have rep': "page_rep enc leaf ?r (take ?n ocs @ (?off, ?x) # drop ?n ocs) ?off"
    and hd: "length ?r = length p" "u32_at ?r 5 = u32_at p 5" "u32_at ?r 9 = u32_at p 9"
    using page_rep_add[OF ocs(1), of ?n ?x p] ocs(3) fit len c by simp_all
  have "page_rep enc leaf ?r (ocs @ [(?off, norm leaf ?x)]) ?off"
    using page_rep_norm[of leaf ?r ocs ?off ?x "[]"] rep' ocs(3) by simp
  then have "node_rep enc norm leaf ?r (cs @ [norm leaf ?x]) ?off"
    unfolding node_rep_def using ocs(2,4) ok norm_ok norm_norm
    by (intro exI[of _ "ocs @ [(?off, norm leaf ?x)]"]) auto
  then show thesis using that ap hd c by simp
qed

lemma append_cells_spec:
  assumes "node_rep enc norm leaf p cs c" "\<forall>x \<in> set xs. cell_ok x"
    "\<forall>x \<in> set xs. CellSize acc leaf (fst (snd x)) = sz"
    "ptr_off (length cs + length xs) + length xs * sz \<le> c"
  shows "\<exists>q. append_cells acc xs p = Some q \<and> length q = length p \<and>
    node_rep enc norm leaf q (cs @ map (norm leaf) xs) (c - length xs * sz) \<and>
    u32_at q 5 = u32_at p 5 \<and> u32_at q 9 = u32_at p 9"
  using assms
proof (induction xs arbitrary: p cs c)
  case Nil
  then show ?case by simp
next
  case (Cons x xs)
  obtain k v lc where x: "x = (k, v, lc)" by (metis prod_cases3)
  have sz: "CellSize acc leaf v = sz" using Cons.prems(3) x by simp
  have fit: "ptr_off (Suc (length cs)) + CellSize acc leaf v \<le> c"
    using Cons.prems(4) sz by simp
  have ok: "cell_ok (k, v, lc)" using Cons.prems(2) x by simp
  obtain p1 where p1: "AppendCell acc p k v lc = Some p1" "length p1 = length p"
    "node_rep enc norm leaf p1 (cs @ [norm leaf x]) (c - sz)"
    "u32_at p1 5 = u32_at p 5" "u32_at p1 9 = u32_at p 9"
    using AppendCell_spec[OF Cons.prems(1) ok fit] x sz by metis
  have "\<exists>q. append_cells acc xs p1 = Some q \<and> length q = length p1 \<and>
    node_rep enc norm leaf q ((cs @ [norm leaf x]) @ map (norm leaf) xs) (c - sz - length xs * sz) \<and>
    u32_at q 5 = u32_at p1 5 \<and> u32_at q 9 = u32_at p1 9"
    by (rule Cons.IH[OF p1(3)]) (use Cons.prems in auto)
  then show ?case using p1 x by auto
qed

text \<open>Inserting a cell at an index, with the right child of a split.\<close>

definition new_child :: "bool \<Rightarrow> page \<Rightarrow> cell list \<Rightarrow> nat \<Rightarrow> page_id" where
  "new_child leaf p cs idx =
     (if leaf then 0 else if idx = length cs then u32_at p 5 else snd (snd (cs ! idx)))"

definition inserted :: "bool \<Rightarrow> cell list \<Rightarrow> nat \<Rightarrow> cell \<Rightarrow> page_id \<Rightarrow> cell list" where
  "inserted leaf cs idx x rc =
     take idx cs @ x # (if leaf \<or> idx = length cs then drop idx cs
                        else set_child rc (cs ! idx) # drop (Suc idx) cs)"

lemma insert_cell_spec:
  assumes rep: "node_rep enc norm leaf p cs c" and idx: "idx \<le> length cs"
    and v: "glen v < 65536" and rc: "rc < 2 ^ 32"
    and fit: "ptr_off (Suc (length cs)) + CellSize acc leaf v \<le> c"
  obtains q where "insert_cell acc p (length cs) idx k v rc = Some q" "length q = length p"
    "node_rep enc norm leaf q
       (inserted leaf cs idx (norm leaf (k, v, new_child leaf p cs idx)) rc)
       (c - CellSize acc leaf v)"
    "u32_at q 5 = (if idx = length cs then rc else u32_at p 5)" "u32_at q 9 = u32_at p 9"
proof -
  obtain ocs where ocs: "page_rep enc leaf p ocs c" "map snd ocs = cs" "length ocs = length cs"
    "\<forall>x \<in> set cs. cell_ok x \<and> norm leaf x = x"
    using node_rep_ocs[OF rep] .
  note R = page_repD[OF ocs(1)]
  note N = node_repD[OF rep]
  obtain off where c: "c = off + CellSize acc leaf v"
    using fit by (metis add.commute add_leD2 le_Suc_ex)
  let ?n = "length cs" and ?lc = "new_child leaf p cs idx"
  let ?x = "(k, v, ?lc)"
  have len: "length (enc leaf ?x) = CellSize acc leaf v" by (rule enc_length)
  have off: "ptr_off (Suc ?n) \<le> off" "off + CellSize acc leaf v \<le> length p" "off < 65536"
    using fit N(1,4) c by auto
  have u: "u16 (int off) = off" "u16 (int ?n + 1) = Suc ?n"
    using off N(1) u16_int[of off] by auto
  obtain p1 where p1: "insert_shift p ?n idx = Some p1" "length p1 = length p"
    "\<forall>a k. a + k \<le> ptr_off (Suc idx) \<or> ptr_off (Suc ?n) \<le> a \<longrightarrow> sl p1 a k = sl p a k"
    "\<forall>i. idx < i \<and> i \<le> ?n \<longrightarrow> u16_at p1 (ptr_off i) = u16_at p (ptr_off (i - 1))"
    using insert_shift_spec[OF idx, of p] off by auto
  have hdr: "u16_at p1 3 = c" "u32_at p1 5 = u32_at p 5" "13 \<le> length p1"
    using p1(2,3) R(4,8) by (simp_all add: u16_at_def u32_at_def)
  have lc_ok: "?lc < 2 ^ 32"
  proof (cases "leaf \<or> idx = ?n")
    case True
    then show ?thesis using u32_at_less[of 5 p] N(2) by (auto simp: new_child_def)
  next
    case False
    then have "cell_ok (cs ! idx)" using idx ocs(4) by simp
    then show ?thesis using False by (simp add: new_child_def cell_ok_def)
  qed
  then have ok: "cell_ok ?x" using v by (simp add: cell_ok_def)
  have child: "(if leaf then Some 0 else ChildAt acc p1 idx ?n) = Some ?lc"
  proof (cases "leaf \<or> idx = ?n")
    case True
    then show ?thesis using hdr by (auto simp: new_child_def ChildAt_def page_defs)
  next
    case False
    then have i: "idx < length ocs" using idx ocs(3) by simp
    let ?o = "ocs ! idx"
    have o: "?o \<in> set ocs" "snd ?o = cs ! idx" using i ocs(2) by auto
    have eta: "(fst ?o, cs ! idx) = ?o" using o(2) by (metis prod.collapse)
    have at: "cell_at enc False p1 (fst ?o, cs ! idx)"
      unfolding eta using cell_at_same[OF R(10)[OF o(1)] p1(2)] p1(3) R(5) R(9)[OF o(1)] off(1) c o(2) False by auto
    have "u16_at p1 (ptr_off idx) = fst ?o"
      using page_rep_ptr(2)[OF ocs(1) i] p1(3) by (simp add: u16_at_def)
    then have "CellPtr p1 idx = Some (fst ?o)"
      using i off p1(2) ocs(3) by (simp add: page_defs)
    from read_cell[OF at _ this] ocs(4) False idx
    have "ReadCell acc p1 idx False = Some (cs ! idx)" by simp
    then show ?thesis using False by (simp add: ChildAt_def new_child_def split: prod.split)
  qed
  let ?p2 = "upd p1 3 (le_put 2 off)"
  let ?p3 = "upd ?p2 off (enc leaf ?x)"
  let ?p4 = "upd ?p3 (ptr_off idx) (le_put 2 off)"
  let ?r = "upd ?p4 1 (le_put 2 (Suc ?n))"
  have l: "length ?p2 = length p" "length ?p3 = length p" "length ?p4 = length p" "length ?r = length p"
    using off len p1(2) idx by simp_all
  have alloc: "AllocCell p1 (CellSize acc leaf v) = Some (int off, ?p2)"
    using hdr c u(1) by (simp add: AllocCell_def page_defs Let_def)
  have wr: "WriteCell acc ?p2 (int off) k v ?lc leaf = Some ?p3"
    by (rule write_cell) (use off l in simp)
  have ptr: "SetCellPtr ?p3 idx (u16 (int off)) = Some ?p4"
    using off l idx u(1) by (simp add: page_defs)
  have num: "SetNumCells q (int ?n + 1) = Some (upd q 1 (le_put 2 (Suc ?n)))"
    if "length q = length p" for q
    using that N(2) u(2) by (simp add: page_defs)
  let ?os = "take idx ocs @ (off, ?x) # drop idx ocs"
  have repr: "page_rep enc leaf ?r ?os off" "u32_at ?r 5 = u32_at p 5" "u32_at ?r 9 = u32_at p 9"
    using page_rep_add[OF ocs(1), of idx ?x p1] idx ocs(3) fit len c p1 page_rep_nth_ptr[OF ocs(1)]
    by (simp_all add: u16_at_def)
  have rep_norm: "page_rep enc leaf ?r (take idx ocs @ (off, norm leaf ?x) # drop idx ocs) off"
    by (rule page_rep_norm[OF repr(1)])
  have cells: "map snd (take idx ocs @ (off, norm leaf ?x) # drop idx ocs) =
      take idx cs @ norm leaf ?x # drop idx cs"
    using ocs(2) by (simp flip: take_map drop_map)
  have nok: "cell_ok (norm leaf ?x)" "norm leaf (norm leaf ?x) = norm leaf ?x"
    using ok norm_ok norm_norm by auto
  have run: "insert_cell acc p ?n idx k v rc =
      do { p5 \<leftarrow> (if idx = ?n then SetRightmost ?p4 (u32 rc)
                  else if \<not> leaf then do {
                    off1 \<leftarrow> CellPtr ?p4 (idx + 1);
                    wr ?p4 (int off1) (le_put 4 (u32 rc))
                  } else Some ?p4);
           SetNumCells p5 (int ?n + 1) }"
    using N(6) p1(1) child alloc wr ptr by (simp add: insert_cell_def)
  consider "idx = ?n" | "idx \<noteq> ?n" "leaf" | "idx \<noteq> ?n" "\<not> leaf" by blast
  then show thesis
  proof cases
    case 1
    let ?q = "upd ?r 5 (le_put 4 rc)"
    have "insert_cell acc p ?n idx k v rc = Some ?q"
    proof -
      have "insert_cell acc p ?n idx k v rc =
          Some (upd (upd ?p4 5 (le_put 4 rc)) 1 (le_put 2 (Suc ?n)))"
        unfolding run using 1 N(2) l rc num[of "upd ?p4 5 (le_put 4 rc)"]
        by (simp add: page_defs)
      also have "upd (upd ?p4 5 (le_put 4 rc)) 1 (le_put 2 (Suc ?n)) = ?q"
        by (rule upd_commute) (use N(2) l in simp_all)
      finally show ?thesis .
    qed
    moreover have "page_rep enc leaf ?q (take idx ocs @ (off, norm leaf ?x) # drop idx ocs) off"
      "length ?q = length p"
      using page_rep_header[OF rep_norm, of 5 "le_put 4 rc"] l by simp_all
    then have "node_rep enc norm leaf ?q (inserted leaf cs idx (norm leaf ?x) rc) off"
      unfolding node_rep_def using 1 cells ocs(4) nok
      by (intro exI[of _ "take idx ocs @ (off, norm leaf ?x) # drop idx ocs"])
        (auto simp: inserted_def)
    moreover have "u32_at ?q 5 = rc" "u32_at ?q 9 = u32_at p 9"
      using l N(2) rc repr(3) by (simp_all add: slice_simps)
    ultimately show thesis using that[of ?q] 1 c \<open>length ?q = length p\<close> by simp
  next
    case 2
    have "insert_cell acc p ?n idx k v rc = Some ?r"
      unfolding run using 2 l num[of ?p4] by simp
    moreover have "node_rep enc norm leaf ?r (inserted leaf cs idx (norm leaf ?x) rc) off"
      unfolding node_rep_def using 2 cells ocs(4) nok rep_norm
      by (intro exI[of _ "take idx ocs @ (off, norm leaf ?x) # drop idx ocs"])
        (auto simp: inserted_def dest: in_set_takeD in_set_dropD)
    ultimately show thesis using that[of ?r] 2 c repr l by simp
  next
    case 3
    then have i: "idx < length ocs" "Suc idx \<le> length ocs" using idx ocs(3) by simp_all
    let ?os' = "take idx ocs @ (off, norm leaf ?x) # drop idx ocs"
    obtain o1 y where oy: "ocs ! idx = (o1, y)" by (cases "ocs ! idx")
    have y1: "y = cs ! idx"
      using oy i(1) ocs(2) by (metis nth_map snd_conv)
    have "cs ! idx \<in> set cs" using i(1) ocs(3) by simp
    then have y: "y = cs ! idx" "cell_ok y" "norm leaf y = y"
      using y1 ocs(4) by simp_all
    have at: "?os' ! Suc idx = (o1, y)" using i oy by (simp add: nth_append)
    have si: "Suc idx < length ?os'" using i by simp
    let ?q = "upd ?r o1 (le_put 4 rc)"
    have enc_y: "enc leaf (set_child rc y) = le_put 4 rc @ drop 4 (enc leaf y)"
      using enc_child[of rc y] 3 by simp
    have o1: "c \<le> o1" "o1 + length (enc leaf y) \<le> length p"
      using R(9,10)[of "(o1, y)"] oy i nth_mem[OF i(1)] by (auto simp: cell_at_def)
    have yl: "4 \<le> length (enc leaf y)" by (rule enc_long)
    have cy: "sl ?r o1 (length (enc leaf y)) = enc leaf y"
      using page_repD(10)[OF rep_norm, of "(o1, y)"] nth_mem[OF si] at by (simp add: cell_at_def)
    have sl_q: "sl ?q o1 (length (enc leaf (set_child rc y))) = enc leaf (set_child rc y)"
    proof -
      let ?m = "length (enc leaf y) - 4"
      have ll: "length (enc leaf (set_child rc y)) = 4 + ?m" using enc_y yl by simp
      have "sl ?q o1 (4 + ?m) = sl ?q o1 4 @ sl ?q (o1 + 4) ?m"
        by (rule sl_append) (use o1 yl l in simp)
      also have "sl ?q o1 4 = le_put 4 rc" using o1 yl l by (simp add: slice_simps)
      also have "sl ?q (o1 + 4) ?m = sl ?r (o1 + 4) ?m" using o1 yl l by (simp add: slice_simps)
      also have "\<dots> = drop 4 (enc leaf y)"
      proof -
        have "sl ?r o1 (4 + ?m) = sl ?r o1 4 @ sl ?r (o1 + 4) ?m"
          by (rule sl_append) (use o1 yl l in simp)
        then have "enc leaf y = sl ?r o1 4 @ sl ?r (o1 + 4) ?m" using cy yl by simp
        moreover have "length (sl ?r o1 4) = 4" using o1 yl l by simp
        ultimately show ?thesis by (metis append_eq_conv_conj)
      qed
      finally show ?thesis using enc_y ll by simp
    qed
    have U: "page_rep enc leaf ?q (?os'[Suc idx := (o1, set_child rc y)]) off"
      "u32_at ?q 5 = u32_at ?r 5" "u32_at ?q 9 = u32_at ?r 9" "length ?q = length ?r"
      using page_rep_update[OF rep_norm si at, of "le_put 4 rc" "set_child rc y"] yl sl_q enc_y
      by simp_all
    have ptr1: "CellPtr ?p4 (idx + 1) = Some o1"
    proof -
      have "CellPtr ?r (Suc idx) = Some o1"
        using page_rep_ptr(1)[OF rep_norm si] at by simp
      then show ?thesis
        using l i off ocs(3) by (simp add: page_defs u16_at_other)
    qed
    have "insert_cell acc p ?n idx k v rc = Some (upd (upd ?p4 o1 (le_put 4 rc)) 1 (le_put 2 (Suc ?n)))"
      unfolding run using 3 ptr1 l o1 yl rc num[of "upd ?p4 o1 (le_put 4 rc)"] by simp
    also have "upd (upd ?p4 o1 (le_put 4 rc)) 1 (le_put 2 (Suc ?n)) = ?q"
      using l o1 yl off c by (intro upd_commute) auto
    finally have run': "insert_cell acc p ?n idx k v rc = Some ?q" .
    have "map snd (?os'[Suc idx := (o1, set_child rc y)]) = inserted leaf cs idx (norm leaf ?x) rc"
    proof -
      have "drop idx cs = cs ! idx # drop (Suc idx) cs"
        using i ocs(3) by (simp add: Cons_nth_drop_Suc)
      then show ?thesis
        using 3 i y(1) ocs(2,3) cells unfolding map_update inserted_def
        by (simp add: list_update_append)
    qed
    moreover have "\<forall>x \<in> set (inserted leaf cs idx (norm leaf ?x) rc). cell_ok x \<and> norm leaf x = x"
    proof -
      have "cell_ok (set_child rc y)" using y(2) rc by (simp add: cell_ok_def)
      moreover have "norm leaf (set_child rc y) = set_child rc y"
        using norm_child[of rc y] y(3) 3 by simp
      ultimately show ?thesis
        using nok ocs(4) y(1) by (auto simp: inserted_def dest: in_set_takeD in_set_dropD)
    qed
    ultimately have "node_rep enc norm leaf ?q (inserted leaf cs idx (norm leaf ?x) rc) off"
      unfolding node_rep_def using U(1) by blast
    then show thesis using that[of ?q] run' 3 c U l repr by simp
  qed
qed

text \<open>Overwriting a value in place.\<close>

lemma OverwriteValue_spec:
  assumes rep: "node_rep enc norm leaf p cs c" and i: "i < length cs"
    and x: "cs ! i = (k, v, lc)" and le: "glen v' \<le> glen v"
  obtains q where "OverwriteValue acc p i v' leaf = Some q" "length q = length p"
    "node_rep enc norm leaf q (cs[i := norm leaf (k, v', lc)]) c"
    "u32_at q 5 = u32_at p 5" "u32_at q 9 = u32_at p 9"
proof -
  obtain ocs where ocs: "page_rep enc leaf p ocs c" "map snd ocs = cs" "length ocs = length cs"
    "\<forall>x \<in> set cs. cell_ok x \<and> norm leaf x = x"
    using node_rep_ocs[OF rep] .
  note R = page_repD[OF ocs(1)]
  have io: "i < length ocs" using i ocs(3) by simp
  obtain off where o: "ocs ! i = (off, (k, v, lc))"
    using x ocs(2) io by (metis nth_map prod.collapse snd_conv)
  have ok: "cell_ok (k, v, lc)" using ocs(4) i x nth_mem by metis
  have at: "cell_at enc leaf p (off, (k, v, lc))" using R(10) nth_mem[OF io] o by metis
  let ?q = "upd p off (enc leaf (k, v', lc))"
  have run: "OverwriteValue acc p i v' leaf = Some ?q"
    using overwrite_cell[OF at ok _ le] page_rep_ptr(1)[OF ocs(1) io] o by simp
  have sz: "length (enc leaf (k, v', lc)) \<le> length (enc leaf (k, v, lc))"
    using overwrite_size[OF le] by (simp add: enc_length)
  have fit: "off + length (enc leaf (k, v', lc)) \<le> length p"
    using at sz by (simp add: cell_at_def)
  note U = page_rep_update[OF ocs(1) io o, of "enc leaf (k, v', lc)" "(k, v', lc)"]
  have U': "page_rep enc leaf ?q (ocs[i := (off, (k, v', lc))]) c" "length ?q = length p"
    "u32_at ?q 5 = u32_at p 5" "u32_at ?q 9 = u32_at p 9"
    using U sz fit by (simp_all add: slice_simps)
  have "ocs[i := (off, (k, v', lc))] = take i ocs @ (off, (k, v', lc)) # drop (Suc i) ocs"
    using io by (simp add: upd_conv_take_nth_drop)
  with U'(1) have rep': "page_rep enc leaf ?q (take i ocs @ (off, norm leaf (k, v', lc)) # drop (Suc i) ocs) c"
    using page_rep_norm by simp
  have ok': "cell_ok (norm leaf (k, v', lc))"
    using ok le norm_ok[of "(k, v', lc)"] by (simp add: cell_ok_def)
  have "map snd (take i ocs @ (off, norm leaf (k, v', lc)) # drop (Suc i) ocs) =
      cs[i := norm leaf (k, v', lc)]"
    using ocs(2) i by (simp add: upd_conv_take_nth_drop flip: take_map drop_map)
  moreover have "\<forall>x \<in> set (cs[i := norm leaf (k, v', lc)]). cell_ok x \<and> norm leaf x = x"
    using ocs(4) ok' norm_norm set_update_subset_insert[of cs i] by blast
  ultimately have "node_rep enc norm leaf ?q (cs[i := norm leaf (k, v', lc)]) c"
    unfolding node_rep_def using rep' by blast
  then show thesis using that run U' by blast
qed

end

end
