(* ===== verification/BTree.thy ===== *)
theory BTree
  imports NodeOps
begin

text \<open>
  The B-tree (src/dbms/index/btree/btree.go): the accessor with the cell format
  left child (4 bytes), key (8), value length (2), value; Open, Get, Insert, Delete and
  Close; and the range iterator, an in-order traversal with an explicit stack of frames.
  The Go stack grows at its end, the list \<open>it_stack\<close> at its head.
\<close>

section \<open>The accessor\<close>

abbreviation cellHeader :: nat where "cellHeader \<equiv> 4 + 8 + 2"

definition BTree_CellSize :: "bool \<Rightarrow> gobytes \<Rightarrow> nat" where
  "BTree_CellSize leaf val = cellHeader + glen val"

definition BTree_ReadCell :: "page \<Rightarrow> nat \<Rightarrow> bool \<Rightarrow> cell option" where
  "BTree_ReadCell p i leaf = do {
     off \<leftarrow> CellPtr p i;
     lc \<leftarrow> rd p (int off) 4;
     key \<leftarrow> rd p (int (off + 4)) 8;
     vl \<leftarrow> rd p (int (off + 12)) 2;
     val \<leftarrow> rd p (int (off + 14)) (le_get vl);
     Some (bits_key (le_get key), Some val, le_get lc)
   }"

definition BTree_WriteCell ::
  "page \<Rightarrow> int \<Rightarrow> key \<Rightarrow> gobytes \<Rightarrow> page_id \<Rightarrow> bool \<Rightarrow> page option" where
  "BTree_WriteCell p off key val leftChild leaf = do {
     p1 \<leftarrow> wr p off (le_put 4 leftChild);
     p2 \<leftarrow> wr p1 (off + 4) (le_put 8 (key_bits key));
     p3 \<leftarrow> wr p2 (off + 12) (le_put 2 (u16 (int (glen val))));
     copy_at p3 (off + 14) (gbytes val)
   }"

definition BTree_OverwriteValue :: "page \<Rightarrow> nat \<Rightarrow> gobytes \<Rightarrow> bool \<Rightarrow> page option" where
  "BTree_OverwriteValue p i newVal leaf = do {
     c \<leftarrow> CellPtr p i;
     let off = int c + 12;
     p1 \<leftarrow> wr p off (le_put 2 (u16 (int (glen newVal))));
     copy_at p1 (off + 2) (gbytes newVal)
   }"

definition BTreeAcc :: node_accessor where
  "BTreeAcc = \<lparr>CellSize = BTree_CellSize, ReadCell = BTree_ReadCell,
     WriteCell = BTree_WriteCell, OverwriteValue = BTree_OverwriteValue,
     CopyUpLeaves = False, LinkLeaves = (\<lambda>l r _ _. Some (l, r))\<rparr>"

section \<open>The index operations\<close>

definition BTree_Open ::
  "os_file \<Rightarrow> int \<Rightarrow> nat \<Rightarrow> (go_error \<times> os_file + tree) option" where
  "BTree_Open f cachePages pageSize = open_tree f cachePages pageSize"

definition BTree_Get :: "key \<Rightarrow> tree \<Rightarrow> ((go_error + gobytes) \<times> tree) option" where
  "BTree_Get key t = Tree_Get BTreeAcc key t"

definition BTree_Insert :: "key \<Rightarrow> gobytes \<Rightarrow> tree \<Rightarrow> ((go_error + unit) \<times> tree) option" where
  "BTree_Insert key val t = Tree_Insert BTreeAcc key val t"

definition BTree_Delete :: "key \<Rightarrow> tree \<Rightarrow> ((go_error + unit) \<times> tree) option" where
  "BTree_Delete key t = Some (Inr (), t)"

definition BTree_Close :: "tree \<Rightarrow> ((go_error + unit) \<times> tree) option" where
  "BTree_Close t = close_tree t"

section \<open>The range iterator\<close>

record frame =
  fr_id :: page_id
  fr_idx :: nat
  fr_done :: bool

record range_iter =
  it_end :: key
  it_stack :: "frame list"
  it_k :: key
  it_v :: gobytes
  it_err :: "go_error option"

partial_function (option) range_loop ::
  "key \<Rightarrow> page_id \<Rightarrow> frame list \<Rightarrow> pager \<Rightarrow> ((go_error + frame list) \<times> pager) option" where
  "range_loop start cur stack s =
     (case Read cur s of
        (Inl e, s1) \<Rightarrow> Some (Inl e, s1)
      | (Inr a, s1) \<Rightarrow> do {
          let p = bufs s1 a;
          n \<leftarrow> NumCells p;
          leaf \<leftarrow> isLeaf p;
          idx \<leftarrow> FindIdx BTreeAcc p start n leaf;
          let stack' = \<lparr>fr_id = cur, fr_idx = idx, fr_done = False\<rparr> # stack;
          if leaf then Some (Inr stack', s1)
          else do {
            child \<leftarrow> ChildAt BTreeAcc p idx n;
            range_loop start child stack' s1
          }
        })"

definition BTree_Range ::
  "key \<Rightarrow> key \<Rightarrow> tree \<Rightarrow> ((go_error + range_iter) \<times> tree) option" where
  "BTree_Range start end_key t = do {
     (r, s) \<leftarrow> range_loop start (RootID t) [] (Pg t);
     Some (case r of
             Inl e \<Rightarrow> Inl e
           | Inr st \<Rightarrow> Inr \<lparr>it_end = end_key, it_stack = st, it_k = 0, it_v = None, it_err = None\<rparr>,
           t\<lparr>Pg := s\<rparr>)
   }"

text \<open>Popping a frame marks the subtree of the frame below as visited.\<close>

fun pop_frame :: "frame list \<Rightarrow> frame list" where
  "pop_frame [] = []"
| "pop_frame [f] = []"
| "pop_frame (f # g # st) = g\<lparr>fr_done := True\<rparr> # st"

partial_function (option) next_loop ::
  "range_iter \<Rightarrow> pager \<Rightarrow> ((bool \<times> range_iter) \<times> pager) option" where
  "next_loop it s =
     (case it_stack it of
        [] \<Rightarrow> Some ((False, it), s)
      | f # st \<Rightarrow>
          (case Read (fr_id f) s of
             (Inl e, s1) \<Rightarrow> Some ((False, it\<lparr>it_err := Some e\<rparr>), s1)
           | (Inr a, s1) \<Rightarrow> do {
               let p = bufs s1 a;
               n \<leftarrow> NumCells p;
               leaf \<leftarrow> isLeaf p;
               if leaf then
                 if fr_idx f < n then do {
                   (k, v, _) \<leftarrow> ReadCell BTreeAcc p (fr_idx f) True;
                   Some (if sint k > sint (it_end it) then ((False, it), s1)
                         else ((True, it\<lparr>it_k := k, it_v := v,
                                  it_stack := f\<lparr>fr_idx := fr_idx f + 1\<rparr> # st\<rparr>), s1))
                 } else next_loop (it\<lparr>it_stack := pop_frame (f # st)\<rparr>) s1
               else if \<not> fr_done f then do {
                 child \<leftarrow> ChildAt BTreeAcc p (fr_idx f) n;
                 next_loop (it\<lparr>it_stack :=
                   \<lparr>fr_id = child, fr_idx = 0, fr_done = False\<rparr> # f # st\<rparr>) s1
               } else if fr_idx f < n then do {
                 (k, v, _) \<leftarrow> ReadCell BTreeAcc p (fr_idx f) False;
                 Some (if sint k > sint (it_end it) then ((False, it), s1)
                       else ((True, it\<lparr>it_k := k, it_v := v,
                                it_stack := f\<lparr>fr_idx := fr_idx f + 1, fr_done := False\<rparr> # st\<rparr>), s1))
               } else next_loop (it\<lparr>it_stack := pop_frame (f # st)\<rparr>) s1
             }))"

definition BTree_Next :: "range_iter \<Rightarrow> tree \<Rightarrow> ((bool \<times> range_iter) \<times> tree) option" where
  "BTree_Next it t = do { (r, s) \<leftarrow> next_loop it (Pg t); Some (r, t\<lparr>Pg := s\<rparr>) }"

definition BTree_Key :: "range_iter \<Rightarrow> key" where "BTree_Key it = it_k it"
definition BTree_Value :: "range_iter \<Rightarrow> gobytes" where "BTree_Value it = it_v it"
definition BTree_Error :: "range_iter \<Rightarrow> go_error option" where "BTree_Error it = it_err it"

declare range_loop.simps [code]
  and next_loop.simps [code]

section \<open>The accessor keeps the contract of the engine\<close>

text \<open>
  The byte format of a B-tree cell, and the cell that reading returns: a nil value comes back
  as an empty slice.
\<close>

definition BTree_cell :: "bool \<Rightarrow> cell \<Rightarrow> byte list" where
  "BTree_cell leaf x = (case x of (k, v, lc) \<Rightarrow>
     le_put 4 lc @ le_put 8 (key_bits k) @ le_put 2 (u16 (int (glen v))) @ gbytes v)"

definition BTree_norm :: "bool \<Rightarrow> cell \<Rightarrow> cell" where
  "BTree_norm leaf x = (case x of (k, v, lc) \<Rightarrow> (k, Some (gbytes v), lc))"

lemma BTreeAcc_simps [simp]:
  "CellSize BTreeAcc leaf v = 14 + glen v" "ReadCell BTreeAcc = BTree_ReadCell"
  "WriteCell BTreeAcc = BTree_WriteCell" "OverwriteValue BTreeAcc = BTree_OverwriteValue"
  "CopyUpLeaves BTreeAcc = False" "LinkLeaves BTreeAcc l r i j = Some (l, r)"
  by (simp_all add: BTreeAcc_def BTree_CellSize_def)

lemma BTree_cell_fields:
  assumes "cell_at BTree_cell leaf p (off, (k, v, lc))" "cell_ok (k, v, lc)"
  shows "off + (14 + glen v) \<le> length p" "sl p off 4 = le_put 4 lc"
    "sl p (off + 4) 8 = le_put 8 (key_bits k)" "sl p (off + 12) 2 = le_put 2 (glen v)"
    "sl p (off + 14) (glen v) = gbytes v"
proof -
  have v: "u16 (int (glen v)) = glen v" using assms(2) by (simp add: cell_ok_def)
  have s: "sl p off (14 + glen v) =
      le_put 4 lc @ le_put 8 (key_bits k) @ le_put 2 (glen v) @ gbytes v"
    and l: "off + (14 + glen v) \<le> length p"
    using assms(1) v by (simp_all add: cell_at_def BTree_cell_def glen_def)
  have n: "14 + glen v = length (le_put 4 lc) + length (le_put 8 (key_bits k)) +
      length (le_put 2 (glen v)) + length (gbytes v)"
    by (simp add: glen_def)
  show "off + (14 + glen v) \<le> length p" by (rule l)
  show "sl p off 4 = le_put 4 lc"
    "sl p (off + 4) 8 = le_put 8 (key_bits k)" "sl p (off + 12) 2 = le_put 2 (glen v)"
    "sl p (off + 14) (glen v) = gbytes v"
    using sl_split4[OF s n l length_le_put length_le_put length_le_put glen_def[symmetric]]
    by (simp_all del: le_put.simps)
qed

lemma BTree_read:
  assumes "cell_at BTree_cell leaf p (off, x)" "cell_ok x" "CellPtr p i = Some off"
  shows "BTree_ReadCell p i leaf' = Some (BTree_norm leaf x)"
proof -
  obtain k v lc where x: "x = (k, v, lc)" by (metis prod_cases3)
  note F = BTree_cell_fields[OF assms(1,2)[unfolded x]]
  have ok: "glen v < 65536" "lc < 2 ^ 32" using assms(2) x by (simp_all add: cell_ok_def)
  then have "le_get (le_put 4 lc) = lc" "le_get (le_put 2 (glen v)) = glen v"
    by simp_all
  then show ?thesis
    unfolding BTree_ReadCell_def assms(3) bind.bind_lunit
    using F by (simp add: x BTree_norm_def del: of_nat_add)
qed

lemma BTree_write:
  assumes "off + (14 + glen v) \<le> length p"
  shows "BTree_WriteCell p (int off) k v lc leaf = Some (upd p off (BTree_cell leaf' (k, v, lc)))"
proof -
  let ?A = "le_put 4 lc" and ?B = "le_put 8 (key_bits k)" and ?C = "le_put 2 (u16 (int (glen v)))"
  have e: "int off + 4 = int (off + 4)" "int off + 12 = int (off + 12)" "int off + 14 = int (off + 14)"
    by simp_all
  have "BTree_WriteCell p (int off) k v lc leaf =
    Some (upd (upd (upd (upd p off ?A) (off + 4) ?B) (off + 12) ?C) (off + 14) (gbytes v))"
    unfolding BTree_WriteCell_def e
    using assms by (simp add: glen_def del: of_nat_add)
  also have "upd (upd (upd (upd p off ?A) (off + 4) ?B) (off + 12) ?C) (off + 14) (gbytes v) =
      upd p off (?A @ ?B @ ?C @ gbytes v)"
    using assms upd_upd_adjacent[of off ?A ?B p] upd_upd_adjacent[of off "?A @ ?B" ?C p]
      upd_upd_adjacent[of off "?A @ ?B @ ?C" "gbytes v" p]
    by (simp add: glen_def)
  finally show ?thesis by (simp add: BTree_cell_def)
qed

lemma BTree_overwrite:
  assumes "cell_at BTree_cell leaf p (off, (k, v, lc))" "cell_ok (k, v, lc)"
    "CellPtr p i = Some off" "glen v' \<le> glen v"
  shows "BTree_OverwriteValue p i v' leaf = Some (upd p off (BTree_cell leaf (k, v', lc)))"
proof -
  note F = BTree_cell_fields[OF assms(1,2)]
  let ?A = "le_put 4 lc" and ?B = "le_put 8 (key_bits k)" and ?C = "le_put 2 (u16 (int (glen v')))"
  have e: "int off + 12 = int (off + 12)" "int (off + 12) + 2 = int (off + 14)" by simp_all
  have l: "length (gbytes v') \<le> glen v" using assms(4) by (simp add: glen_def)
  have "BTree_OverwriteValue p i v' leaf = Some (upd (upd p (off + 12) ?C) (off + 14) (gbytes v'))"
    unfolding BTree_OverwriteValue_def assms(3) bind.bind_lunit Let_def e
    using F(1) l by (simp del: of_nat_add)
  also have "upd (upd p (off + 12) ?C) (off + 14) (gbytes v') = upd p (off + 12) (?C @ gbytes v')"
    using F(1) l upd_upd_adjacent[of "off + 12" ?C "gbytes v'" p] by (simp add: add.commute)
  also have "\<dots> = upd p off ((?A @ ?B) @ ?C @ gbytes v')"
  proof -
    have "sl p off (4 + 8) = sl p off 4 @ sl p (off + 4) 8"
      by (rule sl_append) (use F(1) in simp)
    then have "sl p off (length (?A @ ?B)) = ?A @ ?B" using F by simp
    from upd_prefix[OF this, of "?C @ gbytes v'"] show ?thesis using F(1) l by simp
  qed
  finally show ?thesis by (simp add: BTree_cell_def)
qed

interpretation bt: cell_codec BTreeAcc BTree_cell BTree_norm
proof (unfold_locales, goal_cases)
  case (1 leaf k v lc)
  then show ?case by (simp add: BTree_cell_def glen_def)
next
  case (2 leaf x)
  then show ?case by (simp add: BTree_cell_def BTree_norm_def glen_def split: prod.split)
next
  case (8 j x)
  then show ?case by (simp add: BTree_cell_def set_child_def split: prod.split)
next
  case (10 leaf p off x i)
  then show ?case by (simp add: BTree_read)
next
  case (11 off leaf v p k lc)
  then show ?case by (simp add: BTree_write)
next
  case (12 leaf p off k v lc i v')
  then show ?case by (simp add: BTree_overwrite)
qed (auto simp: BTree_cell_def BTree_norm_def set_child_def cell_ok_def glen_def split: prod.split)

end
