(* ===== verification/BPTree.thy ===== *)
theory BPTree
  imports NodeOps
begin

text \<open>
  The B+ tree (src/dbms/index/bptree/bptree.go): the accessor with its two cell formats
  (internal: left child and key; leaf: key, value length, value), copy-up splits and linked
  leaves; Open, Get, Insert, Delete and Close; and the range iterator, which pins the buffer
  of the current leaf and walks the chain of leaves. The value of an iterator is a slice
  into the pinned buffer (\<open>readCellZeroCopy\<close>): its address, offset and length.
\<close>

section \<open>The accessor\<close>

abbreviation internalCellSize :: nat where "internalCellSize \<equiv> 4 + 8"
abbreviation leafCellHeader :: nat where "leafCellHeader \<equiv> 8 + 2"

definition BPTree_CellSize :: "bool \<Rightarrow> gobytes \<Rightarrow> nat" where
  "BPTree_CellSize leaf val = (if leaf then leafCellHeader + glen val else internalCellSize)"

definition BPTree_ReadCell :: "page \<Rightarrow> nat \<Rightarrow> bool \<Rightarrow> cell option" where
  "BPTree_ReadCell p i leaf = do {
     off \<leftarrow> CellPtr p i;
     if leaf then do {
       key \<leftarrow> rd p (int off) 8;
       vl \<leftarrow> rd p (int (off + 8)) 2;
       val \<leftarrow> rd p (int (off + 10)) (le_get vl);
       Some (bits_key (le_get key), Some val, 0)
     } else do {
       lc \<leftarrow> rd p (int off) 4;
       key \<leftarrow> rd p (int (off + 4)) 8;
       Some (bits_key (le_get key), None, le_get lc)
     }
   }"

definition readCellZeroCopy :: "page \<Rightarrow> nat \<Rightarrow> (key \<times> nat \<times> nat) option" where
  "readCellZeroCopy p i = do {
     off \<leftarrow> CellPtr p i;
     key \<leftarrow> rd p (int off) 8;
     vl \<leftarrow> rd p (int (off + 8)) 2;
     val \<leftarrow> rd p (int (off + 10)) (le_get vl);
     Some (bits_key (le_get key), off + 10, length val)
   }"

definition BPTree_WriteCell ::
  "page \<Rightarrow> int \<Rightarrow> key \<Rightarrow> gobytes \<Rightarrow> page_id \<Rightarrow> bool \<Rightarrow> page option" where
  "BPTree_WriteCell p off key val leftChild leaf =
     (if leaf then do {
        p1 \<leftarrow> wr p off (le_put 8 (key_bits key));
        p2 \<leftarrow> wr p1 (off + 8) (le_put 2 (u16 (int (glen val))));
        copy_at p2 (off + 10) (gbytes val)
      } else do {
        p1 \<leftarrow> wr p off (le_put 4 leftChild);
        wr p1 (off + 4) (le_put 8 (key_bits key))
      })"

definition BPTree_OverwriteValue :: "page \<Rightarrow> nat \<Rightarrow> gobytes \<Rightarrow> bool \<Rightarrow> page option" where
  "BPTree_OverwriteValue p i newVal leaf =
     (if \<not> leaf then Some p
      else do {
        c \<leftarrow> CellPtr p i;
        let off = int c + 8;
        p1 \<leftarrow> wr p off (le_put 2 (u16 (int (glen newVal))));
        copy_at p1 (off + 2) (gbytes newVal)
      })"

definition BPTree_LinkLeaves :: "page \<Rightarrow> page \<Rightarrow> page_id \<Rightarrow> page_id \<Rightarrow> (page \<times> page) option" where
  "BPTree_LinkLeaves left right newRightID oldNext = do {
     l \<leftarrow> SetNextLeaf left newRightID;
     r \<leftarrow> SetNextLeaf right oldNext;
     Some (l, r)
   }"

definition BPTreeAcc :: node_accessor where
  "BPTreeAcc = \<lparr>CellSize = BPTree_CellSize, ReadCell = BPTree_ReadCell,
     WriteCell = BPTree_WriteCell, OverwriteValue = BPTree_OverwriteValue,
     CopyUpLeaves = True, LinkLeaves = BPTree_LinkLeaves\<rparr>"

section \<open>The index operations\<close>

definition BPTree_Open ::
  "os_file \<Rightarrow> int \<Rightarrow> nat \<Rightarrow> (go_error \<times> os_file + tree) option" where
  "BPTree_Open f cachePages pageSize = open_tree f cachePages pageSize"

partial_function (option) bp_get_loop ::
  "key \<Rightarrow> page_id \<Rightarrow> pager \<Rightarrow> ((go_error + gobytes) \<times> pager) option" where
  "bp_get_loop key leafID s =
     (if leafID = InvalidPage then Some (Inr None, s)
      else case Read leafID s of
        (Inl e, s1) \<Rightarrow> Some (Inl e, s1)
      | (Inr a, s1) \<Rightarrow> do {
          let p = bufs s1 a;
          n \<leftarrow> NumCells p;
          idx \<leftarrow> FindIdx BPTreeAcc p key n True;
          found \<leftarrow> (if idx < n then do {
                      (k, val, _) \<leftarrow> ReadCell BPTreeAcc p idx True;
                      Some (if k = key then Some val
                            else if sint k > sint key then Some None else None)
                    } else Some None);
          (case found of
             Some r \<Rightarrow> Some (Inr r, s1)
           | None \<Rightarrow> do {
               nx \<leftarrow> NextLeaf p;
               bp_get_loop key nx s1
             })
        })"

definition BPTree_Get :: "key \<Rightarrow> tree \<Rightarrow> ((go_error + gobytes) \<times> tree) option" where
  "BPTree_Get key t = do {
     (r, t1) \<leftarrow> FindLeaf BPTreeAcc key t;
     (case r of
        Inl e \<Rightarrow> Some (Inl e, t1)
      | Inr leafID \<Rightarrow> do {
          (r1, s) \<leftarrow> bp_get_loop key leafID (Pg t1);
          Some (r1, t1\<lparr>Pg := s\<rparr>)
        })
   }"

definition BPTree_Insert :: "key \<Rightarrow> gobytes \<Rightarrow> tree \<Rightarrow> ((go_error + unit) \<times> tree) option" where
  "BPTree_Insert key val t = Tree_Insert BPTreeAcc key val t"

definition BPTree_Delete :: "key \<Rightarrow> tree \<Rightarrow> ((go_error + unit) \<times> tree) option" where
  "BPTree_Delete key t = Some (Inr (), t)"

definition BPTree_Close :: "tree \<Rightarrow> ((go_error + unit) \<times> tree) option" where
  "BPTree_Close t = close_tree t"

section \<open>The range iterator\<close>

record bp_iter =
  bi_end :: key
  bi_leafID :: page_id
  bi_idx :: nat
  bi_currPg :: "nat option"
  bi_k :: key
  bi_v :: "(nat \<times> nat \<times> nat) option"
  bi_err :: "go_error option"

definition BPTree_Range ::
  "key \<Rightarrow> key \<Rightarrow> tree \<Rightarrow> ((go_error + bp_iter) \<times> tree) option" where
  "BPTree_Range start end_key t = do {
     (r, t1) \<leftarrow> FindLeaf BPTreeAcc start t;
     (case r of
        Inl e \<Rightarrow> Some (Inl e, t1)
      | Inr leafID \<Rightarrow>
          (case Read leafID (Pg t1) of
             (Inl e, s) \<Rightarrow> Some (Inl e, t1\<lparr>Pg := s\<rparr>)
           | (Inr a, s) \<Rightarrow> do {
               n \<leftarrow> NumCells (bufs s a);
               idx \<leftarrow> FindIdx BPTreeAcc (bufs s a) start n True;
               Some (Inr \<lparr>bi_end = end_key, bi_leafID = leafID, bi_idx = idx, bi_currPg = Some a,
                          bi_k = 0, bi_v = None, bi_err = None\<rparr>, t1\<lparr>Pg := s\<rparr>)
             }))
   }"

text \<open>\<open>bp_pin\<close> is the first step of the loop body of Next: read the leaf if none is pinned.\<close>

definition bp_pin :: "bp_iter \<Rightarrow> pager \<Rightarrow> (go_error + nat) \<times> pager" where
  "bp_pin it s = (case bi_currPg it of None \<Rightarrow> Read (bi_leafID it) s | Some a \<Rightarrow> (Inr a, s))"

partial_function (option) bp_next_loop ::
  "bp_iter \<Rightarrow> pager \<Rightarrow> ((bool \<times> bp_iter) \<times> pager) option" where
  "bp_next_loop it s =
     (if bi_leafID it = InvalidPage then Some ((False, it), s)
      else case bp_pin it s of
        (Inl e, s1) \<Rightarrow> Some ((False, it\<lparr>bi_err := Some e\<rparr>), s1)
      | (Inr a, s1) \<Rightarrow> do {
          let it1 = it\<lparr>bi_currPg := Some a\<rparr>;
          n \<leftarrow> NumCells (bufs s1 a);
          if bi_idx it1 < n then do {
            (k, off, vl) \<leftarrow> readCellZeroCopy (bufs s1 a) (bi_idx it1);
            Some (if sint k > sint (bi_end it1) then ((False, it1), s1)
                  else ((True, it1\<lparr>bi_k := k, bi_v := Some (a, off, vl),
                           bi_idx := bi_idx it1 + 1\<rparr>), s1))
          } else do {
            nx \<leftarrow> NextLeaf (bufs s1 a);
            bp_next_loop (it1\<lparr>bi_leafID := nx, bi_currPg := None, bi_idx := 0\<rparr>) s1
          }
        })"

definition BPTree_Next :: "bp_iter \<Rightarrow> tree \<Rightarrow> ((bool \<times> bp_iter) \<times> tree) option" where
  "BPTree_Next it t = do { (r, s) \<leftarrow> bp_next_loop it (Pg t); Some (r, t\<lparr>Pg := s\<rparr>) }"

definition BPTree_Key :: "bp_iter \<Rightarrow> key" where "BPTree_Key it = bi_k it"

text \<open>Reading the value slice reads the buffer it points into, as it is now.\<close>

definition BPTree_Value :: "bp_iter \<Rightarrow> tree \<Rightarrow> gobytes" where
  "BPTree_Value it t =
     (case bi_v it of None \<Rightarrow> None | Some (a, off, vl) \<Rightarrow> Some (sl (bufs (Pg t) a) off vl))"

definition BPTree_Error :: "bp_iter \<Rightarrow> go_error option" where "BPTree_Error it = bi_err it"

declare bp_get_loop.simps [code]
  and bp_next_loop.simps [code]

section \<open>The accessor keeps the contract of the engine\<close>

text \<open>
  The byte formats of the two kinds of cell, and the cell that reading returns: an internal
  cell has lost its value, a leaf cell its child.
\<close>

definition BPTree_cell :: "bool \<Rightarrow> cell \<Rightarrow> byte list" where
  "BPTree_cell leaf x = (case x of (k, v, lc) \<Rightarrow>
     if leaf then le_put 8 (key_bits k) @ le_put 2 (u16 (int (glen v))) @ gbytes v
     else le_put 4 lc @ le_put 8 (key_bits k))"

definition BPTree_norm :: "bool \<Rightarrow> cell \<Rightarrow> cell" where
  "BPTree_norm leaf x = (case x of (k, v, lc) \<Rightarrow>
     if leaf then (k, Some (gbytes v), 0) else (k, None, lc))"

lemma BPTreeAcc_simps [simp]:
  "CellSize BPTreeAcc leaf v = (if leaf then 10 + glen v else 12)"
  "ReadCell BPTreeAcc = BPTree_ReadCell"
  "WriteCell BPTreeAcc = BPTree_WriteCell" "OverwriteValue BPTreeAcc = BPTree_OverwriteValue"
  "CopyUpLeaves BPTreeAcc = True" "LinkLeaves BPTreeAcc = BPTree_LinkLeaves"
  by (simp_all add: BPTreeAcc_def BPTree_CellSize_def)

lemma BPTree_leaf_fields:
  assumes "cell_at BPTree_cell True p (off, (k, v, lc))" "cell_ok (k, v, lc)"
  shows "off + (10 + glen v) \<le> length p" "sl p off 8 = le_put 8 (key_bits k)"
    "sl p (off + 8) 2 = le_put 2 (glen v)" "sl p (off + 10) (glen v) = gbytes v"
proof -
  have v: "u16 (int (glen v)) = glen v" using assms(2) by (simp add: cell_ok_def)
  have s: "sl p off (10 + glen v) = le_put 8 (key_bits k) @ le_put 2 (glen v) @ gbytes v @ []"
    and l: "off + (10 + glen v) \<le> length p"
    using assms(1) v by (simp_all add: cell_at_def BPTree_cell_def glen_def)
  have n: "10 + glen v = length (le_put 8 (key_bits k)) + length (le_put 2 (glen v)) +
      length (gbytes v) + length ([] :: byte list)"
    by (simp add: glen_def)
  show "off + (10 + glen v) \<le> length p" by (rule l)
  show "sl p off 8 = le_put 8 (key_bits k)" "sl p (off + 8) 2 = le_put 2 (glen v)"
    "sl p (off + 10) (glen v) = gbytes v"
    using sl_split4[OF s n l length_le_put length_le_put glen_def[symmetric] refl]
    by (simp_all del: le_put.simps)
qed

lemma BPTree_internal_fields:
  assumes "cell_at BPTree_cell False p (off, (k, v, lc))"
  shows "off + 12 \<le> length p" "sl p off 4 = le_put 4 lc" "sl p (off + 4) 8 = le_put 8 (key_bits k)"
proof -
  have s: "sl p off (length (le_put 4 lc @ le_put 8 (key_bits k))) = le_put 4 lc @ le_put 8 (key_bits k)"
    and l: "off + length (le_put 4 lc @ le_put 8 (key_bits k)) \<le> length p"
    using assms by (simp_all add: cell_at_def BPTree_cell_def)
  show "off + 12 \<le> length p" using l by simp
  show "sl p off 4 = le_put 4 lc" "sl p (off + 4) 8 = le_put 8 (key_bits k)"
    using sl_split[OF s l refl] by (simp_all del: le_put.simps)
qed

lemma BPTree_read:
  assumes "cell_at BPTree_cell leaf p (off, x)" "cell_ok x" "CellPtr p i = Some off"
  shows "BPTree_ReadCell p i leaf = Some (BPTree_norm leaf x)"
proof -
  obtain k v lc where x: "x = (k, v, lc)" by (metis prod_cases3)
  have ok: "glen v < 65536" "lc < 2 ^ 32" using assms(2) x by (simp_all add: cell_ok_def)
  then have g: "le_get (le_put 4 lc) = lc" "le_get (le_put 2 (glen v)) = glen v"
    by simp_all
  show ?thesis
  proof (cases leaf)
    case True
    note F = BPTree_leaf_fields[of p off k v lc]
    show ?thesis
      unfolding BPTree_ReadCell_def assms(3) bind.bind_lunit
      using F assms(1,2) g True by (simp add: x BPTree_norm_def del: of_nat_add)
  next
    case False
    note F = BPTree_internal_fields[of p off k v lc]
    show ?thesis
      unfolding BPTree_ReadCell_def assms(3) bind.bind_lunit
      using F assms(1,2) g False by (simp add: x BPTree_norm_def del: of_nat_add)
  qed
qed

lemma BPTree_write:
  assumes "off + BPTree_CellSize leaf v \<le> length p"
  shows "BPTree_WriteCell p (int off) k v lc leaf = Some (upd p off (BPTree_cell leaf (k, v, lc)))"
proof -
  let ?A = "le_put 8 (key_bits k)" and ?B = "le_put 2 (u16 (int (glen v)))"
  have e: "int off + 4 = int (off + 4)" "int off + 8 = int (off + 8)" "int off + 10 = int (off + 10)"
    by simp_all
  show ?thesis
  proof (cases leaf)
    case True
    have "BPTree_WriteCell p (int off) k v lc leaf =
      Some (upd (upd (upd p off ?A) (off + 8) ?B) (off + 10) (gbytes v))"
      unfolding BPTree_WriteCell_def e
      using assms True by (simp add: glen_def BPTree_CellSize_def del: of_nat_add)
    also have "upd (upd (upd p off ?A) (off + 8) ?B) (off + 10) (gbytes v) = upd p off (?A @ ?B @ gbytes v)"
      using assms True upd_upd_adjacent[of off ?A ?B p] upd_upd_adjacent[of off "?A @ ?B" "gbytes v" p]
      by (simp add: glen_def BPTree_CellSize_def)
    finally show ?thesis using True by (simp add: BPTree_cell_def)
  next
    case False
    have "BPTree_WriteCell p (int off) k v lc leaf =
      Some (upd (upd p off (le_put 4 lc)) (off + 4) ?A)"
      unfolding BPTree_WriteCell_def e
      using assms False by (simp add: BPTree_CellSize_def del: of_nat_add)
    also have "upd (upd p off (le_put 4 lc)) (off + 4) ?A = upd p off (le_put 4 lc @ ?A)"
      using assms False upd_upd_adjacent[of off "le_put 4 lc" ?A p]
      by (simp add: BPTree_CellSize_def)
    finally show ?thesis using False by (simp add: BPTree_cell_def)
  qed
qed

lemma BPTree_overwrite:
  assumes "cell_at BPTree_cell leaf p (off, (k, v, lc))" "cell_ok (k, v, lc)"
    "CellPtr p i = Some off" "glen v' \<le> glen v"
  shows "BPTree_OverwriteValue p i v' leaf = Some (upd p off (BPTree_cell leaf (k, v', lc)))"
proof (cases leaf)
  case True
  then have "cell_at BPTree_cell True p (off, (k, v, lc))" using assms(1) by simp
  note F = BPTree_leaf_fields[OF this assms(2)]
  let ?A = "le_put 8 (key_bits k)" and ?B = "le_put 2 (u16 (int (glen v')))"
  have e: "int off + 8 = int (off + 8)" "int (off + 8) + 2 = int (off + 10)" by simp_all
  have l: "length (gbytes v') \<le> glen v" using assms(4) by (simp add: glen_def)
  have "BPTree_OverwriteValue p i v' leaf = Some (upd (upd p (off + 8) ?B) (off + 10) (gbytes v'))"
    unfolding BPTree_OverwriteValue_def assms(3) bind.bind_lunit Let_def e
    using True F(1) l by (simp del: of_nat_add)
  also have "upd (upd p (off + 8) ?B) (off + 10) (gbytes v') = upd p (off + 8) (?B @ gbytes v')"
    using F(1) l upd_upd_adjacent[of "off + 8" ?B "gbytes v'" p] by (simp add: add.commute)
  also have "\<dots> = upd p off (?A @ ?B @ gbytes v')"
    using upd_prefix[of p off ?A "?B @ gbytes v'"] F l by simp
  finally show ?thesis using True by (simp add: BPTree_cell_def)
next
  case False
  have "upd p off (BPTree_cell leaf (k, v', lc)) = p"
    by (rule upd_id) (use assms(1) False in \<open>simp_all add: cell_at_def BPTree_cell_def\<close>)
  then show ?thesis using False by (simp add: BPTree_OverwriteValue_def)
qed

interpretation bp: cell_codec BPTreeAcc BPTree_cell BPTree_norm
proof (unfold_locales, goal_cases)
  case (1 leaf k v lc)
  then show ?case by (simp add: BPTree_cell_def glen_def)
next
  case (10 leaf p off x i)
  then show ?case by (simp add: BPTree_read)
next
  case (11 off leaf v p k lc)
  then have "off + BPTree_CellSize leaf v \<le> length p"
    by (simp add: BPTree_CellSize_def split: if_splits)
  then show ?case using BPTree_write by simp
next
  case (12 leaf p off k v lc i v')
  then show ?case by (simp add: BPTree_overwrite)
next
  case (14 l r newID oldNext)
  then show ?case by (simp add: BPTree_LinkLeaves_def)
qed (auto simp: BPTree_cell_def BPTree_norm_def set_child_def cell_ok_def glen_def split: prod.split if_splits)

end
