(* ===== verification/TreeOps.thy ===== *)
theory TreeOps
  imports NodeOps
begin

text \<open>
  The page operations of the engine on a tree whose values all have the same length: what
  doInsert and splitNode do to the cell list of a node, and to the page of its new sibling.

  FreeSpace does not count the two bytes of the new cell pointer, so a cell that leaves less
  than two bytes free would be overrun by the pointer array. \<open>node_geom ps u\<close> says that
  this cannot happen with cells of \<open>u\<close> bytes in pages of \<open>ps\<close> bytes, and that a page holds at
  least two of them.
\<close>

definition node_geom :: "nat \<Rightarrow> nat \<Rightarrow> bool" where
  "node_geom ps u \<longleftrightarrow> ps < 65536 \<and> 13 + 2 * (u + 2) \<le> ps \<and> (ps - 13) mod (u + 2) < u"

lemma node_geom_insert:
  assumes "node_geom ps u" "ptr_off n + u \<le> ps - n * u"
  shows "ptr_off (Suc n) + Suc n * u \<le> ps"
proof (rule ccontr)
  assume "\<not> ?thesis"
  then have lt: "ps < 13 + Suc n * (u + 2)" by (simp add: algebra_simps)
  have ps: "13 \<le> ps" "(ps - 13) mod (u + 2) < u" using assms(1) by (simp_all add: node_geom_def)
  have ge: "13 + n * (u + 2) + u \<le> ps" using assms(2) by (simp add: algebra_simps)
  obtain d where d: "ps = 13 + n * (u + 2) + u + d" using ge le_Suc_ex by blast
  have "d < 2" using lt d by (simp add: algebra_simps)
  have "ps - 13 = (u + d) + n * (u + 2)" unfolding d by linarith
  then have "(ps - 13) mod (u + 2) = ((u + d) + n * (u + 2)) mod (u + 2)" by (rule arg_cong)
  also have "\<dots> = u + d" using \<open>d < 2\<close> by (simp only: mod_mult_self1) simp
  finally show False using ps by simp
qed

lemma node_geom_split:
  assumes "node_geom ps u" "ps - n * u < ptr_off n + u" "ptr_off n \<le> ps - n * u" "n * u \<le> ps"
  shows "2 \<le> n"
proof (rule ccontr)
  assume "\<not> ?thesis"
  then have "n = 0 \<or> n = 1" by auto
  then show False using assms(1,2) by (auto simp: node_geom_def)
qed

lemma node_geom_half:
  assumes "j \<le> n" "ptr_off n \<le> ps - n * u" "n * u \<le> ps"
  shows "ptr_off j + j * u \<le> ps"
  using mult_le_mono1[OF assms(1), of u] assms by linarith

locale tree_codec = cell_codec acc enc norm
  for acc :: node_accessor
    and enc :: "bool \<Rightarrow> cell \<Rightarrow> byte list"
    and norm :: "bool \<Rightarrow> cell \<Rightarrow> cell" +
  fixes sz :: "nat \<Rightarrow> bool \<Rightarrow> nat"
  assumes norm_form: "norm leaf (k, v, lc) =
      (k, (if leaf \<or> \<not> CopyUpLeaves acc then Some (gbytes v) else None),
       (if leaf \<and> CopyUpLeaves acc then 0 else lc))"
    and size_value: "glen v = l \<Longrightarrow> leaf \<or> \<not> CopyUpLeaves acc \<Longrightarrow> CellSize acc leaf v = sz l leaf"
    and size_separator: "CopyUpLeaves acc \<Longrightarrow> CellSize acc False v = sz l False"
begin

lemma norm_parts:
  "fst (norm leaf x) = fst x" "snd (snd (norm False x)) = snd (snd x)"
  "\<not> CopyUpLeaves acc \<Longrightarrow> fst (snd (norm leaf x)) = Some (gbytes (fst (snd x)))"
  by (cases x; simp add: norm_form)+

lemma norm_inserted:
  assumes cs: "\<forall>x \<in> set cs. norm leaf x = x" and idx: "idx \<le> length cs"
  shows "map (norm leaf) (inserted leaf cs idx x rc) = inserted leaf cs idx (norm leaf x) rc"
proof -
  have m: "map (norm leaf) ys = ys" if "set ys \<subseteq> set cs" for ys
    using cs that by (auto intro: map_idI)
  have t: "map (norm leaf) (take i cs) = take i cs" "map (norm leaf) (drop i cs) = drop i cs" for i
    by (intro m set_take_subset set_drop_subset)+
  show ?thesis
  proof (cases "leaf \<or> idx = length cs")
    case True
    then show ?thesis using t by (auto simp: inserted_def)
  next
    case False
    then have "cs ! idx \<in> set cs" using idx by simp
    then have "norm leaf (set_child rc (cs ! idx)) = set_child rc (cs ! idx)"
      using norm_child[of rc "cs ! idx"] cs False by simp
    then show ?thesis using t False by (simp add: inserted_def)
  qed
qed

lemma node_rep_header:
  assumes "node_rep enc norm leaf p cs c" "off = 5 \<or> off = 9" "v < 2 ^ 32"
  shows "node_rep enc norm leaf (upd p off (le_put 4 v)) cs c"
    "length (upd p off (le_put 4 v)) = length p"
    "u32_at (upd p off (le_put 4 v)) off = v"
    "u32_at (upd p 5 (le_put 4 v)) 9 = u32_at p 9" "u32_at (upd p 9 (le_put 4 v)) 5 = u32_at p 5"
proof -
  obtain ocs where o: "page_rep enc leaf p ocs c" "map snd ocs = cs"
    "\<forall>x \<in> set cs. cell_ok x \<and> norm leaf x = x"
    using node_rep_ocs[OF assms(1)] by metis
  note H = page_rep_header[OF o(1) assms(2), of "le_put 4 v"]
  show "node_rep enc norm leaf (upd p off (le_put 4 v)) cs c"
    unfolding node_rep_def using H(1) o by auto
  show "length (upd p off (le_put 4 v)) = length p" using H(2) by simp
  have "13 \<le> length p" by (rule node_repD(2)[OF assms(1)])
  then show "u32_at (upd p off (le_put 4 v)) off = v"
    "u32_at (upd p 5 (le_put 4 v)) 9 = u32_at p 9" "u32_at (upd p 9 (le_put 4 v)) 5 = u32_at p 5"
    using assms(2,3) by (auto simp: slice_simps)
qed

lemma init_append:
  assumes ps: "length p = ps" "13 \<le> ps" "ps < 65536"
    and xs: "\<forall>x \<in> set xs. cell_ok x" "\<forall>x \<in> set xs. CellSize acc leaf (fst (snd x)) = u"
    and fit: "ptr_off (length xs) + length xs * u \<le> ps"
  obtains p0 p1 where "InitPage p (if leaf then TypeLeaf else TypeInternal) = Some p0"
    "append_cells acc xs p0 = Some p1" "length p1 = ps"
    "node_rep enc norm leaf p1 (map (norm leaf) xs) (ps - length xs * u)"
    "u32_at p1 5 = 0" "u32_at p1 9 = InvalidPage"
proof -
  obtain q where q: "InitPage p (if leaf then TypeLeaf else TypeInternal) = Some q"
    "length q = length p" "page_rep enc leaf q [] (length p)" "u32_at q 5 = 0"
    "u32_at q 9 = InvalidPage"
    using InitPage_rep[of p leaf enc] ps by metis
  have "node_rep enc norm leaf q [] ps"
    using q(3) ps(1) by (auto simp: node_rep_def)
  from append_cells_spec[OF this xs] fit obtain r where "append_cells acc xs q = Some r"
    "length r = length q" "node_rep enc norm leaf r (map (norm leaf) xs) (ps - length xs * u)"
    "u32_at r 5 = u32_at q 5" "u32_at r 9 = u32_at q 9"
    by auto
  with q ps that show thesis by auto
qed

text \<open>The two pages of a split, as splitNode computes them from the list of all cells.\<close>

definition split_right :: "bool \<Rightarrow> nat \<Rightarrow> nat" where
  "split_right leaf mid = (if leaf \<and> CopyUpLeaves acc then mid else mid + 1)"

definition split_pair ::
  "bool \<Rightarrow> cell list \<Rightarrow> nat \<Rightarrow> page_id \<Rightarrow> page_id \<Rightarrow> page_id \<Rightarrow> page \<Rightarrow> page \<Rightarrow> (page \<times> page) option" where
  "split_pair leaf all mid rm nx newID left1 right0 =
     (if leaf then do {
        let start = (if CopyUpLeaves acc then mid else mid + 1);
        right1 \<leftarrow> append_cells acc (drop start all) right0;
        LinkLeaves acc left1 right1 newID nx
      } else do {
        left2 \<leftarrow> SetRightmost left1 (snd (snd (all ! mid)));
        right1 \<leftarrow> append_cells acc (drop (mid + 1) all) right0;
        right2 \<leftarrow> SetRightmost right1 rm;
        Some (left2, right2)
      })"

lemma split_pages_spec:
  assumes geom: "node_geom ps u" and len: "length p = ps" "length r = ps" "length all = Suc n"
    and all: "\<forall>x \<in> set all. cell_ok x" "\<forall>x \<in> set all. CellSize acc leaf (fst (snd x)) = u"
    and fit: "ptr_off n + n * u \<le> ps" "1 \<le> n"
    and ids: "rm < 2 ^ 32" "nx < 2 ^ 32" "newID < 2 ^ 32"
  defines "mid \<equiv> Suc n div 2"
  obtains left0 right0 left1 left2 right2 where
    "InitPage p (if leaf then TypeLeaf else TypeInternal) = Some left0"
    "InitPage r (if leaf then TypeLeaf else TypeInternal) = Some right0"
    "append_cells acc (take mid all) left0 = Some left1"
    "split_pair leaf all mid rm nx newID left1 right0 = Some (left2, right2)"
    "length left2 = ps" "length right2 = ps"
    "node_rep enc norm leaf left2 (map (norm leaf) (take mid all)) (ps - mid * u)"
    "node_rep enc norm leaf right2 (map (norm leaf) (drop (split_right leaf mid) all))
       (ps - (Suc n - split_right leaf mid) * u)"
    "\<not> leaf \<Longrightarrow> u32_at left2 5 = snd (snd (all ! mid)) \<and> u32_at right2 5 = rm"
    "leaf \<Longrightarrow> CopyUpLeaves acc \<Longrightarrow> u32_at left2 9 = newID \<and> u32_at right2 9 = nx"
proof -
  let ?st = "split_right leaf mid"
  have ps: "13 \<le> ps" "ps < 65536" using geom by (simp_all add: node_geom_def)
  have mid: "mid \<le> n" "Suc n - ?st \<le> n" "mid < length all"
    using fit(2) len(3) by (auto simp: mid_def split_right_def)
  have room: "ptr_off j + j * u \<le> ps" if "j \<le> n" for j
    using mult_le_mono1[OF that, of u] fit(1) that by linarith
  have lens: "length (take mid all) = mid" "length (drop ?st all) = Suc n - ?st"
    using len(3) mid by simp_all
  obtain left0 left1 where L: "InitPage p (if leaf then TypeLeaf else TypeInternal) = Some left0"
    "append_cells acc (take mid all) left0 = Some left1" "length left1 = ps"
    "node_rep enc norm leaf left1 (map (norm leaf) (take mid all)) (ps - mid * u)"
    using init_append[OF len(1) ps, of "take mid all" leaf u] all room[OF mid(1)] lens(1)
    by (metis in_set_takeD)
  obtain right0 right1 where R: "InitPage r (if leaf then TypeLeaf else TypeInternal) = Some right0"
    "append_cells acc (drop ?st all) right0 = Some right1" "length right1 = ps"
    "node_rep enc norm leaf right1 (map (norm leaf) (drop ?st all)) (ps - (Suc n - ?st) * u)"
    using init_append[OF len(2) ps, of "drop ?st all" leaf u] all room[OF mid(2)] lens(2)
    by (metis in_set_dropD)
  have child: "snd (snd (all ! mid)) < 2 ^ 32"
    using all(1) nth_mem[OF mid(3)] by (simp add: cell_ok_def)
  note LH = node_rep_header[OF L(4)] and RH = node_rep_header[OF R(4)]
  show thesis
  proof (cases leaf)
    case False
    let ?l = "upd left1 5 (le_put 4 (snd (snd (all ! mid))))" and ?r = "upd right1 5 (le_put 4 rm)"
    have "split_pair leaf all mid rm nx newID left1 right0 = Some (?l, ?r)"
      using False L(3) R(2,3) ps by (simp add: split_pair_def split_right_def page_defs)
    then show thesis
      using that[OF L(1) R(1) L(2), of ?l ?r] LH[of 5 "snd (snd (all ! mid))"] RH[of 5 rm]
        child ids L(3) R(3) False by simp
  next
    case True
    show thesis
    proof (cases "CopyUpLeaves acc")
      case cu: True
      let ?l = "upd left1 9 (le_put 4 newID)" and ?r = "upd right1 9 (le_put 4 nx)"
      have "split_pair leaf all mid rm nx newID left1 right0 = Some (?l, ?r)"
        using True cu L(3) R(2,3) ps link_copy[OF cu]
        by (simp add: split_pair_def split_right_def page_defs)
      then show thesis
        using that[OF L(1) R(1) L(2), of ?l ?r] LH[of 9 newID] RH[of 9 nx]
          ids L(3) R(3) True cu by simp
    next
      case nc: False
      have "split_pair leaf all mid rm nx newID left1 right0 = Some (left1, right1)"
        using True nc R(2) link_none[OF nc] by (simp add: split_pair_def split_right_def)
      then show thesis
        using that[OF L(1) R(1) L(2), of left1 right1] L R True nc by simp
    qed
  qed
qed

lemma all_inserted:
  assumes "idx \<le> length cs" "rc < 2 ^ 32"
  shows "(let all0 = take idx cs @ x # drop idx cs in
     if \<not> leaf \<and> idx \<noteq> length cs
     then all0[idx + 1 := (case all0 ! (idx + 1) of (k, v, _) \<Rightarrow> (k, v, u32 rc))]
     else all0) = inserted leaf cs idx x rc"
proof (cases "leaf \<or> idx = length cs")
  case True
  then show ?thesis by (auto simp: inserted_def)
next
  case False
  then have i: "idx < length cs" using assms(1) by simp
  have d: "drop idx cs = cs ! idx # drop (Suc idx) cs" using i by (simp add: Cons_nth_drop_Suc)
  obtain k v lc where c: "cs ! idx = (k, v, lc)" by (metis prod_cases3)
  show ?thesis
    using False i assms(2)
    by (simp add: inserted_def d c nth_append list_update_append set_child_def Let_def)
qed

lemma inserted_length: "idx \<le> length cs \<Longrightarrow> length (inserted leaf cs idx x rc) = Suc (length cs)"
  by (auto simp: inserted_def)

lemma inserted_ok:
  assumes "\<forall>y \<in> set cs. cell_ok y" "cell_ok x" "rc < 2 ^ 32" "idx \<le> length cs"
  shows "\<forall>y \<in> set (inserted leaf cs idx x rc). cell_ok y"
proof
  fix y assume "y \<in> set (inserted leaf cs idx x rc)"
  then consider "y \<in> set cs" | "y = x" | "\<not> leaf" "idx < length cs" "y = set_child rc (cs ! idx)"
    using assms(4) by (auto simp: inserted_def split: if_splits dest: in_set_takeD in_set_dropD)
  then show "cell_ok y"
  proof cases
    case 3
    then have "cell_ok (cs ! idx)" using assms(1) by simp
    then show ?thesis using 3 assms(3) by (simp add: cell_ok_def)
  qed (use assms in auto)
qed

lemma inserted_size:
  assumes "\<forall>y \<in> set cs. CellSize acc leaf (fst (snd y)) = u" "CellSize acc leaf (fst (snd x)) = u"
    "idx \<le> length cs"
  shows "\<forall>y \<in> set (inserted leaf cs idx x rc). CellSize acc leaf (fst (snd y)) = u"
proof
  fix y assume "y \<in> set (inserted leaf cs idx x rc)"
  then consider "y \<in> set cs" | "y = x" | "\<not> leaf" "idx < length cs" "y = set_child rc (cs ! idx)"
    using assms(3) by (auto simp: inserted_def split: if_splits dest: in_set_takeD in_set_dropD)
  then show "CellSize acc leaf (fst (snd y)) = u"
  proof cases
    case 3
    then have "CellSize acc leaf (fst (snd (cs ! idx))) = u" using assms(1) by simp
    then show ?thesis using 3 by simp
  qed (use assms in auto)
qed

text \<open>
  The outcome of inserting a cell: either the node holds the new cell list, or it has been
  split at the middle, the median cell is passed up, and the sibling is the page allocated.
\<close>

definition new_right :: "bool \<Rightarrow> page \<Rightarrow> cell list \<Rightarrow> nat \<Rightarrow> page_id \<Rightarrow> page_id" where
  "new_right leaf p cs idx rc = (if idx = length cs then rc else u32_at p 5)"

definition insert_outcome ::
  "bool \<Rightarrow> nat \<Rightarrow> page_id \<Rightarrow> page \<Rightarrow> cell list \<Rightarrow> page_id \<Rightarrow> pager \<Rightarrow> split_result \<Rightarrow> pager \<Rightarrow> bool"
where
  "insert_outcome leaf u i p all rm s r s' \<longleftrightarrow>
     pager_inv {} s' \<and> PageSize s' = PageSize s \<and>
     ((r = Inr None \<and> pageCount s' = pageCount s \<and>
       (\<exists>q. disk_page s' = (disk_page s)(i := q) \<and> length q = PageSize s \<and>
          node_rep enc norm leaf q all (PageSize s - length all * u) \<and>
          (\<not> leaf \<longrightarrow> u32_at q 5 = rm) \<and> u32_at q 9 = u32_at p 9)) \<or>
      (\<exists>pv. r = Inr (Some (fst (all ! (length all div 2)), pv, pageCount s)) \<and>
       glen pv < 65536 \<and>
       (\<not> CopyUpLeaves acc \<longrightarrow> Some (gbytes pv) = fst (snd (all ! (length all div 2)))) \<and>
       pageCount s' = Suc (pageCount s) \<and> 3 \<le> length all \<and>
       (\<forall>j < pageCount s. j \<noteq> i \<longrightarrow> disk_page s' j = disk_page s j) \<and>
       (let mid = length all div 2; st = split_right leaf mid;
            q1 = disk_page s' i; q2 = disk_page s' (pageCount s) in
        length q1 = PageSize s \<and> length q2 = PageSize s \<and>
        node_rep enc norm leaf q1 (take mid all) (PageSize s - mid * u) \<and>
        node_rep enc norm leaf q2 (drop st all) (PageSize s - (length all - st) * u) \<and>
        (\<not> leaf \<longrightarrow> u32_at q1 5 = snd (snd (all ! mid)) \<and> u32_at q2 5 = rm) \<and>
        (leaf \<and> CopyUpLeaves acc \<longrightarrow> u32_at q1 9 = pageCount s \<and> u32_at q2 9 = u32_at p 9))))"

lemma splitNode_spec:
  assumes geom: "node_geom (PageSize s) u"
    and inv: "pager_inv D s" "D \<subseteq> {i}" and i: "i < pageCount s" "owns_buf s i a"
    and rep: "node_rep enc norm leaf (bufs s a) cs (PageSize s - length cs * u)"
    and len: "length (bufs s a) = PageSize s" and idx: "idx \<le> length cs"
    and sizes: "\<forall>y \<in> set cs. CellSize acc leaf (fst (snd y)) = u" "CellSize acc leaf v = u"
    and v: "glen v < 65536" and rc: "rc < 2 ^ 32"
    and lim: "pageCount s < page_limit (PageSize s)" "pageCount s < 2 ^ 32"
    and n: "2 \<le> length cs" "length cs * u \<le> PageSize s"
  defines "p \<equiv> bufs s a"
  shows "\<exists>r s'. splitNode acc i a (length cs) idx k v rc s = Some (r, s') \<and>
    insert_outcome leaf u i p (inserted leaf cs idx (norm leaf (k, v, new_child leaf p cs idx)) rc)
      (new_right leaf p cs idx rc) s r s'"
proof -
  let ?n = "length cs" and ?ps = "PageSize s" and ?lc = "new_child leaf p cs idx"
  let ?x = "(k, v, ?lc)"
  define all where "all = inserted leaf cs idx ?x rc"
  define mid where "mid = Suc ?n div 2"
  define st where "st = split_right leaf mid"
  define rm where "rm = (if \<not> leaf \<and> idx = ?n then rc else u32_at p 5)"
  note N = node_repD[OF rep, folded p_def]
  have lall: "length all = Suc ?n" using idx by (simp add: all_def inserted_length)
  have mid: "mid < length all" "st \<le> length all" "mid = length all div 2" "1 \<le> mid"
    using n(1) lall by (auto simp: mid_def st_def split_right_def)
  have lc: "?lc < 2 ^ 32"
  proof (cases "leaf \<or> idx = ?n")
    case True
    then show ?thesis using u32_at_less[of 5 p] N(2) by (auto simp: new_child_def)
  next
    case False
    then have "cell_ok (cs ! idx)" using idx N(11) by simp
    then show ?thesis using False by (simp add: new_child_def cell_ok_def)
  qed
  have ok: "\<forall>y \<in> set all. cell_ok y" "\<forall>y \<in> set all. CellSize acc leaf (fst (snd y)) = u"
    unfolding all_def using N(11) lc v rc idx sizes
    by (intro inserted_ok inserted_size; simp add: cell_ok_def)+
  have norm_all: "map (norm leaf) all = inserted leaf cs idx (norm leaf ?x) rc"
    unfolding all_def by (rule norm_inserted) (use N(12) idx in auto)
  have small: "rm < 2 ^ 32" "u32_at p 9 < 2 ^ 32"
    using rc u32_at_less[of 5 p] u32_at_less[of 9 p] N(2) by (simp_all add: rm_def)
  have fit: "ptr_off ?n + ?n * u \<le> ?ps" "1 \<le> ?n" using N(3) n by linarith+
  let ?t = "if leaf then TypeLeaf else TypeInternal"
  obtain left0 right0 left1 left2 right2 where B:
    "InitPage p ?t = Some left0" "InitPage (replicate ?ps 0) ?t = Some right0"
    "append_cells acc (take mid all) left0 = Some left1"
    "split_pair leaf all mid rm (u32_at p 9) (pageCount s) left1 right0 = Some (left2, right2)"
    "length left2 = ?ps" "length right2 = ?ps"
    "node_rep enc norm leaf left2 (map (norm leaf) (take mid all)) (?ps - mid * u)"
    "node_rep enc norm leaf right2 (map (norm leaf) (drop st all)) (?ps - (Suc ?n - st) * u)"
    "\<not> leaf \<Longrightarrow> u32_at left2 5 = snd (snd (all ! mid)) \<and> u32_at right2 5 = rm"
    "leaf \<Longrightarrow> CopyUpLeaves acc \<Longrightarrow> u32_at left2 9 = pageCount s \<and> u32_at right2 9 = u32_at p 9"
    using split_pages_spec[OF geom len[folded p_def] length_replicate lall ok fit small lim(2), folded mid_def st_def]
    by metis
  obtain b s1 s2 s3 s4 where S: "Allocate s = (Inr (pageCount s), s1)"
    "Read (pageCount s) s1 = (Inr b, s2)" "bufs s2 a = p" "bufs s2 b = replicate ?ps 0"
    "Write i a (poke b right2 (poke a left2 s2)) = (Inr (), s3)"
    "Write (pageCount s) b s3 = (Inr (), s4)"
    "pager_inv {} s4" "pageCount s4 = Suc (pageCount s)" "PageSize s4 = ?ps"
    "\<forall>j < pageCount s. disk_page s4 j = (if j = i then left2 else disk_page s j)"
    "disk_page s4 (pageCount s) = right2"
    using pg.split_pages[OF inv i lim(1) B(5,6)] unfolding p_def by metis
  let ?pv = "if leaf \<and> CopyUpLeaves acc then None else fst (snd (all ! mid))"
  let ?r = "Inr (Some (fst (all ! mid), ?pv, pageCount s)) :: split_result"
  have lcE: "(if leaf then Some 0 else ChildAt acc p idx ?n) = Some ?lc"
  proof (cases leaf)
    case True
    then show ?thesis by (simp add: new_child_def)
  next
    case False
    then have "ChildAt acc p idx ?n = Some (if idx = ?n then u32_at p 5 else snd (snd (cs ! idx)))"
      using node_child[of p cs "?ps - ?n * u" idx] rep idx by (simp add: p_def)
    then show ?thesis using False by (simp add: new_child_def)
  qed
  note allE = all_inserted[OF idx rc, of ?x leaf, folded all_def, unfolded Let_def]
  have rmE: "(if \<not> leaf \<and> idx = ?n then u32 rc else u32_at p 5) = rm"
    using rc by (simp add: rm_def)
  have "splitNode acc i a ?n idx k v rc s = Some (?r, s4)"
    unfolding splitNode_def Let_def p_def[symmetric] N(6,7,9,10) lcE bind.bind_lunit
      node_mapM[OF rep, folded p_def] S(1) allE rmE
    using S(2-6) B(1-4) lim(2)
    by (simp add: ignored_id_def mid_def[symmetric] split_pair_def[unfolded Let_def, symmetric])
  moreover have "insert_outcome leaf u i p (map (norm leaf) all) (new_right leaf p cs idx rc) s ?r s4"
  proof -
    have nth: "map (norm leaf) all ! mid = norm leaf (all ! mid)" using mid by simp
    have "3 \<le> length all" "length all - st = Suc ?n - st" "length all = Suc ?n"
      using lall n(1) by simp_all
    moreover have "u32_at right2 5 = new_right leaf p cs idx rc" if "\<not> leaf"
      using B(9) that by (simp add: new_right_def rm_def)
    moreover have "disk_page s4 i = left2" using S(10) i(1) by simp
    moreover have "glen (fst (snd (all ! mid))) < 65536"
      using ok(1) nth_mem[OF mid(1)] by (simp add: cell_ok_def)
    ultimately show ?thesis
      unfolding insert_outcome_def Let_def length_map mid(3)[symmetric] nth st_def[symmetric]
      using S(7-11) B(5-10)
      by (intro conjI disjI2 exI[of _ ?pv]) (simp_all add: norm_parts take_map drop_map)
  qed
  ultimately show ?thesis unfolding norm_all by blast
qed

lemma doInsert_spec:
  assumes geom: "node_geom (PageSize s) u"
    and inv: "pager_inv D s" "D \<subseteq> {i}" and i: "i < pageCount s" "owns_buf s i a"
    and rep: "node_rep enc norm leaf (bufs s a) cs (PageSize s - length cs * u)"
    and len: "length (bufs s a) = PageSize s" and idx: "idx \<le> length cs"
    and sizes: "\<forall>y \<in> set cs. CellSize acc leaf (fst (snd y)) = u" "CellSize acc leaf v = u"
    and v: "glen v < 65536" and rc: "rc < 2 ^ 32"
    and lim: "pageCount s < page_limit (PageSize s)" "pageCount s < 2 ^ 32"
    and used: "length cs * u \<le> PageSize s"
  defines "p \<equiv> bufs s a"
  shows "\<exists>r s'. doInsert acc i a (length cs) idx k v rc s = Some (r, s') \<and>
    insert_outcome leaf u i p (inserted leaf cs idx (norm leaf (k, v, new_child leaf p cs idx)) rc)
      (new_right leaf p cs idx rc) s r s'"
proof -
  let ?n = "length cs" and ?ps = "PageSize s" and ?lc = "new_child leaf p cs idx"
  let ?c = "?ps - ?n * u"
  note N = node_repD[OF rep, folded p_def]
  have cond: "int u + int (ptr_off ?n) \<le> int ?c \<longleftrightarrow> ptr_off ?n + u \<le> ?c"
    unfolding of_nat_add[symmetric] of_nat_le_iff by (rule arg_cong2[where f = "(\<le>)"]) (rule add.commute, rule refl)
  have lhs: "doInsert acc i a ?n idx k v rc s =
    (if ptr_off ?n + u \<le> ?c
     then do { p1 \<leftarrow> insert_cell acc p ?n idx k v rc; Some (returned (Write i a (poke a p1 s))) }
     else splitNode acc i a ?n idx k v rc s)"
    unfolding doInsert_def Let_def p_def[symmetric] N(6,8) bind.bind_lunit sizes(2) le_diff_eq cond ..
  show ?thesis
  proof (cases "ptr_off ?n + u \<le> ?c")
    case False
    then have "2 \<le> ?n"
      using node_geom_split[OF geom, of ?n] N(3) used by simp
    with splitNode_spec[OF geom inv i rep len idx sizes v rc lim _ used, folded p_def, of k]
    show ?thesis unfolding lhs using False by simp
  next
    case True
    have room: "ptr_off (Suc ?n) + Suc ?n * u \<le> ?ps" by (rule node_geom_insert[OF geom True])
    then have fit: "ptr_off (Suc ?n) + CellSize acc leaf v \<le> ?c" using sizes(2) by simp
    obtain q where Q: "insert_cell acc p ?n idx k v rc = Some q" "length q = ?ps"
      "node_rep enc norm leaf q (inserted leaf cs idx (norm leaf (k, v, ?lc)) rc) (?c - u)"
      "u32_at q 5 = (if idx = ?n then rc else u32_at p 5)" "u32_at q 9 = u32_at p 9"
      using insert_cell_spec[OF rep[folded p_def] idx v rc fit, of k] len sizes(2)
      unfolding p_def by metis
    obtain s' where W: "Write i a (poke a q s) = (Inr (), s')" "pager_inv (D - {i}) s'"
      "disk_page s' = (disk_page s)(i := q)" "pageCount s' = pageCount s" "PageSize s' = ?ps"
      using pg.assign_write[OF inv(1) i Q(2)] by blast
    have "D - {i} = {}" using inv(2) by auto
    with W(2) have inv': "pager_inv {} s'" by simp
    have c: "?c - u = ?ps - length (inserted leaf cs idx (norm leaf (k, v, ?lc)) rc) * u"
      using idx by (simp add: inserted_length)
    have "doInsert acc i a ?n idx k v rc s = Some (Inr None, s')"
      unfolding lhs using True Q(1) W(1) by (simp add: returned_def)
    moreover have "insert_outcome leaf u i p (inserted leaf cs idx (norm leaf (k, v, ?lc)) rc)
        (new_right leaf p cs idx rc) s (Inr None) s'"
      unfolding insert_outcome_def
      using inv' W(3-5) Q(2,4,5) Q(3)[unfolded c]
      by (intro conjI disjI1 exI[of _ q]) (simp_all add: new_right_def)
    ultimately show ?thesis by blast
  qed
qed

end

end
