(* ===== verification/AbsTree.thy ===== *)
theory AbsTree
  imports Prelude
begin

text \<open>
  The tree that the pages of a tree file represent, and what inserting into it means.

  A node is a leaf with its entries, or an internal node with \<open>n\<close> keys and \<open>n + 1\<close>
  subtrees. \<open>items cu t\<close> lists the content from left to right with integer positions, so
  that both kinds of tree are search trees for one order: the entry with key \<open>k\<close> sits at
  \<open>2 * k + 1\<close>; a separator of a B+ tree (\<open>cu\<close>, copy-up) sits at \<open>2 * k\<close>, just before that
  entry, and a key of an internal B-tree node is itself an entry.
\<close>

section \<open>Trees\<close>

datatype bt = Lf page_id "(key \<times> gobytes) list" | Nd page_id "bt list" "(key \<times> gobytes) list"

type_synonym item = "int \<times> gobytes"

fun root_id :: "bt \<Rightarrow> page_id" where
  "root_id (Lf i _) = i"
| "root_id (Nd i _ _) = i"

abbreviation pos :: "key \<Rightarrow> int" where "pos k \<equiv> 2 * sint k + 1"

definition entry_item :: "key \<times> gobytes \<Rightarrow> item" where
  "entry_item e = (pos (fst e), snd e)"

definition sep_item :: "bool \<Rightarrow> key \<times> gobytes \<Rightarrow> item" where
  "sep_item cu e = (if cu then (2 * sint (fst e), None) else entry_item e)"

text \<open>The contents of the subtrees with the separators between them.\<close>

fun weave :: "'a list list \<Rightarrow> 'a list \<Rightarrow> 'a list" where
  "weave [] ks = []"
| "weave (x # xs) [] = x"
| "weave (x # xs) (k # ks) = x @ k # weave xs ks"

fun items :: "bool \<Rightarrow> bt \<Rightarrow> item list" where
  "items cu (Lf _ xs) = map entry_item xs"
| "items cu (Nd _ ts ks) = weave (map (items cu) ts) (map (sep_item cu) ks)"

fun ids :: "bt \<Rightarrow> page_id list" where
  "ids (Lf i _) = [i]"
| "ids (Nd i ts _) = i # concat (map ids ts)"

fun leaves :: "bt \<Rightarrow> page_id list" where
  "leaves (Lf i _) = [i]"
| "leaves (Nd i ts _) = concat (map leaves ts)"

text \<open>All leaves at depth \<open>h\<close>; and no node without a key.\<close>

fun bal :: "nat \<Rightarrow> bt \<Rightarrow> bool" where
  "bal h (Lf _ _) = (h = 0)"
| "bal h (Nd _ ts ks) = (h > 0 \<and> length ts = Suc (length ks) \<and> (\<forall>t \<in> set ts. bal (h - 1) t))"

fun full :: "bt \<Rightarrow> bool" where
  "full (Lf _ xs) = (xs \<noteq> [])"
| "full (Nd _ ts ks) = (ks \<noteq> [] \<and> (\<forall>t \<in> set ts. full t))"

definition asc :: "item list \<Rightarrow> bool" where
  "asc xs = sorted_wrt (<) (map fst xs)"

section \<open>Weaving\<close>

definition weave_left :: "'a list list \<Rightarrow> 'a list \<Rightarrow> 'a list" where
  "weave_left xs ks = concat (map2 (\<lambda>x k. x @ [k]) xs ks)"

definition weave_right :: "'a list \<Rightarrow> 'a list list \<Rightarrow> 'a list" where
  "weave_right ks xs = concat (map2 (\<lambda>k x. k # x) ks xs)"

lemma weave_left_simps [simp]:
  "weave_left [] ks = []" "weave_left (x # xs) (k # ks) = x @ k # weave_left xs ks"
  by (simp_all add: weave_left_def)

lemma weave_right_simps [simp]:
  "weave_right [] xs = []" "weave_right (k # ks) (x # xs) = k # x @ weave_right ks xs"
  by (simp_all add: weave_right_def)

lemma weave_append:
  "length as = length ks1 \<Longrightarrow> bs \<noteq> [] \<Longrightarrow>
     weave (as @ bs) (ks1 @ ks2) = weave_left as ks1 @ weave bs ks2"
  by (induction as ks1 rule: list_induct2) auto

lemma weave_append_right:
  "length xs = Suc (length ks1) \<Longrightarrow> length bs = length ks2 \<Longrightarrow>
     weave (xs @ bs) (ks1 @ ks2) = weave xs ks1 @ weave_right ks2 bs"
proof (induction xs arbitrary: ks1)
  case (Cons x xs)
  show ?case
  proof (cases ks1)
    case Nil
    then have "xs = []" using Cons.prems by simp
    have "length bs = length ks2 \<Longrightarrow> weave (x # bs) ks2 = x @ weave_right ks2 bs" for x bs ks2
    proof (induction bs arbitrary: x ks2)
      case (Cons b bs)
      then show ?case by (cases ks2) auto
    qed simp
    then show ?thesis using Nil \<open>xs = []\<close> Cons.prems by simp
  next
    case (Cons k ks)
    then show ?thesis using Cons.IH[of ks] Cons.prems by simp
  qed
qed simp

text \<open>Replacing the subtree in the middle by one or two subtrees.\<close>

lemma weave_context:
  assumes "length as = length ks1" "length xs = Suc (length ks)" "length bs = length ks2"
  shows "weave (as @ xs @ bs) (ks1 @ ks @ ks2) =
    weave_left as ks1 @ weave xs ks @ weave_right ks2 bs"
proof -
  have "weave (as @ xs @ bs) (ks1 @ ks @ ks2) = weave_left as ks1 @ weave (xs @ bs) (ks @ ks2)"
    using assms by (intro weave_append) auto
  also have "weave (xs @ bs) (ks @ ks2) = weave xs ks @ weave_right ks2 bs"
    using assms by (intro weave_append_right)
  finally show ?thesis .
qed

text \<open>Cutting a node at a separator.\<close>

lemma weave_split:
  "length ts = Suc (length ks) \<Longrightarrow> m < length ks \<Longrightarrow>
     weave ts ks = weave (take (Suc m) ts) (take m ks) @ ks ! m #
       weave (drop (Suc m) ts) (drop (Suc m) ks)"
proof (induction m arbitrary: ts ks)
  case 0
  then obtain t ts' k ks' where "ts = t # ts'" "ks = k # ks'" by (cases ts; cases ks) auto
  then show ?case by simp
next
  case (Suc m)
  then obtain t ts' k ks' where c: "ts = t # ts'" "ks = k # ks'" by (cases ts; cases ks) auto
  then show ?case using Suc.IH[of ts' ks'] Suc.prems by simp
qed

lemma set_weave:
  "length ts = Suc (length ks) \<Longrightarrow> set (weave ts ks) = \<Union> (set ` set ts) \<union> set ks"
proof (induction ts arbitrary: ks)
  case (Cons t ts)
  then show ?case
  proof (cases ks)
    case (Cons k ks')
    then show ?thesis using Cons.IH[of ks'] Cons.prems by auto
  qed auto
qed simp

lemma set_weave_left: "length as = length ks \<Longrightarrow> set (weave_left as ks) = \<Union> (set ` set as) \<union> set ks"
  by (induction as ks rule: list_induct2) auto

lemma set_weave_right: "length as = length ks \<Longrightarrow> set (weave_right ks as) = \<Union> (set ` set as) \<union> set ks"
  by (induction as ks rule: list_induct2) auto

lemma length_weave:
  "length ts = Suc (length ks) \<Longrightarrow> length (weave ts ks) = sum_list (map length ts) + length ks"
proof (induction ts arbitrary: ks)
  case (Cons t ts)
  then show ?case by (cases ks) auto
qed simp

section \<open>Ascending item lists\<close>

lemma asc_simps [simp]:
  "asc []" "asc (x # xs) \<longleftrightarrow> (\<forall>y \<in> set xs. fst x < fst y) \<and> asc xs"
  by (auto simp: asc_def)

lemma asc_append:
  "asc (xs @ ys) \<longleftrightarrow> asc xs \<and> asc ys \<and> (\<forall>x \<in> set xs. \<forall>y \<in> set ys. fst x < fst y)"
  by (auto simp: asc_def sorted_wrt_append)

lemma asc_distinct: "asc xs \<Longrightarrow> distinct (map fst xs)"
  by (induction xs) auto

lemma asc_weave_left:
  "length as = length ks \<Longrightarrow> asc (weave_left as ks) \<Longrightarrow> \<forall>k \<in> set ks. fst k < b \<Longrightarrow>
     x \<in> set (weave_left as ks) \<Longrightarrow> fst x < b"
  by (induction as ks rule: list_induct2) (auto simp: asc_append)

lemma asc_weave_right:
  "length as = length ks \<Longrightarrow> asc (weave_right ks as) \<Longrightarrow> \<forall>k \<in> set ks. b \<le> fst k \<Longrightarrow>
     x \<in> set (weave_right ks as) \<Longrightarrow> b \<le> fst x"
proof (induction as ks rule: list_induct2)
  case (Cons a as k ks)
  have k: "b \<le> fst k" "\<forall>y \<in> set a. fst k < fst y" using Cons.prems by (auto simp: asc_append)
  have "x \<in> set (weave_right ks as) \<Longrightarrow> b \<le> fst x"
    using Cons.IH Cons.prems by (auto simp: asc_append)
  moreover have "b \<le> fst x" if "x \<in> set a" using k that by fastforce
  ultimately show ?case using Cons.prems(3) k by auto
qed simp

section \<open>Insertion\<close>

text \<open>
  \<open>ins_rel p w xs ys\<close>: \<open>ys\<close> is \<open>xs\<close> with the entry at position \<open>p\<close> set to \<open>w\<close>; the entries
  at other odd positions stay, separators may come and go, and no position lies outside the
  range of the old ones and \<open>p\<close>.
\<close>

definition hull :: "int set \<Rightarrow> int set \<Rightarrow> bool" where
  "hull A B \<longleftrightarrow> (\<forall>y \<in> B. (\<exists>a \<in> A. a \<le> y) \<and> (\<exists>b \<in> A. y \<le> b))"

definition ins_rel :: "int \<Rightarrow> gobytes \<Rightarrow> item list \<Rightarrow> item list \<Rightarrow> bool" where
  "ins_rel p w xs ys \<longleftrightarrow>
     asc ys \<and> (\<forall>x. odd x \<longrightarrow> map_of ys x = ((map_of xs)(p \<mapsto> w)) x) \<and>
     hull (insert p (fst ` set xs)) (fst ` set ys)"

lemma ins_rel_single:
  "ins_rel p w [] [(p, w)]" "ins_rel p w [(p, v)] [(p, w)]"
  by (auto simp: ins_rel_def hull_def)

lemma hull_bounds:
  "hull A B \<Longrightarrow> \<forall>a \<in> A. l < a \<Longrightarrow> y \<in> B \<Longrightarrow> (l::int) < y"
  "hull A B \<Longrightarrow> \<forall>a \<in> A. a < u \<Longrightarrow> y \<in> B \<Longrightarrow> y < (u::int)"
  unfolding hull_def by (meson less_le_trans le_less_trans)+

lemma hullD:
  "hull A B \<Longrightarrow> y \<in> B \<Longrightarrow> \<exists>a \<in> A. a \<le> y" "hull A B \<Longrightarrow> y \<in> B \<Longrightarrow> \<exists>b \<in> A. y \<le> b"
  by (auto simp: hull_def)

lemma hull_insert: "hull A B \<Longrightarrow> a \<in> A \<Longrightarrow> a \<le> y \<Longrightarrow> b \<in> A \<Longrightarrow> y \<le> b \<Longrightarrow> hull A (insert y B)"
  by (auto simp: hull_def)

lemma ins_rel_context:
  assumes rel: "ins_rel p w xs ys" and asc: "asc (l @ xs @ r)"
    and l: "\<forall>x \<in> set l. fst x < p" and r: "\<forall>x \<in> set r. p < fst x"
  shows "ins_rel p w (l @ xs @ r) (l @ ys @ r)"
proof -
  have h: "hull (insert p (fst ` set xs)) (fst ` set ys)" and a: "asc ys"
    and m: "\<forall>x. odd x \<longrightarrow> map_of ys x = ((map_of xs)(p \<mapsto> w)) x"
    using rel by (simp_all add: ins_rel_def)
  have lo: "fst x < fst y" if "x \<in> set l" "y \<in> set ys" for x y
    using hull_bounds(1)[OF h, of "fst x" "fst y"] that asc l by (auto simp: asc_append)
  have hi: "fst y < fst x" if "x \<in> set r" "y \<in> set ys" for x y
    using hull_bounds(2)[OF h, of "fst x" "fst y"] that asc r by (auto simp: asc_append)
  have "asc (l @ ys @ r)"
    using a asc lo hi by (auto simp: asc_append)
  moreover have "map_of (l @ ys @ r) x = ((map_of (l @ xs @ r))(p \<mapsto> w)) x" if "odd x" for x
  proof -
    have pl: "map_of l p = None" "map_of r p = None" using l r by (auto simp: map_of_eq_None_iff)
    show ?thesis
      using m that pl by (auto simp: map_add_def split: option.splits)
  qed
  moreover have "hull (insert p (fst ` set (l @ xs @ r))) (fst ` set (l @ ys @ r))"
    using h unfolding hull_def by (auto intro: order_refl)
  ultimately show ?thesis by (simp add: ins_rel_def)
qed

text \<open>A new separator right before an entry that is not the first.\<close>

lemma ins_rel_sep:
  assumes rel: "ins_rel p w xs (l @ (2 * c + 1, v) # r)" and l: "\<forall>x \<in> set l. odd (fst x)"
    and ne: "l \<noteq> []"
  shows "ins_rel p w xs (l @ (2 * c, None) # (2 * c + 1, v) # r)"
proof -
  let ?ys = "l @ (2 * c + 1, v) # r" and ?zs = "l @ (2 * c, None) # (2 * c + 1, v) # r"
  have a: "asc ?ys" and h: "hull (insert p (fst ` set xs)) (fst ` set ?ys)"
    and m: "\<forall>x. odd x \<longrightarrow> map_of ?ys x = ((map_of xs)(p \<mapsto> w)) x"
    using rel by (simp_all add: ins_rel_def)
  have lt: "fst x < 2 * c" if "x \<in> set l" for x
  proof -
    have "fst x < 2 * c + 1" using a that by (auto simp: asc_append)
    moreover have "fst x \<noteq> 2 * c" using l that by auto
    ultimately show ?thesis by linarith
  qed
  have "asc ?zs" using a lt by (auto simp: asc_append)
  moreover have "map_of ?zs x = map_of ?ys x" if "odd x" for x
    using that by (auto simp: map_add_def split: option.splits)
  moreover have "hull (insert p (fst ` set xs)) (fst ` set ?zs)"
  proof -
    obtain y where y: "y \<in> set l" using ne by (cases l) auto
    have in_ys: "fst y \<in> fst ` set ?ys" "2 * c + 1 \<in> fst ` set ?ys" using y by auto
    obtain lo where lo: "lo \<in> insert p (fst ` set xs)" "lo \<le> fst y"
      using hullD(1)[OF h in_ys(1)] by blast
    obtain hi where hi: "hi \<in> insert p (fst ` set xs)" "2 * c + 1 \<le> hi"
      using hullD(2)[OF h in_ys(2)] by blast
    have "lo \<le> 2 * c" "2 * c \<le> hi" using lt[OF y] lo(2) hi(2) by linarith+
    from hull_insert[OF h lo(1) this(1) hi(1) this(2)]
    show ?thesis by (simp add: insert_commute)
  qed
  ultimately show ?thesis using m by (simp add: ins_rel_def)
qed

end
