(* ===== verification/TreeInv.thy ===== *)
theory TreeInv
  imports TreeOps AbsTree
begin

text \<open>
  When the pages of a file represent a tree, and the proof that insertRec keeps it so.
\<close>

definition node_cell :: "key \<times> gobytes \<Rightarrow> bt \<Rightarrow> cell" where
  "node_cell e t = (fst e, snd e, root_id t)"

definition leaf_cell :: "key \<times> gobytes \<Rightarrow> cell" where
  "leaf_cell e = (fst e, snd e, 0)"

text \<open>The next pointers of a list of leaves.\<close>

fun chain :: "(page_id \<Rightarrow> page) \<Rightarrow> page_id list \<Rightarrow> page_id \<Rightarrow> bool" where
  "chain P [] nx = True"
| "chain P (i # is) nx = (u32_at (P i) 9 = hd (is @ [nx]) \<and> chain P is nx)"

lemma chain_append: "chain P (xs @ ys) nx \<longleftrightarrow> chain P xs (hd (ys @ [nx])) \<and> chain P ys nx"
  by (induction xs) (auto simp: hd_append)

lemma chain_cong: "\<forall>i \<in> set is. P' i = P i \<Longrightarrow> chain P' is nx = chain P is nx"
  by (induction "is") auto

lemma leaves_ids: "set (leaves t) \<subseteq> set (ids t)"
  by (induction t) auto

lemma root_in_ids: "root_id t \<in> set (ids t)"
  by (cases t) auto

lemma leaves_nonempty: "bal h t \<Longrightarrow> leaves t \<noteq> []"
proof (induction t arbitrary: h)
  case (Nd i ts ks)
  then obtain u us where "ts = u # us" by (cases ts) auto
  then show ?case using Nd.IH[of u "h - 1"] Nd.prems by auto
qed simp

lemma poke_same [simp]: "poke a (bufs s a) s = s"
  by (simp add: poke_def)

lemma glen_value: "glen (Some (gbytes v)) = glen v"
  by (simp add: glen_def)

lemma sint_le: "sint (a :: key) < sint b \<or> a = b \<longleftrightarrow> sint a \<le> sint b"
  unfolding sint_inject[symmetric] by arith

lemma pos_less: "sint (a :: key) < sint b \<longleftrightarrow> pos a < pos b" "sint a \<le> sint b \<longleftrightarrow> 2 * sint a < pos b"
  by arith+

text \<open>The position of a bound in an ascending list.\<close>

lemma takeWhile_split:
  fixes f :: "'a \<Rightarrow> int"
  assumes "sorted_wrt (<) (map f xs)"
  obtains idx where "idx \<le> length xs" "\<And>e. e \<in> set (take idx xs) \<Longrightarrow> f e < b"
    "\<And>e. e \<in> set (drop idx xs) \<Longrightarrow> b \<le> f e"
proof -
  define idx where "idx = length (takeWhile (\<lambda>e. f e < b) xs)"
  have t: "take idx xs = takeWhile (\<lambda>e. f e < b) xs" "drop idx xs = dropWhile (\<lambda>e. f e < b) xs"
    unfolding idx_def by (rule takeWhile_eq_take[symmetric], rule dropWhile_eq_drop[symmetric])
  have "b \<le> f e" if e: "e \<in> set (drop idx xs)" for e
  proof -
    obtain y ys where y: "drop idx xs = y # ys" using e by (cases "drop idx xs") auto
    then have "dropWhile (\<lambda>e. f e < b) xs = y # ys" using t(2) by simp
    then have "\<not> f y < b" using hd_dropWhile[of "\<lambda>e. f e < b" xs] by simp
    moreover have "sorted_wrt (<) (map f (y # ys))"
      using sorted_wrt_drop[OF assms, of idx] y by (simp add: drop_map)
    ultimately show ?thesis using e y by fastforce
  qed
  moreover have "f e < b" if "e \<in> set (take idx xs)" for e
    using that t(1) by (metis set_takeWhileD)
  moreover have "idx \<le> length xs" by (simp add: idx_def length_takeWhile_le)
  ultimately show thesis using that by blast
qed

context tree_codec
begin

abbreviation cu :: bool where "cu \<equiv> CopyUpLeaves acc"

fun tree_at :: "nat \<Rightarrow> nat \<Rightarrow> (page_id \<Rightarrow> page) \<Rightarrow> bt \<Rightarrow> bool" where
  "tree_at l ps P (Lf i xs) \<longleftrightarrow>
     length (P i) = ps \<and> (\<forall>e \<in> set xs. glen (snd e) = l) \<and>
     node_rep enc norm True (P i) (map leaf_cell xs) (ps - length xs * sz l True)"
| "tree_at l ps P (Nd i ts ks) \<longleftrightarrow>
     length (P i) = ps \<and> length ts = Suc (length ks) \<and>
     (\<not> cu \<longrightarrow> (\<forall>e \<in> set ks. glen (snd e) = l)) \<and>
     node_rep enc norm False (P i) (map2 node_cell ks ts) (ps - length ks * sz l False) \<and>
     u32_at (P i) 5 = root_id (last ts) \<and> (\<forall>t \<in> set ts. tree_at l ps P t)"

lemma tree_at_cong: "\<forall>i \<in> set (ids t). P' i = P i \<Longrightarrow> tree_at l ps P' t = tree_at l ps P t"
  by (induction t) auto

definition tree_geom :: "nat \<Rightarrow> nat \<Rightarrow> bool" where
  "tree_geom l ps \<longleftrightarrow> l < 65536 \<and> (\<forall>leaf. node_geom ps (sz l leaf))"

section \<open>Binary search\<close>

lemma before_leaf: "before True key (leaf_cell e) \<longleftrightarrow> fst (entry_item e) < pos key"
  unfolding before_def leaf_cell_def entry_item_def fst_conv pos_less(1) by simp

lemma before_sep: "before False key (node_cell e t) \<longleftrightarrow> fst (sep_item cu e) < pos key"
proof (cases cu)
  case True
  then show ?thesis
    unfolding before_def node_cell_def sep_item_def fst_conv pos_less(2)[symmetric]
    by (simp add: sint_le)
next
  case False
  then show ?thesis
    unfolding before_def node_cell_def sep_item_def entry_item_def fst_conv pos_less(1) by simp
qed

lemma FindIdx_at:
  assumes rep: "node_rep enc norm leaf p cs c" and idx: "idx \<le> length cs"
    and lo: "\<And>i. i < idx \<Longrightarrow> before leaf key (cs ! i)"
    and hi: "\<And>i. idx \<le> i \<Longrightarrow> i < length cs \<Longrightarrow> \<not> before leaf key (cs ! i)"
  shows "FindIdx acc p key (length cs) leaf = Some idx"
proof -
  have mono: "before leaf key (cs ! i)" if "i \<le> j" "j < length cs" "before leaf key (cs ! j)" for i j
    using lo[of i] hi[of j] that by (cases "j < idx") auto
  obtain idx' where F: "FindIdx acc p key (length cs) leaf = Some idx'" "idx' \<le> length cs"
    "\<And>i. i < idx' \<Longrightarrow> before leaf key (cs ! i)"
    "\<And>i. idx' \<le> i \<Longrightarrow> i < length cs \<Longrightarrow> \<not> before leaf key (cs ! i)"
  proof (rule FindIdx_spec[OF rep])
    show "before leaf key (cs ! i)" if "i \<le> j" "j < length cs" "before leaf key (cs ! j)" for i j
      by (rule mono[OF that])
  qed blast
  have "idx' = idx"
    using lo[of idx'] hi[of idx] F(3)[of idx] F(4)[of idx'] F(2) idx
    by (cases idx idx' rule: linorder_cases) auto
  with F(1) show ?thesis by simp
qed

section \<open>One step of the recursion\<close>

lemma insertRec_node:
  assumes inv: "pager_inv {} s" and i: "i < pageCount s"
    and rep: "node_rep enc norm leaf (disk_page s i) cs c"
    and idx: "FindIdx acc (disk_page s i) key (length cs) leaf = Some idx" "idx \<le> length cs"
  obtains a s1 where "pager_inv {} s1" "owns_buf s1 i a" "bufs s1 a = disk_page s i"
    "disk_page s1 = disk_page s" "pageCount s1 = pageCount s" "PageSize s1 = PageSize s"
    "idx < length cs \<Longrightarrow> fst (cs ! idx) = key \<Longrightarrow> glen v \<le> glen (fst (snd (cs ! idx))) \<Longrightarrow>
      insertRec acc i key v s = do {
        p1 \<leftarrow> OverwriteValue acc (disk_page s i) idx v leaf;
        Some (returned (Write i a (poke a p1 s1))) }"
    "idx = length cs \<or> fst (cs ! idx) \<noteq> key \<Longrightarrow> leaf \<Longrightarrow>
      insertRec acc i key v s = doInsert acc i a (length cs) idx key v 0 s1"
    "idx = length cs \<or> fst (cs ! idx) \<noteq> key \<Longrightarrow> \<not> leaf \<Longrightarrow>
      insertRec acc i key v s = do {
        childID \<leftarrow> ChildAt acc (disk_page s i) idx (length cs);
        (r, s3) \<leftarrow> insertRec acc childID key v s1;
        (case r of
           Inl e \<Rightarrow> Some (Inl e, s3)
         | Inr None \<Rightarrow> Some (Inr None, s3)
         | Inr (Some (mk, mv, rc)) \<Rightarrow>
             (case Read i s3 of
                (Inl e, s4) \<Rightarrow> Some (Inl e, s4)
              | (Inr b, s4) \<Rightarrow> do {
                  let q = bufs s4 b;
                  n2 \<leftarrow> NumCells q;
                  idx2 \<leftarrow> FindIdx acc q mk n2 False;
                  doInsert acc i b n2 idx2 mk mv rc s4
                })) }"
proof -
  obtain a s1 where R: "Read i s = (Inr a, s1)" "pager_inv {} s1" "owns_buf s1 i a"
    "bufs s1 a = disk_page s i" "disk_page s1 = disk_page s" "pageCount s1 = pageCount s"
    "PageSize s1 = PageSize s"
    using pg.read_law[OF inv i] by blast
  note N = node_repD[OF rep]
  have poke1: "poke a (disk_page s i) s1 = s1" using poke_same[of a s1] R(4) by simp
  have rd: "ReadCell acc (disk_page s i) idx leaf = Some (cs ! idx)" if "idx < length cs"
    by (rule node_read[OF rep that])
  obtain k0 v0 c0 where c0: "cs ! idx = (k0, v0, c0)" by (metis prod_cases3)
  show thesis
  proof (rule that[OF R(2-7)])
    assume "idx < length cs" "fst (cs ! idx) = key" "glen v \<le> glen (fst (snd (cs ! idx)))"
    then show "insertRec acc i key v s = do {
        p1 \<leftarrow> OverwriteValue acc (disk_page s i) idx v leaf;
        Some (returned (Write i a (poke a p1 s1))) }"
      by (subst insertRec.simps) (simp add: R(1,4) N(5,6) idx(1) rd c0)
  next
    assume "idx = length cs \<or> fst (cs ! idx) \<noteq> key" "leaf"
    then show "insertRec acc i key v s = doInsert acc i a (length cs) idx key v 0 s1"
      using idx rd
      by (subst insertRec.simps, cases "idx < length cs") (simp_all add: R(1,4) N(5,6) c0 poke1 Let_def)
  next
    assume "idx = length cs \<or> fst (cs ! idx) \<noteq> key" "\<not> leaf"
    then show "insertRec acc i key v s = do {
        childID \<leftarrow> ChildAt acc (disk_page s i) idx (length cs);
        (r, s3) \<leftarrow> insertRec acc childID key v s1;
        (case r of
           Inl e \<Rightarrow> Some (Inl e, s3)
         | Inr None \<Rightarrow> Some (Inr None, s3)
         | Inr (Some (mk, mv, rc)) \<Rightarrow>
             (case Read i s3 of
                (Inl e, s4) \<Rightarrow> Some (Inl e, s4)
              | (Inr b, s4) \<Rightarrow> do {
                  let q = bufs s4 b;
                  n2 \<leftarrow> NumCells q;
                  idx2 \<leftarrow> FindIdx acc q mk n2 False;
                  doInsert acc i b n2 idx2 mk mv rc s4
                })) }"
      using idx rd
      by (subst insertRec.simps, cases "idx < length cs") (simp_all add: R(1,4) N(5,6) c0 poke1 Let_def)
  qed
qed

section \<open>Inserting into a leaf\<close>

definition sep_val :: "gobytes \<Rightarrow> gobytes" where
  "sep_val v = (if cu then None else Some (gbytes v))"

text \<open>
  The result of insertRec and the subtree, or the two subtrees with a separator, that stand
  in for the old one.
\<close>

definition res_ok :: "nat \<Rightarrow> split_result \<Rightarrow> bt list \<Rightarrow> (key \<times> gobytes) list \<Rightarrow> bool" where
  "res_ok l r ts ks \<longleftrightarrow>
     (r = Inr None \<and> ks = [] \<and> length ts = 1) \<or>
     (\<exists>k pv t1 t2. r = Inr (Some (k, pv, root_id t2)) \<and> ts = [t1, t2] \<and> ks = [(k, sep_val pv)] \<and>
        glen pv < 65536 \<and> (\<not> cu \<longrightarrow> glen pv = l))"

definition ins_ok ::
  "nat \<Rightarrow> nat \<Rightarrow> nat \<Rightarrow> int \<Rightarrow> gobytes \<Rightarrow> bt \<Rightarrow> pager \<Rightarrow> pager \<Rightarrow> bt list \<Rightarrow> (key \<times> gobytes) list \<Rightarrow> bool"
where
  "ins_ok l ps h p w t s s' ts ks \<longleftrightarrow>
     pager_inv {} s' \<and> PageSize s' = ps \<and>
     length ts = Suc (length ks) \<and> root_id (hd ts) = root_id t \<and>
     (\<forall>u \<in> set ts. bal h u \<and> full u \<and> tree_at l ps (disk_page s') u) \<and>
     ins_rel p w (items cu t) (weave (map (items cu) ts) (map (sep_item cu) ks)) \<and>
     pageCount s \<le> pageCount s' \<and> pageCount s' \<le> pageCount s + Suc h \<and>
     distinct (concat (map ids ts)) \<and>
     set (concat (map ids ts)) = set (ids t) \<union> {pageCount s..<pageCount s'} \<and>
     (\<forall>j < pageCount s. j \<notin> set (ids t) \<longrightarrow> disk_page s' j = disk_page s j) \<and>
     hd (leaves (hd ts)) = hd (leaves t) \<and>
     (cu \<longrightarrow> (\<forall>nx. chain (disk_page s) (leaves t) nx \<longrightarrow>
        chain (disk_page s') (concat (map leaves ts)) nx))"

lemma leaf_cell_map: "map leaf_cell (take n xs) = take n (map leaf_cell xs)"
  "map leaf_cell (drop n xs) = drop n (map leaf_cell xs)"
  by (simp_all add: take_map drop_map)

lemma leaf_items_split:
  assumes cu: "cu" and mid: "0 < m" "m < length xs"
    and rel: "ins_rel p w ys (map entry_item xs)"
  shows "ins_rel p w ys (map entry_item (take m xs) @
    (2 * sint (fst (xs ! m)), None) # map entry_item (drop m xs))"
proof -
  obtain k v where e: "xs ! m = (k, v)" by (cases "xs ! m")
  have d: "drop m xs = (k, v) # drop (Suc m) xs"
    using mid(2) e by (simp add: Cons_nth_drop_Suc[symmetric])
  have d2: "map entry_item (drop m xs) = (2 * sint k + 1, v) # map entry_item (drop (Suc m) xs)"
    unfolding d by (simp add: entry_item_def)
  have "map entry_item xs = map entry_item (take m xs) @ map entry_item (drop m xs)"
    by (metis append_take_drop_id map_append)
  then have "ins_rel p w ys (map entry_item (take m xs) @
      (2 * sint k + 1, v) # map entry_item (drop (Suc m) xs))"
    using rel d2 by simp
  moreover have "\<forall>x \<in> set (map entry_item (take m xs)). odd (fst x)" by (auto simp: entry_item_def)
  moreover have "map entry_item (take m xs) \<noteq> []" using mid by auto
  ultimately show ?thesis unfolding d2 e fst_conv by (rule ins_rel_sep)
qed

lemma leaf_outcome:
  assumes out: "insert_outcome True (sz l True) i (disk_page s i) (map leaf_cell xs2) rm s1 r s'"
    and s1: "disk_page s1 = disk_page s" "pageCount s1 = pageCount s" "PageSize s1 = ps"
    and i: "i < pageCount s" and l: "\<forall>e \<in> set xs2. glen (snd e) = l" and ne: "xs2 \<noteq> []"
    and rel: "ins_rel p w (items cu (Lf i xs)) (map entry_item xs2)"
  shows "\<exists>ts ks. res_ok l r ts ks \<and> ins_ok l ps 0 p w (Lf i xs) s s' ts ks"
proof -
  let ?u = "sz l True" and ?m = "length xs2 div 2"
  have O: "pager_inv {} s'" "PageSize s' = ps" using out s1 by (simp_all add: insert_outcome_def)
  from out[unfolded insert_outcome_def] consider
    (one) q where "r = Inr None" "pageCount s' = pageCount s" "disk_page s' = (disk_page s)(i := q)"
      "length q = ps" "node_rep enc norm True q (map leaf_cell xs2) (ps - length xs2 * ?u)"
      "u32_at q 9 = u32_at (disk_page s i) 9"
  | (two) pv where "r = Inr (Some (fst (map leaf_cell xs2 ! ?m), pv, pageCount s))" "glen pv < 65536"
      "\<not> cu \<longrightarrow> Some (gbytes pv) = fst (snd (map leaf_cell xs2 ! ?m))"
      "pageCount s' = Suc (pageCount s)" "3 \<le> length xs2"
      "\<forall>j < pageCount s. j \<noteq> i \<longrightarrow> disk_page s' j = disk_page s j"
      "length (disk_page s' i) = ps" "length (disk_page s' (pageCount s)) = ps"
      "node_rep enc norm True (disk_page s' i) (take ?m (map leaf_cell xs2)) (ps - ?m * ?u)"
      "node_rep enc norm True (disk_page s' (pageCount s)) (drop (split_right True ?m) (map leaf_cell xs2))
        (ps - (length xs2 - split_right True ?m) * ?u)"
      "cu \<longrightarrow> u32_at (disk_page s' i) 9 = pageCount s \<and>
        u32_at (disk_page s' (pageCount s)) 9 = u32_at (disk_page s i) 9"
    unfolding s1 length_map Let_def by blast
  then show ?thesis
  proof cases
    case one
    have "ins_ok l ps 0 p w (Lf i xs) s s' [Lf i xs2] []"
      unfolding ins_ok_def using O one rel l ne by simp
    moreover have "res_ok l r [Lf i xs2] []" using one by (simp add: res_ok_def)
    ultimately show ?thesis by blast
  next
    case two
    let ?n = "pageCount s" and ?st = "split_right True ?m"
    let ?ts = "[Lf i (take ?m xs2), Lf ?n (drop ?st xs2)]"
    let ?ks = "[(fst (xs2 ! ?m), sep_val pv)]"
    have m: "0 < ?m" "?m < length xs2" "?st < length xs2" "?st \<le> length xs2"
      using two(5) by (auto simp: split_right_def)
    have key: "fst (map leaf_cell xs2 ! ?m) = fst (xs2 ! ?m)"
      "fst (snd (map leaf_cell xs2 ! ?m)) = snd (xs2 ! ?m)"
      using m(2) by (simp_all add: leaf_cell_def)
    have lm: "glen (snd (xs2 ! ?m)) = l" using l m(2) by simp
    have rel2: "ins_rel p w (items cu (Lf i xs))
        (weave (map (items cu) ?ts) (map (sep_item cu) ?ks))"
    proof (cases cu)
      case True
      then have "weave (map (items cu) ?ts) (map (sep_item cu) ?ks) = map entry_item (take ?m xs2) @
          (2 * sint (fst (xs2 ! ?m)), None) # map entry_item (drop ?m xs2)"
        by (simp add: split_right_def sep_item_def)
      then show ?thesis using leaf_items_split[OF True m(1,2) rel] by simp
    next
      case False
      have "sep_val pv = snd (xs2 ! ?m)" using two(3) False key by (simp add: sep_val_def)
      then have "weave (map (items cu) ?ts) (map (sep_item cu) ?ks) = map entry_item
          (take ?m xs2 @ xs2 ! ?m # drop (Suc ?m) xs2)"
        using False by (simp add: split_right_def sep_item_def)
      then show ?thesis using rel m(2) by (simp add: id_take_nth_drop[symmetric])
    qed
    have t: "\<forall>u \<in> set ?ts. bal 0 u \<and> full u \<and> tree_at l ps (disk_page s') u"
      using two m l by (auto simp: leaf_cell_map min_def dest: in_set_takeD in_set_dropD)
    have "ins_ok l ps 0 p w (Lf i xs) s s' ?ts ?ks"
      unfolding ins_ok_def using O two(4,6,11) rel2 t i by auto
    moreover have "res_ok l r ?ts ?ks"
    proof -
      have "\<not> cu \<longrightarrow> glen pv = l" using two(3) key lm by (metis glen_value)
      then show ?thesis using two(1,2) key(1) by (auto simp: res_ok_def)
    qed
    ultimately show ?thesis by blast
  qed
qed

lemma leaf_insert:
  assumes geom: "tree_geom l ps" "PageSize s = ps" and inv: "pager_inv {} s" "i < pageCount s"
    and t: "tree_at l ps (disk_page s) (Lf i xs)" and asc: "asc (items cu (Lf i xs))"
    and v: "glen v = l" and lim: "pageCount s < page_limit ps" "pageCount s < 2 ^ 32"
  shows "\<exists>r s' ts ks. insertRec acc i key v s = Some (r, s') \<and> res_ok l r ts ks \<and>
    ins_ok l ps 0 (pos key) (Some (gbytes v)) (Lf i xs) s s' ts ks"
proof -
  let ?P = "disk_page s" and ?u = "sz l True" and ?w = "Some (gbytes v)"
  let ?cs = "map leaf_cell xs"
  have T: "length (?P i) = ps" "\<forall>e \<in> set xs. glen (snd e) = l"
    "node_rep enc norm True (?P i) ?cs (ps - length ?cs * ?u)"
    using t by simp_all
  have asc': "sorted_wrt (<) (map (\<lambda>e. fst (entry_item e)) xs)"
    using asc by (simp add: asc_def comp_def)
  obtain idx where idx: "idx \<le> length xs"
    "\<And>e. e \<in> set (take idx xs) \<Longrightarrow> fst (entry_item e) < pos key"
    "\<And>e. e \<in> set (drop idx xs) \<Longrightarrow> pos key \<le> fst (entry_item e)"
    using takeWhile_split[OF asc', of "pos key"] by blast
  have F: "FindIdx acc (?P i) key (length ?cs) True = Some idx"
  proof (rule FindIdx_at[OF T(3)])
    show "before True key (?cs ! j)" if "j < idx" for j
    proof -
      have "take idx xs ! j \<in> set (take idx xs)" by (rule nth_mem) (use that idx(1) in simp)
      then have "xs ! j \<in> set (take idx xs)" using that by simp
      then show ?thesis using idx(2) that idx(1) by (simp add: before_leaf)
    qed
    show "\<not> before True key (?cs ! j)" if "idx \<le> j" "j < length ?cs" for j
    proof -
      have "drop idx xs ! (j - idx) \<in> set (drop idx xs)" by (rule nth_mem) (use that in simp)
      then have "xs ! j \<in> set (drop idx xs)" using that by simp
      from idx(3)[OF this] show ?thesis using that by (simp add: before_leaf)
    qed
  qed (use idx(1) in simp)
  show ?thesis
  proof (cases "idx < length xs \<and> fst (xs ! idx) = key")
    case True
    obtain v0 where x0: "xs ! idx = (key, v0)" using True by (cases "xs ! idx") auto
    let ?xs = "xs[idx := (key, ?w)]"
    have i0: "idx < length ?cs" "?cs ! idx = (key, v0, 0)" using True x0 by (simp_all add: leaf_cell_def)
    have v0: "glen v \<le> glen v0" using T(2) True x0 v by (metis nth_mem snd_conv order_refl)
    obtain a s1 where N: "pager_inv {} s1" "owns_buf s1 i a" "disk_page s1 = ?P"
      "pageCount s1 = pageCount s" "PageSize s1 = ps"
      "insertRec acc i key v s = do {
        p1 \<leftarrow> OverwriteValue acc (?P i) idx v True;
        Some (returned (Write i a (poke a p1 s1))) }"
      by (rule insertRec_node[OF inv T(3) F, of v]) (use i0 v0 geom(2) in auto)
    obtain q where Q: "OverwriteValue acc (?P i) idx v True = Some q" "length q = ps"
      "node_rep enc norm True q (?cs[idx := norm True (key, v, 0)]) (ps - length ?cs * ?u)"
      "u32_at q 9 = u32_at (?P i) 9"
      using OverwriteValue_spec[OF T(3) i0 v0] T(1) by metis
    have cells: "?cs[idx := norm True (key, v, 0)] = map leaf_cell ?xs"
      by (simp add: norm_form leaf_cell_def map_update)
    obtain s' where W: "Write i a (poke a q s1) = (Inr (), s')" "pager_inv {} s'"
      "disk_page s' = ?P(i := q)" "pageCount s' = pageCount s" "PageSize s' = ps"
      using pg.assign_write[OF N(1) _ N(2), of q] inv(2) N(3-5) Q(2) by auto
    have "ins_rel (pos key) ?w (items cu (Lf i xs)) (map entry_item ?xs)"
    proof -
      have x: "xs = take idx xs @ (key, v0) # drop (Suc idx) xs"
        using True x0 by (metis id_take_nth_drop)
      have y: "?xs = take idx xs @ (key, ?w) # drop (Suc idx) xs"
        using True by (simp add: upd_conv_take_nth_drop)
      let ?l = "map entry_item (take idx xs)" and ?r = "map entry_item (drop (Suc idx) xs)"
      have xi: "items cu (Lf i xs) = ?l @ [(pos key, v0)] @ ?r"
        by (subst x) (simp add: entry_item_def)
      have yi: "map entry_item ?xs = ?l @ [(pos key, ?w)] @ ?r"
        by (subst y) (simp add: entry_item_def)
      have A: "asc (?l @ [(pos key, v0)] @ ?r)" using asc xi by simp
      show ?thesis unfolding xi yi
        by (rule ins_rel_context[OF ins_rel_single(2) A]) (use A in \<open>auto simp: asc_append\<close>)
    qed
    moreover have "\<forall>e \<in> set ?xs. glen (snd e) = l"
      using T(2) v set_update_subset_insert[of xs idx "(key, ?w)"] by (auto simp: glen_def)
    ultimately have "ins_ok l ps 0 (pos key) ?w (Lf i xs) s s' [Lf i ?xs] []"
      unfolding ins_ok_def using W(2-5) Q(2-4)[unfolded cells] True by auto
    moreover have "insertRec acc i key v s = Some (Inr None, s')"
      using N(6) Q(1) W(1) by (simp add: returned_def)
    moreover have "res_ok l (Inr None) [Lf i ?xs] []" by (simp add: res_ok_def)
    ultimately show ?thesis by blast
  next
    case False
    let ?xs = "take idx xs @ (key, ?w) # drop idx xs"
    have nf: "idx = length ?cs \<or> fst (?cs ! idx) \<noteq> key"
      using False idx(1) by (auto simp: leaf_cell_def)
    obtain a s1 where N: "pager_inv {} s1" "owns_buf s1 i a" "bufs s1 a = ?P i" "disk_page s1 = ?P"
      "pageCount s1 = pageCount s" "PageSize s1 = ps"
      "insertRec acc i key v s = doInsert acc i a (length ?cs) idx key v 0 s1"
      by (rule insertRec_node[OF inv T(3) F, of v]) (use nf idx(1) geom(2) in auto)
    have nc: "new_child True p cs j = 0" for p cs j by (simp add: new_child_def)
    have cells: "inserted True ?cs idx (norm True (key, v, 0)) 0 = map leaf_cell ?xs"
      by (simp add: inserted_def norm_form leaf_cell_def take_map drop_map)
    have used: "length ?cs * ?u \<le> ps" using node_repD(3)[OF T(3)] by simp
    have sizes: "\<forall>y \<in> set ?cs. CellSize acc True (fst (snd y)) = ?u" "CellSize acc True v = ?u"
      using T(2) v size_value by (auto simp: leaf_cell_def)
    have g: "node_geom (PageSize s1) ?u" "glen v < 65536"
      using geom(1) v N(6) by (auto simp: tree_geom_def)
    obtain r s' where D: "doInsert acc i a (length ?cs) idx key v 0 s1 = Some (r, s')"
      "insert_outcome True ?u i (?P i) (map leaf_cell ?xs) (new_right True (?P i) ?cs idx 0) s1 r s'"
      using doInsert_spec[where cs = ?cs and leaf = True and idx = idx and v = v and rc = 0 and k = key,
          OF g(1) N(1) _ _ N(2)]
        T N(3-6) idx(1) inv(2) lim sizes g(2) used cells nc by auto
    have rel: "ins_rel (pos key) ?w (items cu (Lf i xs)) (map entry_item ?xs)"
    proof -
      let ?l = "map entry_item (take idx xs)" and ?r = "map entry_item (drop idx xs)"
      have xi: "items cu (Lf i xs) = ?l @ [] @ ?r" by (simp flip: map_append)
      have yi: "map entry_item ?xs = ?l @ [(pos key, ?w)] @ ?r" by (simp add: entry_item_def)
      have A: "asc (?l @ [] @ ?r)" using asc xi by simp
      have "pos key < fst x" if x: "x \<in> set ?r" for x
      proof -
        obtain y ys where y: "drop idx xs = y # ys" using x by (cases "drop idx xs") auto
        then have "idx < length xs" "xs ! idx = y" using idx(1)
          by (metis drop_eq_Nil leI list.distinct(1), metis nth_via_drop)
        then have "fst y \<noteq> key" using False by simp
        then have "fst (entry_item y) \<noteq> pos key" using sint_inject by (simp add: entry_item_def)
        then have "pos key < fst (entry_item y)" using idx(3)[of y] y by simp
        moreover have "asc (map entry_item (y # ys))" using A y by (simp add: asc_append)
        ultimately show ?thesis using x y by auto
      qed
      then show ?thesis unfolding xi yi using idx(2)
        by (intro ins_rel_context[OF ins_rel_single(1) A]) auto
    qed
    have "\<forall>e \<in> set ?xs. glen (snd e) = l"
      using T(2) v by (auto simp: glen_def dest: in_set_takeD in_set_dropD)
    from leaf_outcome[OF D(2) N(4-6) inv(2) this _ rel] N(7) D(1) show ?thesis by auto
  qed
qed

section \<open>Inserting into an internal node\<close>

text \<open>
  \<open>node_grown\<close>: after the recursive call, the node \<open>t\<close> on page \<open>i\<close> should have the subtrees
  \<open>us\<close> and the keys \<open>vs\<close>; everything below page \<open>i\<close> is already in place.
\<close>

definition node_grown ::
  "nat \<Rightarrow> nat \<Rightarrow> nat \<Rightarrow> int \<Rightarrow> gobytes \<Rightarrow> page_id \<Rightarrow> bt \<Rightarrow> pager \<Rightarrow> pager \<Rightarrow> bt list \<Rightarrow> (key \<times> gobytes) list \<Rightarrow> bool"
where
  "node_grown l ps h p w i t s s3 us vs \<longleftrightarrow>
     root_id t = i \<and> i < pageCount s \<and> set (ids t) \<subseteq> {..<pageCount s} \<and> vs \<noteq> [] \<and> length us = Suc (length vs) \<and>
     (\<forall>u \<in> set us. bal h u \<and> full u \<and> tree_at l ps (disk_page s3) u) \<and>
     (\<not> cu \<longrightarrow> (\<forall>e \<in> set vs. glen (snd e) = l)) \<and>
     ins_rel p w (items cu t) (weave (map (items cu) us) (map (sep_item cu) vs)) \<and>
     pageCount s \<le> pageCount s3 \<and> pageCount s3 \<le> pageCount s + Suc h \<and>
     distinct (i # concat (map ids us)) \<and>
     set (i # concat (map ids us)) = set (ids t) \<union> {pageCount s..<pageCount s3} \<and>
     (\<forall>j < pageCount s. j \<notin> set (ids t) \<longrightarrow> disk_page s3 j = disk_page s j) \<and>
     hd (concat (map leaves us)) = hd (leaves t) \<and>
     (cu \<longrightarrow> (\<forall>nx. chain (disk_page s) (leaves t) nx \<longrightarrow>
        chain (disk_page s3) (concat (map leaves us)) nx))"

lemma zip_take_more: "zip (take m xs) (take (Suc m) ys) = take m (zip xs ys)"
  by (rule nth_equalityI) auto

lemma map2_take: "map2 f (take m xs) (take (Suc m) ys) = take m (map2 f xs ys)"
  by (simp add: zip_take_more take_map)

lemma map2_drop: "map2 f (drop m xs) (drop m ys) = drop m (map2 f xs ys)"
  by (simp add: drop_zip drop_map)

lemma ids_below:
  assumes "u \<in> set us" "j \<in> set (ids u)"
  shows "j \<in> set (concat (map ids us))"
  using assms by auto

lemma hd_concat_leaves:
  "us \<noteq> [] \<Longrightarrow> \<forall>u \<in> set us. bal h u \<Longrightarrow> hd (concat (map leaves us)) = hd (leaves (hd us))"
  by (cases us) (auto simp: leaves_nonempty)

lemma node_grownD:
  assumes "node_grown l ps h p w i t s s3 us vs"
  shows "root_id t = i" "i < pageCount s" "set (ids t) \<subseteq> {..<pageCount s}" "vs \<noteq> []"
    "length us = Suc (length vs)"
    "\<forall>u \<in> set us. bal h u \<and> full u \<and> tree_at l ps (disk_page s3) u"
    "\<not> cu \<longrightarrow> (\<forall>e \<in> set vs. glen (snd e) = l)"
    "ins_rel p w (items cu t) (weave (map (items cu) us) (map (sep_item cu) vs))"
    "pageCount s \<le> pageCount s3" "pageCount s3 \<le> pageCount s + Suc h"
    "distinct (i # concat (map ids us))"
    "set (i # concat (map ids us)) = set (ids t) \<union> {pageCount s..<pageCount s3}"
    "\<forall>j < pageCount s. j \<notin> set (ids t) \<longrightarrow> disk_page s3 j = disk_page s j"
    "hd (concat (map leaves us)) = hd (leaves t)"
    "cu \<longrightarrow> (\<forall>nx. chain (disk_page s) (leaves t) nx \<longrightarrow>
        chain (disk_page s3) (concat (map leaves us)) nx)"
  using assms unfolding node_grown_def by blast+

lemma node_outcome:
  assumes out: "insert_outcome False (sz l False) i p0 (map2 node_cell vs us) (root_id (last us)) s4 r s'"
    and s4: "disk_page s4 = disk_page s3" "pageCount s4 = pageCount s3" "PageSize s4 = ps"
    and G: "node_grown l ps h p w i t s s3 us vs"
  shows "\<exists>ts ks. res_ok l r ts ks \<and> ins_ok l ps (Suc h) p w t s s' ts ks"
proof -
  let ?u = "sz l False" and ?m = "length vs div 2" and ?n = "pageCount s3"
  let ?all = "map2 node_cell vs us"
  note G' = node_grownD[OF G]
  have lall: "length ?all = length vs" using G'(5) by simp
  have nus: "us \<noteq> []" using G'(5) by auto
  have hd_us: "hd (leaves (hd us)) = hd (leaves t)"
    using hd_concat_leaves[OF nus, of h] G'(6,14) by simp
  have sub: "set (ids t) \<subseteq> {..<?n}" "pageCount s \<le> ?n" using G'(3,9) by auto
  have i: "i < ?n" "i \<notin> set (concat (map ids us))" using G'(2,9,11) by simp_all
  have it: "i \<in> set (ids t)" using G'(1) root_in_ids by blast
  have below: "j < ?n" if "j \<in> set (concat (map ids us))" for j
  proof -
    have "j \<in> set (ids t) \<union> {pageCount s..<?n}" using that G'(12) by (metis insertCI list.simps(15))
    then show ?thesis using sub by auto
  qed
  have O: "pager_inv {} s'" "PageSize s' = ps" using out s4 by (simp_all add: insert_outcome_def)
  from out[unfolded insert_outcome_def] consider
    (one) q where "r = Inr None" "pageCount s' = ?n" "disk_page s' = (disk_page s3)(i := q)"
      "length q = ps" "node_rep enc norm False q ?all (ps - length vs * ?u)"
      "u32_at q 5 = root_id (last us)"
  | (two) pv where "r = Inr (Some (fst (?all ! ?m), pv, ?n))" "glen pv < 65536"
      "\<not> cu \<longrightarrow> Some (gbytes pv) = fst (snd (?all ! ?m))"
      "pageCount s' = Suc ?n" "3 \<le> length vs"
      "\<forall>j < ?n. j \<noteq> i \<longrightarrow> disk_page s' j = disk_page s3 j"
      "length (disk_page s' i) = ps" "length (disk_page s' ?n) = ps"
      "node_rep enc norm False (disk_page s' i) (take ?m ?all) (ps - ?m * ?u)"
      "node_rep enc norm False (disk_page s' ?n) (drop (Suc ?m) ?all) (ps - (length vs - Suc ?m) * ?u)"
      "u32_at (disk_page s' i) 5 = snd (snd (?all ! ?m))"
      "u32_at (disk_page s' ?n) 5 = root_id (last us)"
    unfolding s4 lall Let_def split_right_def by auto
  then show ?thesis
  proof cases
    case one
    have same: "\<forall>j \<in> set (ids u). disk_page s' j = disk_page s3 j" if "u \<in> set us" for u
      using i(2) ids_below[OF that] one(3) by auto
    have u: "\<forall>u \<in> set us. bal h u \<and> full u \<and> tree_at l ps (disk_page s') u"
      using G' tree_at_cong[OF same] by blast
    have ch: "cu \<longrightarrow> (\<forall>nx. chain (disk_page s) (leaves t) nx \<longrightarrow>
        chain (disk_page s') (concat (map leaves us)) nx)"
    proof -
      have "\<forall>j \<in> set (concat (map leaves us)). disk_page s' j = disk_page s3 j"
        using same leaves_ids by fastforce
      then show ?thesis using G' chain_cong by metis
    qed
    have t: "\<forall>v \<in> set [Nd i us vs]. bal (Suc h) v \<and> full v \<and> tree_at l ps (disk_page s') v"
      using u G' one(3-6) by simp
    have "ins_ok l ps (Suc h) p w t s s' [Nd i us vs] []"
      unfolding ins_ok_def using O t G' one(2,3) ch it by simp
    moreover have "res_ok l r [Nd i us vs] []" using one by (simp add: res_ok_def)
    ultimately show ?thesis by blast
  next
    case two
    let ?ts = "[Nd i (take (Suc ?m) us) (take ?m vs), Nd ?n (drop (Suc ?m) us) (drop (Suc ?m) vs)]"
    let ?ks = "[(fst (vs ! ?m), sep_val pv)]"
    have lus: "length us = Suc (length vs)" using G' by simp
    have m: "0 < ?m" "?m < length vs" "Suc ?m < length vs" using two(5) by linarith+
    have nth: "?all ! ?m = node_cell (vs ! ?m) (us ! ?m)" using m(2) lus by simp
    have key: "fst (?all ! ?m) = fst (vs ! ?m)" "fst (snd (?all ! ?m)) = snd (vs ! ?m)"
      "snd (snd (?all ! ?m)) = root_id (us ! ?m)"
      unfolding nth by (simp_all add: node_cell_def)
    have last: "last (take (Suc ?m) us) = us ! ?m" "last (drop (Suc ?m) us) = last us"
      using m lus by (simp_all add: take_Suc_conv_app_nth last_drop)
    have n: "?n \<notin> set (concat (map ids us))" using below by blast
    have same: "\<forall>j \<in> set (ids u). disk_page s' j = disk_page s3 j" if "u \<in> set us" for u
      using i(2) below ids_below[OF that] two(6) by metis
    have u: "\<forall>u \<in> set us. bal h u \<and> full u \<and> tree_at l ps (disk_page s') u"
      using G' tree_at_cong[OF same] by blast
    have sep: "sep_item cu (fst (vs ! ?m), sep_val pv) = sep_item cu (vs ! ?m)"
      using two(3) key(2) by (auto simp: sep_item_def sep_val_def entry_item_def)
    have rel: "ins_rel p w (items cu t) (weave (map (items cu) ?ts) (map (sep_item cu) ?ks))"
    proof -
      have "weave (map (items cu) us) (map (sep_item cu) vs) =
          weave (map (items cu) ?ts) (map (sep_item cu) ?ks)"
        using weave_split[of "map (items cu) us" "map (sep_item cu) vs" ?m] lus m(2) sep
        by (simp add: take_map drop_map)
      then show ?thesis using G' by simp
    qed
    have t: "\<forall>v \<in> set ?ts. bal (Suc h) v \<and> full v \<and> tree_at l ps (disk_page s') v"
    proof -
      have "bal (Suc h) v \<and> full v \<and> tree_at l ps (disk_page s') v"
        if "v = Nd i (take (Suc ?m) us) (take ?m vs)" for v
        using u G' m two(7,9,11) last(1) key(3) lus that
        by (auto simp: map2_take min_def dest: in_set_takeD)
      moreover have "bal (Suc h) v \<and> full v \<and> tree_at l ps (disk_page s') v"
        if "v = Nd ?n (drop (Suc ?m) us) (drop (Suc ?m) vs)" for v
        using u G' m two(8,10,12) last(2) lus that
        by (auto simp: map2_drop dest: in_set_dropD)
      ultimately show ?thesis by simp
    qed
    have parts: "concat (map ids us) =
        concat (map ids (take (Suc ?m) us)) @ concat (map ids (drop (Suc ?m) us))"
      "concat (map leaves us) =
        concat (map leaves (take (Suc ?m) us)) @ concat (map leaves (drop (Suc ?m) us))"
      by (simp_all flip: concat_append map_append)
    have ch: "cu \<longrightarrow> (\<forall>nx. chain (disk_page s) (leaves t) nx \<longrightarrow>
        chain (disk_page s') (concat (map leaves us)) nx)"
    proof -
      have "\<forall>j \<in> set (concat (map leaves us)). disk_page s' j = disk_page s3 j"
        using same leaves_ids by fastforce
      then show ?thesis using G' chain_cong by metis
    qed
    have hd2: "hd (leaves (hd ?ts)) = hd (leaves t)"
    proof -
      have "hd (concat (map leaves (take (Suc ?m) us))) = hd (leaves (hd (take (Suc ?m) us)))"
        by (rule hd_concat_leaves[of _ h]) (use G' nus in \<open>auto dest: in_set_takeD\<close>)
      then show ?thesis using hd_us nus by simp
    qed
    have d: "distinct (concat (map ids ?ts))"
      using G' n i(2) i(1) unfolding parts(1) by auto
    have sets: "set (concat (map ids ?ts)) = set (ids t) \<union> {pageCount s..<pageCount s'}"
    proof -
      have "set (concat (map ids ?ts)) = insert ?n (set (i # concat (map ids us)))"
        unfolding parts(1) by auto
      also have "\<dots> = insert ?n (set (ids t) \<union> {pageCount s..<?n})" using G' by simp
      also have "\<dots> = set (ids t) \<union> {pageCount s..<pageCount s'}" using two(4) sub(2) by auto
      finally show ?thesis .
    qed
    have fr: "\<forall>j < pageCount s. j \<notin> set (ids t) \<longrightarrow> disk_page s' j = disk_page s j"
    proof (intro allI impI)
      fix j assume j: "j < pageCount s" "j \<notin> set (ids t)"
      then have "j \<noteq> i" "j < ?n" using it sub(2) by auto
      then show "disk_page s' j = disk_page s j" using two(6) G' j by simp
    qed
    have "ins_ok l ps (Suc h) p w t s s' ?ts ?ks"
      unfolding ins_ok_def using O t rel d sets fr hd2 ch[unfolded parts(2)] two(4) G' sub(2)
      by simp
    moreover have "res_ok l r ?ts ?ks"
    proof -
      have "glen (snd (vs ! ?m)) = l" if "\<not> cu" using G' m(2) that by simp
      then have "\<not> cu \<longrightarrow> glen pv = l" using two(3) key(2) by (metis glen_value)
      then show ?thesis using two(1,2) key(1) by (auto simp: res_ok_def)
    qed
    ultimately show ?thesis by blast
  qed
qed

text \<open>Searching an internal node whose keys are split at the searched position.\<close>

lemma FindIdx_split:
  assumes rep: "node_rep enc norm False p (map2 node_cell (ks1 @ ks2) ts) c"
    and len: "length ts = Suc (length (ks1 @ ks2))"
    and lo: "\<forall>e \<in> set ks1. fst (sep_item cu e) < pos key"
    and hi: "\<forall>e \<in> set ks2. pos key \<le> fst (sep_item cu e)"
  shows "FindIdx acc p key (length (ks1 @ ks2)) False = Some (length ks1)"
proof -
  let ?cs = "map2 node_cell (ks1 @ ks2) ts"
  have n: "length ?cs = length (ks1 @ ks2)" using len by simp
  have c: "?cs ! j = node_cell ((ks1 @ ks2) ! j) (ts ! j)" if "j < length ?cs" for j
    using that by simp
  have "FindIdx acc p key (length ?cs) False = Some (length ks1)"
  proof (rule FindIdx_at[OF rep])
    show "length ks1 \<le> length ?cs" using n by simp
    show "before False key (?cs ! j)" if "j < length ks1" for j
      using that lo n by (simp add: c before_sep nth_append del: nth_map map_map)
    show "\<not> before False key (?cs ! j)" if "length ks1 \<le> j" "j < length ?cs" for j
    proof -
      have "(ks1 @ ks2) ! j \<in> set ks2" using that n by (auto simp: nth_append intro!: nth_mem)
      then show ?thesis using hi that c[of j] by (auto simp: before_sep simp del: nth_map map_map)
    qed
  qed
  then show ?thesis using n by simp
qed

lemma asc_weave_seps: "length ts = Suc (length ks) \<Longrightarrow> asc (weave ts ks) \<Longrightarrow> asc ks"
proof (induction ts arbitrary: ks)
  case (Cons t ts)
  show ?case
  proof (cases ks)
    case (Cons k ks')
    then have "asc (weave ts ks')" "\<forall>y \<in> set (weave ts ks'). fst k < fst y" "length ts = Suc (length ks')"
      using Cons.prems by (auto simp: asc_append)
    then show ?thesis using Cons Cons.IH[of ks'] set_weave[of ts ks'] by auto
  qed simp
qed simp

lemma node_setup:
  assumes t: "tree_at l ps P (Nd i ts ks)" and asc: "asc (items cu (Nd i ts ks))"
  obtains as u bs ks1 ks2 where "ts = as @ u # bs" "ks = ks1 @ ks2" "length as = length ks1"
    "length bs = length ks2" "FindIdx acc (P i) key (length ks) False = Some (length ks1)"
    "\<forall>e \<in> set ks1. fst (sep_item cu e) < pos key" "\<forall>e \<in> set ks2. pos key \<le> fst (sep_item cu e)"
proof -
  have len: "length ts = Suc (length ks)" and
    rep: "node_rep enc norm False (P i) (map2 node_cell ks ts) (ps - length ks * sz l False)"
    using t by simp_all
  have "asc (map (sep_item cu) ks)"
    by (rule asc_weave_seps[of "map (items cu) ts"]) (use len asc in simp_all)
  then have "sorted_wrt (<) (map (\<lambda>e. fst (sep_item cu e)) ks)"
    by (simp add: asc_def comp_def)
  from takeWhile_split[OF this, of "pos key"] obtain idx where idx: "idx \<le> length ks"
    "\<And>e. e \<in> set (take idx ks) \<Longrightarrow> fst (sep_item cu e) < pos key"
    "\<And>e. e \<in> set (drop idx ks) \<Longrightarrow> pos key \<le> fst (sep_item cu e)"
    by blast
  have k: "ks = take idx ks @ drop idx ks" by simp
  have ts: "ts = take idx ts @ ts ! idx # drop (Suc idx) ts"
    using idx(1) len by (intro id_take_nth_drop) simp
  have F: "FindIdx acc (P i) key (length (take idx ks @ drop idx ks)) False = Some (length (take idx ks))"
    by (rule FindIdx_split[of "P i" _ _ ts]) (use rep len idx in auto)
  show thesis
    by (rule that[OF ts k]) (use F idx len in auto)
qed

section \<open>The recursion\<close>

definition tree_ok :: "nat \<Rightarrow> nat \<Rightarrow> nat \<Rightarrow> bt \<Rightarrow> pager \<Rightarrow> bool" where
  "tree_ok l ps h t s \<longleftrightarrow>
     bal h t \<and> (h = 0 \<or> full t) \<and> pager_inv {} s \<and> PageSize s = ps \<and>
     tree_at l ps (disk_page s) t \<and> set (ids t) \<subseteq> {..<pageCount s} \<and> distinct (ids t) \<and>
     asc (items cu t)"

definition ins_goal ::
  "nat \<Rightarrow> nat \<Rightarrow> nat \<Rightarrow> bt \<Rightarrow> key \<Rightarrow> gobytes \<Rightarrow> pager \<Rightarrow> bool" where
  "ins_goal l ps h t key v s \<longleftrightarrow>
     (\<exists>r s' ts ks. insertRec acc (root_id t) key v s = Some (r, s') \<and> res_ok l r ts ks \<and>
        ins_ok l ps h (pos key) (Some (gbytes v)) t s s' ts ks)"

lemma node_found:
  assumes geom: "tree_geom l ps" and ok: "tree_ok l ps (Suc h) (Nd i ts ks) s"
    and sp: "ts = as @ u # bs" "ks = ks1 @ (key, v0) # ks2" "length as = length ks1"
      "length bs = Suc (length ks2)"
    and F: "FindIdx acc (disk_page s i) key (length ks) False = Some (length ks1)"
    and nc: "\<not> cu" and v: "glen v = l"
  shows "ins_goal l ps (Suc h) (Nd i ts ks) key v s"
proof -
  let ?P = "disk_page s" and ?w = "Some (gbytes v)" and ?idx = "length ks1"
  let ?cs = "map2 node_cell ks ts" and ?ks = "ks1 @ (key, Some (gbytes v)) # ks2"
  have T: "length (?P i) = ps" "\<forall>e \<in> set ks. glen (snd e) = l"
    "node_rep enc norm False (?P i) ?cs (ps - length ks * sz l False)"
    "u32_at (?P i) 5 = root_id (last ts)" "\<forall>t \<in> set ts. tree_at l ps ?P t"
    "length ts = Suc (length ks)"
    using ok nc by (simp_all add: tree_ok_def)
  have O: "pager_inv {} s" "i < pageCount s" "PageSize s = ps" "bal (Suc h) (Nd i ts ks)"
    "full (Nd i ts ks)" "distinct (ids (Nd i ts ks))" "asc (items cu (Nd i ts ks))"
    "set (ids (Nd i ts ks)) \<subseteq> {..<pageCount s}"
    using ok by (auto simp: tree_ok_def)
  have lcs: "length ?cs = length ks" using T(6) by simp
  have F': "FindIdx acc (?P i) key (length ?cs) False = Some ?idx" using F lcs by simp
  have nc0: "node_cell (key, x) u = (key, x, root_id u)" for x by (simp add: node_cell_def)
  have zc: "?cs = map2 node_cell ks1 as @ (key, v0, root_id u) # map2 node_cell ks2 bs"
    using sp by (simp add: nc0)
  have i0: "?idx < length ?cs" "?cs ! ?idx = (key, v0, root_id u)"
    unfolding zc using sp(3) by (simp_all add: nth_append)
  have v0: "glen v \<le> glen v0" using T(2) sp(2) v by simp
  obtain a s1 where N: "pager_inv {} s1" "owns_buf s1 i a" "disk_page s1 = ?P"
    "pageCount s1 = pageCount s" "PageSize s1 = ps"
    "insertRec acc i key v s = do {
      p1 \<leftarrow> OverwriteValue acc (?P i) ?idx v False;
      Some (returned (Write i a (poke a p1 s1))) }"
    by (rule insertRec_node[OF O(1,2) T(3) F', of v]) (use i0 v0 O(3) in auto)
  obtain q where Q: "OverwriteValue acc (?P i) ?idx v False = Some q" "length q = ps"
    "node_rep enc norm False q (?cs[?idx := norm False (key, v, root_id u)]) (ps - length ks * sz l False)"
    "u32_at q 5 = u32_at (?P i) 5"
    using OverwriteValue_spec[OF T(3) i0 v0] T(1) by metis
  have cells: "?cs[?idx := norm False (key, v, root_id u)] = map2 node_cell ?ks ts"
    unfolding zc using sp nc by (simp add: norm_form nc0 list_update_append)
  obtain s' where W: "Write i a (poke a q s1) = (Inr (), s')" "pager_inv {} s'"
    "disk_page s' = ?P(i := q)" "pageCount s' = pageCount s" "PageSize s' = ps"
    using pg.assign_write[OF N(1) _ N(2), of q] O(2) N(3-5) Q(2) by auto
  have ni: "i \<notin> set (ids x)" if "x \<in> set ts" for x using O(6) that by auto
  have same: "tree_at l ps (disk_page s') x" if "x \<in> set ts" for x
    using T(5) that tree_at_cong[of x "disk_page s'" ?P] ni[OF that] W(3) by simp
  have rel: "ins_rel (pos key) ?w (items cu (Nd i ts ks)) (items cu (Nd i ts ?ks))"
  proof -
    let ?l = "weave (map (items cu) (as @ [u])) (map (sep_item cu) ks1)"
    let ?r = "weave (map (items cu) bs) (map (sep_item cu) ks2)"
    have sp': "weave (map (items cu) ts) (map (sep_item cu) (ks1 @ (key, x) # ks2)) =
        ?l @ [(pos key, x)] @ ?r" for x
      using weave_split[of "map (items cu) ts" "map (sep_item cu) (ks1 @ (key, x) # ks2)" "length ks1"]
        sp nc by (simp add: sep_item_def entry_item_def nth_append)
    have A: "asc (?l @ [(pos key, v0)] @ ?r)" using O(7) sp'[of v0] sp(2) by simp
    show ?thesis
      unfolding items.simps sp(2) sp'
      by (rule ins_rel_context[OF ins_rel_single(2) A]) (use A in \<open>auto simp: asc_append\<close>)
  qed
  have "ins_ok l ps (Suc h) (pos key) ?w (Nd i ts ks) s s' [Nd i ts ?ks] []"
    unfolding ins_ok_def
    using W(2-5) Q(2) Q(3)[unfolded cells] Q(4) T O same rel nc sp v
    by (auto simp: glen_def)
  moreover have "insertRec acc i key v s = Some (Inr None, s')"
    using N(6) Q(1) W(1) by (simp add: returned_def)
  moreover have "res_ok l (Inr None) [Nd i ts ?ks] []" by (simp add: res_ok_def)
  ultimately show ?thesis unfolding ins_goal_def root_id.simps by blast
qed

end

end
