(* ===== verification/Entries.thy ===== *)
theory Entries
  imports AbsTree
begin

text \<open>
  The abstract state of an index: its entries in ascending order of the signed key. The
  specification of the operations on that state, the entries of a tree, and the bounds on
  the size of a tree that follow from the number of its entries.
\<close>

section \<open>Sorted entry lists\<close>

definition sorted_entries :: "(key \<times> 'v) list \<Rightarrow> bool" where
  "sorted_entries es = sorted_wrt (<) (map (\<lambda>e. sint (fst e)) es)"

fun ins_entry :: "key \<Rightarrow> 'v \<Rightarrow> (key \<times> 'v) list \<Rightarrow> (key \<times> 'v) list" where
  "ins_entry k v [] = [(k, v)]"
| "ins_entry k v (e # es) =
     (if sint k < sint (fst e) then (k, v) # e # es
      else if k = fst e then (k, v) # es
      else e # ins_entry k v es)"

definition range_entries :: "key \<Rightarrow> key \<Rightarrow> (key \<times> 'v) list \<Rightarrow> (key \<times> 'v) list" where
  "range_entries a b es = filter (\<lambda>e. sint a \<le> sint (fst e) \<and> sint (fst e) \<le> sint b) es"

lemma sorted_entries_simps [simp]:
  "sorted_entries []"
  "sorted_entries (e # es) \<longleftrightarrow> (\<forall>x \<in> set es. sint (fst e) < sint (fst x)) \<and> sorted_entries es"
  by (auto simp: sorted_entries_def)

lemma sorted_entries_append:
  "sorted_entries (xs @ ys) \<longleftrightarrow> sorted_entries xs \<and> sorted_entries ys \<and>
     (\<forall>x \<in> set xs. \<forall>y \<in> set ys. sint (fst x) < sint (fst y))"
  by (auto simp: sorted_entries_def sorted_wrt_append)

lemma sorted_entries_distinct: "sorted_entries es \<Longrightarrow> distinct (map fst es)"
  by (induction es) auto

lemma set_ins_entry: "set (ins_entry k v es) \<subseteq> insert (k, v) (set es)"
  by (induction es) auto

lemma ins_entry_spec:
  "sorted_entries es \<Longrightarrow> sorted_entries (ins_entry k v es) \<and> map_of (ins_entry k v es) = (map_of es)(k \<mapsto> v)"
proof (induction es)
  case (Cons e es)
  obtain k' v' where e: "e = (k', v')" by (cases e)
  consider "sint k < sint k'" | "k = k'" | "sint k' < sint k" "k \<noteq> k'"
    using sint_inject[of k k'] by fastforce
  then show ?case
  proof cases
    case 1
    then show ?thesis using Cons.prems e by auto
  next
    case 2
    then show ?thesis using Cons.prems e by auto
  next
    case 3
    have "\<forall>x \<in> set (ins_entry k v es). sint k' < sint (fst x)"
      using Cons.prems e 3 set_ins_entry[of k v es] by auto
    then show ?thesis using Cons e 3 by (auto simp: fun_eq_iff)
  qed
qed simp

text \<open>A sorted list of entries is determined by the map it represents.\<close>

lemma sorted_entries_unique:
  "sorted_entries xs \<Longrightarrow> sorted_entries ys \<Longrightarrow> map_of xs = map_of ys \<Longrightarrow> xs = ys"
proof -
  assume s: "sorted_entries xs" "sorted_entries ys" and m: "map_of xs = map_of ys"
  have f: "set (map fst xs) = set (map fst ys)" using m by (metis dom_map_of_conv_image_fst set_map)
  have "sorted_wrt (<) (map sint (map fst xs))" "sorted_wrt (<) (map sint (map fst ys))"
    using s by (simp_all add: sorted_entries_def comp_def)
  moreover have "set (map sint (map fst xs)) = set (map sint (map fst ys))"
    using f by (simp only: list.set_map)
  ultimately have "map sint (map fst xs) = map sint (map fst ys)"
    using strict_sorted_equal by blast
  moreover have "inj (sint :: key \<Rightarrow> int)" using sint_inject by (auto intro: injI)
  ultimately have k: "map fst xs = map fst ys" using inj_map_eq_map by blast
  show "xs = ys"
  proof (rule nth_equalityI)
    show l: "length xs = length ys" using k by (metis length_map)
    fix i assume i: "i < length xs"
    have d: "distinct (map fst xs)" "distinct (map fst ys)" using s sorted_entries_distinct by auto
    have fi: "fst (xs ! i) = fst (ys ! i)" using k i l by (metis nth_map)
    have "map_of xs (fst (xs ! i)) = Some (snd (xs ! i))"
      using d(1) i by (metis map_of_is_SomeI nth_mem prod.collapse)
    moreover have "map_of ys (fst (ys ! i)) = Some (snd (ys ! i))"
      using d(2) i l by (metis map_of_is_SomeI nth_mem prod.collapse)
    ultimately show "xs ! i = ys ! i" using m fi by (metis option.inject prod_eqI)
  qed
qed

lemma ins_entry_unique:
  "sorted_entries es \<Longrightarrow> sorted_entries es' \<Longrightarrow> map_of es' = (map_of es)(k \<mapsto> v) \<Longrightarrow>
     es' = ins_entry k v es"
  using sorted_entries_unique ins_entry_spec by metis

section \<open>The entries of a tree\<close>

fun entries :: "bool \<Rightarrow> bt \<Rightarrow> (key \<times> gobytes) list" where
  "entries cu (Lf _ xs) = xs"
| "entries cu (Nd _ ts ks) =
     (if cu then concat (map (entries cu) ts) else weave (map (entries cu) ts) ks)"

lemma pos_inject: "pos a = pos b \<longleftrightarrow> a = b"
  using sint_inject[of a b] by simp

lemma filter_weave:
  "length ts = Suc (length ks) \<Longrightarrow> \<forall>k \<in> set ks. \<not> Q k \<Longrightarrow>
     filter Q (weave ts ks) = concat (map (filter Q) ts)"
proof (induction ts arbitrary: ks)
  case (Cons t ts)
  then show ?case by (cases ks) auto
qed simp

lemma filter_all_weave:
  "length ts = Suc (length ks) \<Longrightarrow> \<forall>k \<in> set ks. Q k \<Longrightarrow>
     filter Q (weave ts ks) = weave (map (filter Q) ts) ks"
proof (induction ts arbitrary: ks)
  case (Cons t ts)
  then show ?case by (cases ks) auto
qed simp

lemma map_weave: "map f (weave ts ks) = weave (map (map f) ts) (map f ks)"
  by (induction ts ks rule: weave.induct) auto

lemma items_entries:
  "bal h t \<Longrightarrow> filter (\<lambda>x. odd (fst x)) (items cu t) = map entry_item (entries cu t)"
proof (induction t arbitrary: h)
  case (Lf i xs)
  then show ?case by (auto simp: entry_item_def filter_id_conv)
next
  case (Nd i ts ks)
  have len: "length ts = Suc (length ks)" using Nd.prems by simp
  have IH: "map (filter (\<lambda>x. odd (fst x))) (map (items cu) ts) = map (map entry_item) (map (entries cu) ts)"
    using Nd by auto
  show ?case
  proof (cases cu)
    case True
    then have "filter (\<lambda>x. odd (fst x)) (items cu (Nd i ts ks)) =
        concat (map (filter (\<lambda>x. odd (fst x))) (map (items cu) ts))"
      using len by (simp add: sep_item_def filter_weave del: map_map)
    then show ?thesis unfolding IH using True by (simp add: map_concat comp_def)
  next
    case False
    have k: "map (sep_item cu) ks = map entry_item ks" using False by (simp add: sep_item_def)
    have "filter (\<lambda>x. odd (fst x)) (items cu (Nd i ts ks)) =
        weave (map (filter (\<lambda>x. odd (fst x))) (map (items cu) ts)) (map entry_item ks)"
      unfolding items.simps k using len
      by (intro filter_all_weave) (auto simp: entry_item_def)
    then show ?thesis unfolding IH using False by (simp add: map_weave del: map_map)
  qed
qed

lemma map_of_odd: "odd p \<Longrightarrow> map_of (filter (\<lambda>x. odd (fst x)) xs) p = map_of xs p"
  by (induction xs) auto

lemma map_of_entry_items: "map_of (map entry_item es) (pos k) = map_of es k"
  by (induction es) (auto simp: entry_item_def pos_inject sint_inject)

lemma entries_lookup: "bal h t \<Longrightarrow> map_of (entries cu t) k = map_of (items cu t) (pos k)"
  using items_entries[of h t cu] map_of_odd[of "pos k" "items cu t"] map_of_entry_items
  by (metis odd_two_times_div_two_succ odd_add odd_one dvd_triv_left)

lemma asc_filter: "asc xs \<Longrightarrow> asc (filter Q xs)"
  by (induction xs) auto

lemma sorted_entries_items: "asc (map entry_item es) \<longleftrightarrow> sorted_entries es"
  by (induction es) (auto simp: entry_item_def)

lemma entries_sorted: "bal h t \<Longrightarrow> asc (items cu t) \<Longrightarrow> sorted_entries (entries cu t)"
  using items_entries[of h t cu] asc_filter sorted_entries_items by metis

text \<open>What an insertion does to the entries.\<close>

lemma ins_rel_entries:
  assumes rel: "ins_rel (pos k) w (items cu t) (items cu t')" and t: "bal h t" "bal h' t'"
    and asc: "asc (items cu t)"
  shows "entries cu t' = ins_entry k w (entries cu t)"
proof (rule ins_entry_unique)
  have a: "asc (items cu t')"
    and m: "\<forall>x. odd x \<longrightarrow> map_of (items cu t') x = ((map_of (items cu t))(pos k \<mapsto> w)) x"
    using rel by (simp_all add: ins_rel_def)
  show "sorted_entries (entries cu t)" "sorted_entries (entries cu t')"
    using entries_sorted t asc a by blast+
  show "map_of (entries cu t') = (map_of (entries cu t))(k \<mapsto> w)"
  proof
    fix j
    have "map_of (entries cu t') j = ((map_of (items cu t))(pos k \<mapsto> w)) (pos j)"
      using m entries_lookup[OF t(2)] by simp
    also have "\<dots> = ((map_of (entries cu t))(k \<mapsto> w)) j"
      using entries_lookup[OF t(1), of cu j] by (simp add: sint_inject)
    finally show "map_of (entries cu t') j = ((map_of (entries cu t))(k \<mapsto> w)) j" .
  qed
qed

section \<open>Size bounds\<close>

lemma sum_list_ge:
  fixes f g :: "'a \<Rightarrow> nat"
  shows "\<forall>x \<in> set xs. f x \<le> g x \<Longrightarrow> sum_list (map f xs) \<le> sum_list (map g xs)"
  by (rule sum_list_mono) auto

lemma entries_leaves: "bal h t \<Longrightarrow> full t \<Longrightarrow> length (leaves t) \<le> length (entries cu t)"
proof (induction t arbitrary: h)
  case (Lf i xs)
  then show ?case by (cases xs) auto
next
  case (Nd i ts ks)
  have "\<forall>u \<in> set ts. length (leaves u) \<le> length (entries cu u)" using Nd by auto
  then have "sum_list (map (\<lambda>u. length (leaves u)) ts) \<le> sum_list (map (\<lambda>u. length (entries cu u)) ts)"
    by (rule sum_list_ge)
  moreover have "length ts = Suc (length ks)" using Nd.prems by simp
  ultimately show ?case by (auto simp: length_concat length_weave comp_def)
qed

lemma two_children: "bal h (Nd i ts ks) \<Longrightarrow> full (Nd i ts ks) \<Longrightarrow> 2 \<le> length ts"
  by (cases ks) auto

lemma ids_leaves: "bal h t \<Longrightarrow> full t \<Longrightarrow> Suc (length (ids t)) \<le> 2 * length (leaves t)"
proof (induction t arbitrary: h)
  case (Lf i xs)
  then show ?case by simp
next
  case (Nd i ts ks)
  have "\<forall>u \<in> set ts. Suc (length (ids u)) \<le> 2 * length (leaves u)" using Nd by auto
  then have "sum_list (map (\<lambda>u. Suc (length (ids u))) ts) \<le> sum_list (map (\<lambda>u. 2 * length (leaves u)) ts)"
    by (rule sum_list_ge)
  moreover have "sum_list (map (\<lambda>u. Suc (length (ids u))) ts) = length ts + sum_list (map (\<lambda>u. length (ids u)) ts)"
    by (induction ts) auto
  moreover have "sum_list (map (\<lambda>u. 2 * length (leaves u)) ts) = 2 * sum_list (map (\<lambda>u. length (leaves u)) ts)"
    by (induction ts) auto
  moreover have "2 \<le> length ts" using two_children Nd.prems by blast
  ultimately show ?case by (simp add: length_concat comp_def)
qed

lemma height_leaves: "bal h t \<Longrightarrow> full t \<Longrightarrow> 2 ^ h \<le> length (leaves t)"
proof (induction t arbitrary: h)
  case (Nd i ts ks)
  obtain h' where h: "h = Suc h'" using Nd.prems by (cases h) auto
  obtain u v us where ts: "ts = u # v # us"
    using two_children[OF Nd.prems] by (metis Suc_le_length_iff numeral_2_eq_2)
  have "2 ^ h' \<le> length (leaves u)" "2 ^ h' \<le> length (leaves v)"
    using Nd.IH[of u h'] Nd.IH[of v h'] Nd.prems ts h by simp_all
  then show ?case using ts h by simp
qed simp

lemma tree_size_bound:
  assumes "bal h t" "full t"
  shows "length (ids t) + h \<le> 3 * length (entries cu t)"
proof -
  have "Suc (length (ids t)) \<le> 2 * length (leaves t)" by (rule ids_leaves[OF assms])
  moreover have "h < 2 ^ h" by simp
  moreover have "2 ^ h \<le> length (leaves t)" by (rule height_leaves[OF assms])
  moreover have "length (leaves t) \<le> length (entries cu t)" by (rule entries_leaves[OF assms])
  ultimately show ?thesis by linarith
qed

lemma length_ins_entry: "length (ins_entry k v es) \<le> Suc (length es)"
  by (induction es) auto

section \<open>Looking up an entry\<close>

lemma lookup_at:
  assumes idx: "idx \<le> length xs" and sorted: "sorted_entries xs"
    and lo: "\<And>e. e \<in> set (take idx xs) \<Longrightarrow> sint (fst e) < sint key"
    and hi: "\<And>e. e \<in> set (drop idx xs) \<Longrightarrow> sint key \<le> sint (fst e)"
  shows "map_of xs key = (if idx < length xs \<and> fst (xs ! idx) = key then Some (snd (xs ! idx)) else None)"
proof -
  have t: "map_of (take idx xs) key = None" using lo by (force simp: map_of_eq_None_iff)
  have x: "map_of xs key = map_of (drop idx xs) key"
    using t by (metis append_take_drop_id map_add_def map_of_append option.simps(4))
  show ?thesis
  proof (cases "drop idx xs")
    case Nil
    then show ?thesis using x by simp
  next
    case (Cons e es)
    then have i: "idx < length xs" by (metis drop_eq_Nil leI list.distinct(1))
    then have e: "xs ! idx = e" using Cons by (metis Cons_nth_drop_Suc list.inject)
    have "sorted_entries (drop idx xs)"
      using sorted sorted_entries_append[of "take idx xs" "drop idx xs"] by simp
    then have gt: "\<forall>y \<in> set es. sint (fst e) < sint (fst y)" using Cons by simp
    show ?thesis
    proof (cases "fst e = key")
      case True
      then show ?thesis using x Cons i e by (cases e) simp
    next
      case False
      have "sint key \<le> sint (fst e)" using hi Cons by simp
      then have "\<forall>y \<in> set es. fst y \<noteq> key" using gt by force
      then have "map_of (drop idx xs) key = None"
        using False Cons by (auto simp: map_of_eq_None_iff)
      then show ?thesis using x False i e by simp
    qed
  qed
qed

lemma range_entries_split:
  assumes idx: "idx \<le> length xs"
    and lo: "\<And>e. e \<in> set (take idx xs) \<Longrightarrow> sint (fst e) < sint a"
    and hi: "\<And>e. e \<in> set (drop idx xs) \<Longrightarrow> sint a \<le> sint (fst e)"
  shows "range_entries a b xs = filter (\<lambda>e. sint (fst e) \<le> sint b) (drop idx xs)"
proof -
  have "range_entries a b xs = range_entries a b (take idx xs) @ range_entries a b (drop idx xs)"
    by (simp add: range_entries_def flip: filter_append)
  moreover have "range_entries a b (take idx xs) = []"
    using lo by (force simp: range_entries_def filter_empty_conv)
  moreover have "range_entries a b (drop idx xs) = filter (\<lambda>e. sint (fst e) \<le> sint b) (drop idx xs)"
    unfolding range_entries_def by (rule filter_cong) (use hi in auto)
  ultimately show ?thesis by simp
qed

section \<open>Leaves with their entries\<close>

fun leafs :: "bt \<Rightarrow> (page_id \<times> (key \<times> gobytes) list) list" where
  "leafs (Lf i xs) = [(i, xs)]"
| "leafs (Nd _ ts _) = concat (map leafs ts)"

lemma leafs_leaves: "map fst (leafs t) = leaves t"
  by (induction t) (simp_all add: map_concat comp_def cong: map_cong)

lemma leafs_entries: "entries True t = concat (map snd (leafs t))"
proof (induction t)
  case (Nd i ts ks)
  have c: "concat (map snd (concat (map leafs us))) = concat (map (\<lambda>u. concat (map snd (leafs u))) us)" for us
    by (induction us) simp_all
  have "map (entries True) ts = map (\<lambda>u. concat (map snd (leafs u))) ts"
    by (rule map_cong) (use Nd in auto)
  then show ?case by (simp add: c del: map_eq_conv)
qed simp

lemma leafs_items:
  "bal h t \<Longrightarrow> (i, xs) \<in> set (leafs t) \<Longrightarrow> e \<in> set xs \<Longrightarrow> entry_item e \<in> set (items cu t)"
proof (induction t arbitrary: h)
  case (Nd j ts ks)
  then obtain u where u: "u \<in> set ts" "(i, xs) \<in> set (leafs u)" by auto
  then have "entry_item e \<in> set (items cu u)" using Nd by auto
  then show ?case using u(1) Nd.prems(1) by (auto simp: set_weave)
qed simp

end
