(* ===== verification/TreeInsert.thy ===== *)
theory TreeInsert
  imports TreeInv Entries
begin

text \<open>
  The recursion of insertRec over the height of the tree, and Insert with its new root.
\<close>

context tree_codec
begin

lemma ins_ok_cong:
  "disk_page s1 = disk_page s \<Longrightarrow> pageCount s1 = pageCount s \<Longrightarrow>
     ins_ok l ps h p w t s1 s' ts ks = ins_ok l ps h p w t s s' ts ks"
  by (simp add: ins_ok_def)

lemma ins_okD:
  assumes "ins_ok l ps h p w t s s' ts ks"
  shows "pager_inv {} s'" "PageSize s' = ps" "length ts = Suc (length ks)" "root_id (hd ts) = root_id t"
    "\<And>u. u \<in> set ts \<Longrightarrow> bal h u" "\<And>u. u \<in> set ts \<Longrightarrow> full u"
    "\<And>u. u \<in> set ts \<Longrightarrow> tree_at l ps (disk_page s') u"
    "ins_rel p w (items cu t) (weave (map (items cu) ts) (map (sep_item cu) ks))"
    "pageCount s \<le> pageCount s'" "pageCount s' \<le> pageCount s + Suc h"
    "distinct (concat (map ids ts))"
    "set (concat (map ids ts)) = set (ids t) \<union> {pageCount s..<pageCount s'}"
    "\<And>j. j < pageCount s \<Longrightarrow> j \<notin> set (ids t) \<Longrightarrow> disk_page s' j = disk_page s j"
    "hd (leaves (hd ts)) = hd (leaves t)"
    "cu \<Longrightarrow> chain (disk_page s) (leaves t) nx \<Longrightarrow> chain (disk_page s') (concat (map leaves ts)) nx"
  using assms unfolding ins_ok_def by blast+

lemma distinct_context:
  fixes n :: nat
  assumes "distinct (A @ x @ B)" "set A \<union> set B \<subseteq> {..<n}" "distinct y" "set y = set x \<union> {n..<m}"
  shows "distinct (A @ y @ B)"
proof -
  have "x < n" if "x \<in> set A \<union> set B" for x using assms(2) that by blast
  then have r: "set A \<inter> {n..<m} = {}" "set B \<inter> {n..<m} = {}" by fastforce+
  have "set A \<inter> set x = {}" "set x \<inter> set B = {}" "set A \<inter> set B = {}" "distinct A" "distinct B"
    using assms(1) by auto
  then show ?thesis using r assms(3,4) by (simp add: Int_Un_distrib Int_Un_distrib2 Int_commute)
qed

lemma chain_context:
  assumes old: "chain P (A @ x @ B) nx" and "x \<noteq> []" "y \<noteq> []" "hd y = hd x"
    and frame: "\<forall>i \<in> set A \<union> set B. P' i = P i"
    and step: "\<And>nx. chain P x nx \<Longrightarrow> chain P' y nx"
  shows "chain P' (A @ y @ B) nx"
proof -
  have o: "chain P A (hd (x @ B @ [nx]))" "chain P x (hd (B @ [nx]))" "chain P B nx"
    using old by (simp_all add: chain_append)
  have "chain P' A (hd (x @ B @ [nx]))" "chain P' B nx"
    using o(1,3) frame chain_cong[of A P' P] chain_cong[of B P' P] by simp_all
  moreover have "hd (x @ B @ [nx]) = hd (y @ B @ [nx])" using assms(2-4) by simp
  ultimately show ?thesis using step[OF o(2)] by (simp add: chain_append)
qed

lemma grown_context:
  assumes ok: "tree_ok l ps (Suc h) (Nd i (as @ u # bs) (ks1 @ ks2)) s"
    and len: "length as = length ks1" "length bs = length ks2"
    and lo: "\<forall>e \<in> set ks1. fst (sep_item cu e) < p" and hi: "\<forall>e \<in> set ks2. p < fst (sep_item cu e)"
    and child: "ins_ok l ps h p w u s s3 us vs"
    and vs: "\<not> cu \<longrightarrow> (\<forall>e \<in> set vs. glen (snd e) = l)"
  shows "node_grown l ps h p w i (Nd i (as @ u # bs) (ks1 @ ks2)) s s3 (as @ us @ bs) (ks1 @ vs @ ks2)"
proof -
  let ?t = "Nd i (as @ u # bs) (ks1 @ ks2)" and ?n = "pageCount s"
  have O: "bal (Suc h) ?t" "full ?t" "tree_at l ps (disk_page s) ?t" "set (ids ?t) \<subseteq> {..<?n}"
    "distinct (ids ?t)" "asc (items cu ?t)"
    using ok by (simp_all add: tree_ok_def)
  note C = ins_okD[OF child]
  let ?A = "concat (map ids as)" and ?B = "concat (map ids bs)"
  have idt: "ids ?t = i # ?A @ ids u @ ?B" by simp
  have lt: "set ?A \<union> set ?B \<subseteq> {..<?n}" "i < ?n" using O(4) by auto
  have dj: "distinct (?A @ ids u @ ?B)" "i \<notin> set (?A @ ids u @ ?B)" using O(5) by simp_all
  have new: "set (concat (map ids (as @ us @ bs))) =
      set ?A \<union> set ?B \<union> set (ids u) \<union> {?n..<pageCount s3}"
    using C(12) by auto
  have same: "\<forall>j \<in> set (ids x). disk_page s3 j = disk_page s j" if x: "x \<in> set as \<union> set bs" for x
  proof
    fix j assume j: "j \<in> set (ids x)"
    then have "j \<in> set ?A \<union> set ?B" using x by auto
    moreover from this have "j \<notin> set (ids u)" using dj(1) by auto
    ultimately show "disk_page s3 j = disk_page s j" using C(13) lt(1) by blast
  qed
  have "bal h x \<and> full x \<and> tree_at l ps (disk_page s3) x" if "x \<in> set (as @ us @ bs)" for x
  proof (cases "x \<in> set us")
    case False
    then have x: "x \<in> set as \<union> set bs" using that by auto
    then show ?thesis using O(1-3) tree_at_cong[OF same[OF x]] by auto
  qed (use C(5-7) in blast)
  moreover have "ins_rel p w (items cu ?t)
      (weave (map (items cu) (as @ us @ bs)) (map (sep_item cu) (ks1 @ vs @ ks2)))"
  proof -
    let ?l = "weave_left (map (items cu) as) (map (sep_item cu) ks1)"
    let ?r = "weave_right (map (sep_item cu) ks2) (map (items cu) bs)"
    have old: "items cu ?t = ?l @ items cu u @ ?r"
      using weave_context[of "map (items cu) as" "map (sep_item cu) ks1" "[items cu u]" "[]"
          "map (items cu) bs" "map (sep_item cu) ks2"] len by simp
    have wv: "weave (map (items cu) (as @ us @ bs)) (map (sep_item cu) (ks1 @ vs @ ks2)) =
        ?l @ weave (map (items cu) us) (map (sep_item cu) vs) @ ?r"
      using weave_context[of "map (items cu) as" "map (sep_item cu) ks1" "map (items cu) us"
          "map (sep_item cu) vs" "map (items cu) bs" "map (sep_item cu) ks2"] len C(3) by simp
    have A: "asc (?l @ items cu u @ ?r)" using O(6) old by simp
    have "fst x < p" if "x \<in> set ?l" for x
      using asc_weave_left[OF _ _ _ that, of p] A len lo by (simp add: asc_append)
    moreover have "p < fst x" if "x \<in> set ?r" for x
    proof -
      have "\<forall>k \<in> set (map (sep_item cu) ks2). p + 1 \<le> fst k" using hi by auto
      then have "p + 1 \<le> fst x"
        using asc_weave_right[OF _ _ _ that, of "p + 1"] A len by (simp add: asc_append)
      then show ?thesis by simp
    qed
    ultimately show ?thesis unfolding old wv by (intro ins_rel_context[OF C(8) A]) auto
  qed
  moreover have "distinct (i # concat (map ids (as @ us @ bs)))"
  proof -
    have "distinct (?A @ concat (map ids us) @ ?B)"
      by (rule distinct_context[OF dj(1) lt(1) C(11,12)])
    moreover have "i \<notin> set (concat (map ids (as @ us @ bs)))" using new dj(2) lt(2) by auto
    ultimately show ?thesis by simp
  qed
  moreover have "set (i # concat (map ids (as @ us @ bs))) = set (ids ?t) \<union> {?n..<pageCount s3}"
    using new idt by auto
  moreover have "disk_page s3 j = disk_page s j" if "j < ?n" "j \<notin> set (ids ?t)" for j
    using C(13) that by simp
  moreover have ne: "us \<noteq> []" "leaves u \<noteq> []" "concat (map leaves us) \<noteq> []"
      "hd (concat (map leaves us)) = hd (leaves u)"
  proof -
    show "us \<noteq> []" using C(3) by auto
    then obtain x xs where us: "us = x # xs" by (cases us) auto
    then have "leaves x \<noteq> []" using C(5)[of x] leaves_nonempty[of h x] by simp
    then show "concat (map leaves us) \<noteq> []" "hd (concat (map leaves us)) = hd (leaves u)"
      using us C(14) by simp_all
    show "leaves u \<noteq> []" using O(1) leaves_nonempty[of h u] by simp
  qed
  moreover have "hd (concat (map leaves (as @ us @ bs))) = hd (leaves ?t)"
    using ne by (auto simp: hd_append simp del: concat_eq_Nil_conv)
  moreover have "chain (disk_page s3) (concat (map leaves (as @ us @ bs))) nx"
    if c: "cu" "chain (disk_page s) (leaves ?t) nx" for nx
  proof -
    have "chain (disk_page s3) (concat (map leaves as) @ concat (map leaves us) @ concat (map leaves bs)) nx"
    proof (rule chain_context[of "disk_page s" _ "leaves u"])
      show "\<forall>i \<in> set (concat (map leaves as)) \<union> set (concat (map leaves bs)).
          disk_page s3 i = disk_page s i"
        using same leaves_ids by fastforce
    qed (use c ne C(15)[OF c(1)] in simp_all)
    then show ?thesis by simp
  qed
  moreover have "\<not> cu \<longrightarrow> (\<forall>e \<in> set (ks1 @ vs @ ks2). glen (snd e) = l)"
    using vs O(3) by auto
  moreover have "ks1 @ vs @ ks2 \<noteq> []" "length (as @ us @ bs) = Suc (length (ks1 @ vs @ ks2))"
    using O(2) len C(3) by auto
  ultimately show ?thesis
    unfolding node_grown_def using C(9,10) lt(2) O(4) by (auto simp del: ids.simps leaves.simps items.simps)
qed

lemma map2_append:
  "length as = length ks1 \<Longrightarrow> map2 f (ks1 @ ks2) (as @ xs) = map2 f ks1 as @ map2 f ks2 xs"
  by simp

lemma set_child_node: "set_child (root_id u') (node_cell e u) = node_cell e u'"
  by (simp add: set_child_def node_cell_def)

text \<open>The cells of the node after the child \<open>u\<close> has become \<open>u1\<close>, a separator and \<open>u2\<close>.\<close>

lemma inserted_node:
  assumes len: "length as = length ks1" "length bs = length ks2" and r: "root_id u1 = root_id u"
    and lc: "lc = root_id u"
  shows "inserted False (map2 node_cell (ks1 @ ks2) (as @ u # bs)) (length ks1)
      (norm False (mk, mv, lc)) (root_id u2) =
    map2 node_cell (ks1 @ [(mk, sep_val mv)] @ ks2) (as @ [u1, u2] @ bs)"
proof -
  have x: "norm False (mk, mv, lc) = node_cell (mk, sep_val mv) u1"
    using r lc by (simp add: norm_form node_cell_def sep_val_def)
  show ?thesis
    unfolding map2_append[OF len(1)] x using len
    by (cases ks2; cases bs) (simp_all add: inserted_def set_child_node nth_append)
qed

lemma node_step:
  assumes geom: "tree_geom l ps" and ok: "tree_ok l ps (Suc h) (Nd i (as @ u # bs) (ks1 @ ks2)) s"
    and len: "length as = length ks1" "length bs = length ks2"
    and F: "FindIdx acc (disk_page s i) key (length (ks1 @ ks2)) False = Some (length ks1)"
    and lo: "\<forall>e \<in> set ks1. fst (sep_item cu e) < pos key"
    and hi: "\<forall>e \<in> set ks2. pos key < fst (sep_item cu e)"
    and v: "glen v = l"
    and IH: "\<And>s1. tree_ok l ps h u s1 \<Longrightarrow> pageCount s1 = pageCount s \<Longrightarrow> ins_goal l ps h u key v s1"
    and lim: "pageCount s + Suc h < page_limit ps" "pageCount s + Suc h < 2 ^ 32"
  shows "ins_goal l ps (Suc h) (Nd i (as @ u # bs) (ks1 @ ks2)) key v s"
proof -
  let ?t = "Nd i (as @ u # bs) (ks1 @ ks2)" and ?ts = "as @ u # bs" and ?ks = "ks1 @ ks2"
  let ?P = "disk_page s" and ?idx = "length ks1" and ?u = "sz l False"
  let ?cs = "map2 node_cell ?ks ?ts" and ?w = "Some (gbytes v)"
  have O: "pager_inv {} s" "PageSize s = ps" "bal (Suc h) ?t" "full ?t" "tree_at l ps ?P ?t"
    "set (ids ?t) \<subseteq> {..<pageCount s}" "distinct (ids ?t)" "asc (items cu ?t)"
    using ok by (simp_all add: tree_ok_def)
  have T: "length (?P i) = ps" "node_rep enc norm False (?P i) ?cs (ps - length ?ks * ?u)"
    "u32_at (?P i) 5 = root_id (last ?ts)"
    using O(5) by simp_all
  have i: "i < pageCount s" using O(6) by simp
  have lcs: "length ?cs = length ?ks" using len by simp
  have F': "FindIdx acc (?P i) key (length ?cs) False = Some ?idx" using F lcs by simp
  have c0: "?cs ! ?idx = node_cell (hd ks2) u" if "ks2 \<noteq> []"
    using that len by (cases ks2) (auto simp: nth_append)
  have nf: "?idx = length ?cs \<or> fst (?cs ! ?idx) \<noteq> key"
  proof (cases "ks2 = []")
    case True
    then show ?thesis using lcs by simp
  next
    case False
    then have "pos key < fst (sep_item cu (hd ks2))" using hi by (cases ks2) auto
    then have "fst (hd ks2) \<noteq> key" by (auto simp: sep_item_def entry_item_def split: if_splits)
    then show ?thesis using c0[OF False] by (simp add: node_cell_def)
  qed
  obtain a s1 where N: "pager_inv {} s1" "owns_buf s1 i a" "disk_page s1 = ?P"
    "pageCount s1 = pageCount s" "PageSize s1 = ps"
    "insertRec acc i key v s = do {
        childID \<leftarrow> ChildAt acc (?P i) ?idx (length ?cs);
        (r, s3) \<leftarrow> insertRec acc childID key v s1;
        (case r of
           Inl e \<Rightarrow> Some (Inl e, s3)
         | Inr None \<Rightarrow> Some (Inr None, s3)
         | Inr (Some (mk, mv, rc)) \<Rightarrow>
             (case Read i s3 of
                (Inl e, s4) \<Rightarrow> Some (Inl e, s4)
              | (Inr b, s4) \<Rightarrow> do {
                  let q = bufs s4 b;
                  n2 \<leftarrow> NumCells q;
                  idx2 \<leftarrow> FindIdx acc q mk n2 False;
                  doInsert acc i b n2 idx2 mk mv rc s4
                })) }"
    by (rule insertRec_node[OF O(1) i T(2) F', of v]) (use nf lcs O(2) in auto)
  have child: "ChildAt acc (?P i) ?idx (length ?cs) = Some (root_id u)"
  proof (cases "ks2 = []")
    case True
    then show ?thesis using node_child[OF T(2), of ?idx] T(3) lcs len by simp
  next
    case False
    then have j: "?idx \<noteq> length ?cs" "?idx \<le> length ?cs" using lcs by simp_all
    have "ChildAt acc (?P i) ?idx (length ?cs) = Some (snd (snd (?cs ! ?idx)))"
      unfolding node_child[OF T(2) j(2)] using j(1) by (simp only: if_False)
    then show ?thesis unfolding c0[OF False] by (simp add: node_cell_def)
  qed
  have cok: "tree_ok l ps h u s1"
  proof -
    have "asc (items cu u)"
      using O(8) len weave_context[of "map (items cu) as" "map (sep_item cu) ks1" "[items cu u]" "[]"
          "map (items cu) bs" "map (sep_item cu) ks2"] by (simp add: asc_append)
    then show ?thesis using O N unfolding tree_ok_def by simp
  qed
  obtain r3 s3 us vs where R: "insertRec acc (root_id u) key v s1 = Some (r3, s3)"
    "res_ok l r3 us vs" "ins_ok l ps h (pos key) ?w u s s3 us vs"
    using IH[OF cok N(4)] ins_ok_cong[OF N(3,4)] by (auto simp: ins_goal_def)
  have vsl: "\<not> cu \<longrightarrow> (\<forall>e \<in> set vs. glen (snd e) = l)"
    using R(2) by (auto simp: res_ok_def sep_val_def glen_def)
  note C = ins_okD[OF R(3)]
  have G: "node_grown l ps h (pos key) ?w i ?t s s3 (as @ us @ bs) (ks1 @ vs @ ks2)"
    by (rule grown_context[OF ok len lo hi R(3) vsl])
  have Pi: "disk_page s3 i = ?P i" using C(13)[OF i] O(7) by auto
  from R(2)[unfolded res_ok_def] show ?thesis
  proof (elim disjE exE conjE)
    assume r3: "r3 = Inr None" "vs = []" "length us = 1"
    then obtain u' where u': "us = [u']" by (cases us) auto
    have ru: "root_id u' = root_id u" using C(4) u' by simp
    have cells: "map2 node_cell (ks1 @ vs @ ks2) (as @ us @ bs) = ?cs"
      unfolding r3(2) u' append_Nil append_Cons map2_append[OF len(1)]
      using ru by (cases ks2) (simp_all add: node_cell_def)
    have last: "root_id (last (as @ us @ bs)) = root_id (last ?ts)" using u' ru by simp
    have "insert_outcome False ?u i (?P i) (map2 node_cell (ks1 @ vs @ ks2) (as @ us @ bs))
        (root_id (last (as @ us @ bs))) s3 (Inr None) s3"
      unfolding insert_outcome_def cells last
      using C(1,2) T lcs Pi by (intro conjI disjI1 exI[of _ "?P i"]) auto
    from node_outcome[OF this refl refl C(2) G] have
      "\<exists>ts ks. res_ok l (Inr None) ts ks \<and> ins_ok l ps (Suc h) (pos key) ?w ?t s s3 ts ks" .
    moreover have "insertRec acc i key v s = Some (Inr None, s3)"
      unfolding N(6) child using R(1) r3(1) by simp
    ultimately show ?thesis unfolding ins_goal_def root_id.simps by blast
  next
    fix mk mv u1 u2
    assume r3: "r3 = Inr (Some (mk, mv, root_id u2))" "us = [u1, u2]" "vs = [(mk, sep_val mv)]"
      "glen mv < 65536" "\<not> cu \<longrightarrow> glen mv = l"
    let ?us = "as @ us @ bs" and ?vs = "ks1 @ vs @ ks2"
    have i3: "i < pageCount s3" using i C(9) by simp
    obtain b s4 where S: "Read i s3 = (Inr b, s4)" "pager_inv {} s4" "owns_buf s4 i b"
      "bufs s4 b = ?P i" "disk_page s4 = disk_page s3" "pageCount s4 = pageCount s3" "PageSize s4 = ps"
      using pg.read_law[OF C(1) i3] C(2) Pi by auto
    have sep: "sep_item cu (mk, sep_val mv) = (if cu then 2 * sint mk else pos mk, sep_val mv)"
      by (simp add: sep_item_def entry_item_def sep_val_def)
    have ascs: "asc (map (sep_item cu) ?vs)"
      by (rule asc_weave_seps[of "map (items cu) ?us"])
        (use node_grownD(5,8)[OF G] in \<open>simp_all add: ins_rel_def\<close>)
    have lo2: "\<forall>e \<in> set ks1. fst (sep_item cu e) < pos mk"
      using ascs r3(3) sep by (auto simp: asc_append split: if_splits)
    have hi2: "\<forall>e \<in> set ks2. pos mk \<le> fst (sep_item cu e)"
      using ascs r3(3) sep by (auto simp: asc_append split: if_splits)
    have F2: "FindIdx acc (?P i) mk (length ?cs) False = Some ?idx"
      using FindIdx_split[OF T(2) _ lo2 hi2] lcs len by simp
    have n2: "NumCells (?P i) = Some (length ?cs)" by (rule node_repD(5)[OF T(2)])
    have run: "insertRec acc i key v s = doInsert acc i b (length ?cs) ?idx mk mv (root_id u2) s4"
      unfolding N(6) child using R(1) r3(1) S(1,4) n2 F2 by simp
    have u2: "root_id u2 < 2 ^ 32"
    proof -
      have "root_id u2 \<in> set (concat (map ids us))" using r3(2) root_in_ids[of u2] by simp
      then have "root_id u2 \<in> set (ids u) \<union> {pageCount s..<pageCount s3}" unfolding C(12) .
      moreover have "set (ids u) \<subseteq> {..<pageCount s}" using O(6) by simp
      ultimately have "root_id u2 < pageCount s3" using C(9) by (auto dest: subsetD)
      then show ?thesis using C(10) lim(2) by simp
    qed
    have cells: "inserted False ?cs ?idx (norm False (mk, mv, new_child False (?P i) ?cs ?idx)) (root_id u2)
        = map2 node_cell ?vs ?us"
      "new_right False (?P i) ?cs ?idx (root_id u2) = root_id (last ?us)"
    proof -
      have "new_child False (?P i) ?cs ?idx = root_id u"
        using child node_child[OF T(2), of ?idx] lcs by (simp add: new_child_def)
      moreover have "root_id u1 = root_id u" using C(4) r3(2) by simp
      ultimately show "inserted False ?cs ?idx (norm False (mk, mv, new_child False (?P i) ?cs ?idx))
          (root_id u2) = map2 node_cell ?vs ?us"
        unfolding r3(2,3) by (intro inserted_node[OF len])
      show "new_right False (?P i) ?cs ?idx (root_id u2) = root_id (last ?us)"
        using T(3) lcs len r3(2) by (cases ks2; cases bs) (simp_all add: new_right_def)
    qed
    have sizes: "\<forall>y \<in> set ?cs. CellSize acc False (fst (snd y)) = ?u" "CellSize acc False mv = ?u"
    proof -
      have "CellSize acc False w = ?u" if "\<not> cu \<longrightarrow> glen w = l" for w
        using that size_value[of w l False] size_separator[of w l] by (cases cu) auto
      moreover have "\<not> cu \<longrightarrow> (\<forall>e \<in> set ?ks. glen (snd e) = l)" using O(5) by simp
      moreover have "\<exists>e \<in> set ?ks. fst (snd y) = snd e" if "y \<in> set ?cs" for y
        using that by (auto simp: node_cell_def dest!: set_zip_leftD) force+
      ultimately show "\<forall>y \<in> set ?cs. CellSize acc False (fst (snd y)) = ?u" "CellSize acc False mv = ?u"
        using r3(5) by metis+
    qed
    have used: "length ?cs * ?u \<le> ps" using node_repD(3)[OF T(2)] lcs by simp
    have g: "node_geom (PageSize s4) ?u" using geom S(7) by (simp add: tree_geom_def)
    have pre: "i < pageCount s4" "length (bufs s4 b) = PageSize s4" "?idx \<le> length ?cs"
      "node_rep enc norm False (bufs s4 b) ?cs (PageSize s4 - length ?cs * ?u)"
      "pageCount s4 < page_limit (PageSize s4)" "pageCount s4 < 2 ^ 32" "length ?cs * ?u \<le> PageSize s4"
      using i3 S(4,6,7) T(1,2) lcs lim C(10) used by simp_all
    obtain r s' where D: "doInsert acc i b (length ?cs) ?idx mk mv (root_id u2) s4 = Some (r, s')"
      "insert_outcome False ?u i (?P i) (map2 node_cell ?vs ?us) (root_id (last ?us)) s4 r s'"
      using doInsert_spec[OF g S(2) empty_subsetI pre(1) S(3) pre(4,2,3) sizes r3(4) u2 pre(5-7), of mk]
      unfolding S(4) cells by blast
    from node_outcome[OF D(2) S(5-7) G] run D(1) show ?thesis
      unfolding ins_goal_def root_id.simps by auto
  qed
qed

lemma insertRec_spec:
  assumes geom: "tree_geom l ps" and v: "glen v = l"
  shows "tree_ok l ps h t s \<Longrightarrow> pageCount s + h < page_limit ps \<Longrightarrow> pageCount s + h < 2 ^ 32 \<Longrightarrow>
    ins_goal l ps h t key v s"
proof (induction h arbitrary: t s)
  case 0
  then obtain i xs where t: "t = Lf i xs" by (cases t) (auto simp: tree_ok_def)
  have P: "PageSize s = ps" "pager_inv {} s" "i < pageCount s" "tree_at l ps (disk_page s) (Lf i xs)"
    "asc (items cu (Lf i xs))"
    using 0(1) t by (simp_all add: tree_ok_def)
  show ?case
    using leaf_insert[OF geom P v, of key] 0(2,3) unfolding ins_goal_def t root_id.simps by simp
next
  case (Suc h)
  then obtain i ts ks where t: "t = Nd i ts ks" by (cases t) (auto simp: tree_ok_def)
  have P: "tree_at l ps (disk_page s) (Nd i ts ks)" "asc (items cu (Nd i ts ks))"
    using Suc.prems(1) t by (simp_all add: tree_ok_def)
  obtain as u bs ks1 ks2 where S: "ts = as @ u # bs" "ks = ks1 @ ks2" "length as = length ks1"
    "length bs = length ks2" "FindIdx acc (disk_page s i) key (length ks) False = Some (length ks1)"
    "\<forall>e \<in> set ks1. fst (sep_item cu e) < pos key" "\<forall>e \<in> set ks2. pos key \<le> fst (sep_item cu e)"
    by (rule node_setup[OF P, of key])
  have hi: "pos key < fst (sep_item cu e)" if "e \<in> set ks2" "fst (sep_item cu e) \<noteq> pos key" for e
    using S(7) that by force
  show ?case
  proof (cases "\<exists>v0 ks3. ks2 = (key, v0) # ks3 \<and> \<not> cu")
    case True
    then obtain v0 ks3 where k: "ks2 = (key, v0) # ks3" "\<not> cu" by blast
    show ?thesis
      using node_found[OF geom Suc.prems(1)[unfolded t] S(1) S(2)[unfolded k(1)] S(3) _ S(5) k(2) v]
        S(4) k(1) t by simp
  next
    case False
    have strict: "\<forall>e \<in> set ks2. pos key < fst (sep_item cu e)"
    proof (cases ks2)
      case (Cons k ks3)
      have "asc (map (sep_item cu) (ks1 @ ks2))"
        by (rule asc_weave_seps[of "map (items cu) ts"]) (use P S in simp_all)
      then have "asc (sep_item cu k # map (sep_item cu) ks3)" using Cons by (simp add: asc_append)
      moreover have "fst (sep_item cu k) \<noteq> pos key"
      proof (cases cu)
        case True
        then show ?thesis by (simp add: sep_item_def) presburger
      next
        case nc: False
        then have "fst k \<noteq> key" using False Cons by (cases k) auto
        then show ?thesis using nc sint_inject by (simp add: sep_item_def entry_item_def)
      qed
      ultimately show ?thesis using hi Cons by fastforce
    qed simp
    have IH: "ins_goal l ps h u key v s1" if "tree_ok l ps h u s1" "pageCount s1 = pageCount s" for s1
      using Suc.IH[OF that(1)] Suc.prems(2,3) that(2) by simp
    show ?thesis
      using node_step[OF geom _ S(3,4) _ S(6) strict v IH Suc.prems(2,3), of i] Suc.prems(1) S(1,2,5) t
      by simp
  qed
qed

section \<open>Insert\<close>

text \<open>
  \<open>tree_inv l ps tr h t\<close>: the file of \<open>tr\<close> holds the tree \<open>t\<close> of height \<open>h\<close>, whose values
  all have length \<open>l\<close>, in all its pages but the two header pages; page 1 names the root; the
  leaves of a B+ tree are chained from left to right.
\<close>

definition tree_inv :: "nat \<Rightarrow> nat \<Rightarrow> tree \<Rightarrow> nat \<Rightarrow> bt \<Rightarrow> bool" where
  "tree_inv l ps tr h t \<longleftrightarrow>
     tree_ok l ps h t (Pg tr) \<and> root_id t = RootID tr \<and> 2 \<le> pageCount (Pg tr) \<and>
     set (ids t) = {2..<pageCount (Pg tr)} \<and> u32_at (disk_page (Pg tr) 1) 0 = RootID tr \<and>
     (cu \<longrightarrow> chain (disk_page (Pg tr)) (leaves t) InvalidPage)"

lemma WriteHeader_spec:
  assumes inv: "pager_inv {} (Pg tr)" and n: "1 < pageCount (Pg tr)" and ps: "13 \<le> PageSize (Pg tr)"
    and root: "RootID tr < 2 ^ 32"
  obtains s' where "WriteHeader tr = Some (Inr (), \<lparr>Pg = s', RootID = RootID tr\<rparr>)" "pager_inv {} s'"
    "pageCount s' = pageCount (Pg tr)" "PageSize s' = PageSize (Pg tr)"
    "\<forall>j. j \<noteq> 1 \<longrightarrow> disk_page s' j = disk_page (Pg tr) j" "u32_at (disk_page s' 1) 0 = RootID tr"
proof -
  let ?s = "Pg tr"
  have l1: "length (disk_page ?s 1) = PageSize ?s" by (rule disk_page_length[OF inv n])
  let ?p = "upd (disk_page ?s 1) 0 (le_put 4 (RootID tr))"
  have lp: "length ?p = PageSize ?s" using l1 ps by simp
  obtain a s1 s2 where W: "Read 1 ?s = (Inr a, s1)" "bufs s1 a = disk_page ?s 1" "owns_buf s1 1 a"
    "pager_inv {} s1" "Write 1 a (poke a ?p s1) = (Inr (), s2)" "pager_inv {} s2"
    "disk_page s2 = (disk_page ?s)(1 := ?p)" "pageCount s2 = pageCount ?s" "PageSize s2 = PageSize ?s"
    by (rule pg.read_assign_write[OF inv n lp])
  have "wr (disk_page ?s 1) 0 (le_put 4 (RootID tr)) = Some ?p"
    using wr_nat[of "disk_page ?s 1" 0 "le_put 4 (RootID tr)"] l1 ps by (simp del: wr_nat)
  then have "WriteHeader tr = Some (Inr (), tr\<lparr>Pg := s2\<rparr>)"
    unfolding WriteHeader_def using W(1,2,5) by simp
  moreover have "tr\<lparr>Pg := s2\<rparr> = \<lparr>Pg = s2, RootID = RootID tr\<rparr>" by simp
  moreover have "u32_at ?p 0 = RootID tr" using l1 ps root by (simp add: slice_simps)
  ultimately show thesis using that[of s2] W(6-9) by simp
qed

text \<open>A new root over the two halves of the old one.\<close>

lemma new_root:
  assumes geom: "node_geom ps (sz l False)" and ps: "PageSize s = ps" and inv: "pager_inv {} s"
    and lim: "pageCount s < page_limit ps" "pageCount s < 2 ^ 32"
    and sub: "root_id t1 < 2 ^ 32" "root_id t2 < 2 ^ 32"
    and pv: "glen pv < 65536" "\<not> cu \<longrightarrow> glen pv = l"
  obtains s1 s2 a p1 p2 p3 s3 where "Allocate s = (Inr (pageCount s), s1)" "Read (pageCount s) s1 = (Inr a, s2)"
    "InitPage (bufs s2 a) TypeInternal = Some p1" "SetRightmost p1 (root_id t2) = Some p2"
    "AppendCell acc p2 mk pv (root_id t1) = Some p3"
    "Write (pageCount s) a (poke a p3 s2) = (Inr (), s3)"
    "pager_inv {} s3" "PageSize s3 = ps" "pageCount s3 = Suc (pageCount s)"
    "\<forall>j < pageCount s. disk_page s3 j = disk_page s j" "disk_page s3 (pageCount s) = p3"
    "length p3 = ps" "u32_at p3 5 = root_id t2"
    "node_rep enc norm False p3 (map2 node_cell [(mk, sep_val pv)] [t1, t2]) (ps - sz l False)"
proof -
  let ?n = "pageCount s"
  have g: "13 \<le> ps" "ps < 65536" "ptr_off (Suc 0) + sz l False \<le> ps"
    using geom by (simp_all add: node_geom_def)
  obtain s1 where A: "Allocate s = (Inr ?n, s1)" "pager_inv {} s1" "pageCount s1 = Suc ?n"
    "\<forall>j < ?n. disk_page s1 j = disk_page s j" "disk_page s1 ?n = replicate ps 0" "PageSize s1 = ps"
    using pg.alloc_law[OF inv] lim ps by metis
  obtain a s2 where R: "Read ?n s1 = (Inr a, s2)" "pager_inv {} s2" "owns_buf s2 ?n a"
    "bufs s2 a = replicate ps 0" "disk_page s2 = disk_page s1" "pageCount s2 = Suc ?n" "PageSize s2 = ps"
    using pg.read_law[OF A(2), of ?n] A(3,5,6) by auto
  obtain p1 where I: "InitPage (bufs s2 a) TypeInternal = Some p1" "length p1 = ps"
    "page_rep enc False p1 [] ps" "u32_at p1 9 = InvalidPage"
    using InitPage_rep[of "bufs s2 a" False enc] R(4) g by auto
  have rep1: "node_rep enc norm False p1 [] ps" using I(3) by (auto simp: node_rep_def)
  let ?p2 = "upd p1 5 (le_put 4 (root_id t2))"
  note H = node_rep_header[OF rep1, of 5 "root_id t2"]
  have S: "SetRightmost p1 (root_id t2) = Some ?p2" using I(2) g by (simp add: page_defs)
  have sz: "CellSize acc False pv = sz l False"
    using size_value[of pv l False] size_separator[of pv l] pv(2) by (cases cu) auto
  have ok: "cell_ok (mk, pv, root_id t1)" using pv(1) sub(1) by (simp add: cell_ok_def)
  have fit: "ptr_off (Suc (length ([] :: cell list))) + CellSize acc False pv \<le> ps"
    using g(3) sz by simp
  obtain p3 where P: "AppendCell acc ?p2 mk pv (root_id t1) = Some p3" "length p3 = length ?p2"
    "node_rep enc norm False p3 ([] @ [norm False (mk, pv, root_id t1)]) (ps - CellSize acc False pv)"
    "u32_at p3 5 = u32_at ?p2 5"
    using AppendCell_spec[OF H(1) ok fit] sub by blast
  have lp: "length p3 = ps" using P(2) H(2) I(2) sub by simp
  obtain s3 where W: "Write ?n a (poke a p3 s2) = (Inr (), s3)" "pager_inv ({} - {?n}) s3"
    "disk_page s3 = (disk_page s2)(?n := p3)" "pageCount s3 = Suc ?n" "PageSize s3 = ps"
    using pg.assign_write[OF R(2) _ R(3), of p3] R(6,7) lp by auto
  have cells: "[] @ [norm False (mk, pv, root_id t1)] = map2 node_cell [(mk, sep_val pv)] [t1, t2]"
    by (simp add: norm_form node_cell_def sep_val_def)
  show thesis
    by (rule that[OF A(1) R(1) I(1) S P(1) W(1)])
      (use W A R lp P(4) H(3) sub P(3)[unfolded cells sz] in auto)
qed

lemma tree_invD:
  assumes "tree_inv l ps tr h t"
  shows "tree_ok l ps h t (Pg tr)" "root_id t = RootID tr" "2 \<le> pageCount (Pg tr)"
    "set (ids t) = {2..<pageCount (Pg tr)}" "u32_at (disk_page (Pg tr) 1) 0 = RootID tr"
    "cu \<Longrightarrow> chain (disk_page (Pg tr)) (leaves t) InvalidPage"
    "bal h t" "pager_inv {} (Pg tr)" "PageSize (Pg tr) = ps" "tree_at l ps (disk_page (Pg tr)) t"
    "distinct (ids t)" "asc (items cu t)" "h = 0 \<or> full t"
  using assms unfolding tree_inv_def tree_ok_def by blast+

text \<open>What an insertion establishes of the tree it ends with.\<close>

definition grown :: "nat \<Rightarrow> nat \<Rightarrow> key \<Rightarrow> gobytes \<Rightarrow> bt \<Rightarrow> tree \<Rightarrow> bool" where
  "grown l ps key v t tr' \<longleftrightarrow>
     (\<exists>h' t'. tree_inv l ps tr' h' t' \<and> full t' \<and>
        entries cu t' = ins_entry key (Some (gbytes v)) (entries cu t))"

lemma Insert_in_place:
  assumes inv: "tree_inv l ps tr h t"
    and out: "ins_ok l ps h (pos key) (Some (gbytes v)) t (Pg tr) s' [t'] []"
  shows "grown l ps key v t (tr\<lparr>Pg := s'\<rparr>)"
proof -
  note T = tree_invD[OF inv] and C = ins_okD[OF out]
  have n: "pageCount (Pg tr) \<le> pageCount s'" by (rule C(9))
  have ids: "set (ids t') = {2..<pageCount s'}" using C(12) T(3,4) n by auto
  have p1: "disk_page s' 1 = disk_page (Pg tr) 1" by (rule C(13)) (use T(3,4) in auto)
  have rel: "ins_rel (pos key) (Some (gbytes v)) (items cu t) (items cu t')" using C(8) by simp
  have "entries cu t' = ins_entry key (Some (gbytes v)) (entries cu t)"
    by (rule ins_rel_entries[OF rel T(7) C(5) T(12)]) simp
  moreover have "tree_inv l ps (tr\<lparr>Pg := s'\<rparr>) h t'"
    unfolding tree_inv_def tree_ok_def
    using C(1,2,4-7,11) C(15)[OF _ T(6)] ids p1 rel T(2,3,5) n by (auto simp: ins_rel_def)
  ultimately show ?thesis using C(6) unfolding grown_def by auto
qed

lemma Insert_new_root:
  assumes geom: "tree_geom l ps" and inv: "tree_inv l ps tr h t"
    and out: "ins_ok l ps h (pos key) (Some (gbytes v)) t (Pg tr) s' [t1, t2] [(mk, sep_val pv)]"
    and pv: "glen pv < 65536" "\<not> cu \<longrightarrow> glen pv = l"
    and lim: "pageCount s' < page_limit ps" "pageCount s' < 2 ^ 32"
  obtains s1 s2 a p1 p2 p3 s3 tr' where "Allocate s' = (Inr (pageCount s'), s1)"
    "Read (pageCount s') s1 = (Inr a, s2)"
    "InitPage (bufs s2 a) TypeInternal = Some p1" "SetRightmost p1 (root_id t2) = Some p2"
    "AppendCell acc p2 mk pv (RootID tr) = Some p3"
    "Write (pageCount s') a (poke a p3 s2) = (Inr (), s3)" "root_id t2 < 2 ^ 32"
    "WriteHeader \<lparr>Pg = s3, RootID = pageCount s'\<rparr> = Some (Inr (), tr')"
    "grown l ps key v t tr'"
proof -
  let ?n = "pageCount s'"
  note T = tree_invD[OF inv] and C = ins_okD[OF out]
  have ids: "set (ids t1) \<union> set (ids t2) = {2..<?n}" using C(9,12) T(3,4) by auto
  have r: "root_id t1 < ?n" "root_id t2 < ?n" "root_id t1 = RootID tr"
    using root_in_ids[of t1] root_in_ids[of t2] ids C(4) T(2) by auto
  have g0: "node_geom ps (sz l False)" using geom by (simp add: tree_geom_def)
  then have g: "node_geom ps (sz l False)" "13 \<le> ps" by (simp_all add: node_geom_def)
  obtain s1 s2 a p1 p2 p3 s3 where R: "Allocate s' = (Inr ?n, s1)" "Read ?n s1 = (Inr a, s2)"
    "InitPage (bufs s2 a) TypeInternal = Some p1" "SetRightmost p1 (root_id t2) = Some p2"
    "AppendCell acc p2 mk pv (root_id t1) = Some p3"
    "Write ?n a (poke a p3 s2) = (Inr (), s3)"
    "pager_inv {} s3" "PageSize s3 = ps" "pageCount s3 = Suc ?n"
    "\<forall>j < ?n. disk_page s3 j = disk_page s' j" "disk_page s3 ?n = p3"
    "length p3 = ps" "u32_at p3 5 = root_id t2"
    "node_rep enc norm False p3 (map2 node_cell [(mk, sep_val pv)] [t1, t2]) (ps - sz l False)"
    by (rule new_root[OF g(1) C(2,1) lim _ _ pv, where mk = mk and ?t1.0 = t1 and ?t2.0 = t2])
      (use r lim(2) in auto)
  have n1: "1 < ?n" using T(3) C(9) by simp
  obtain s4 where W: "WriteHeader \<lparr>Pg = s3, RootID = ?n\<rparr> = Some (Inr (), \<lparr>Pg = s4, RootID = ?n\<rparr>)"
    "pager_inv {} s4" "pageCount s4 = Suc ?n" "PageSize s4 = ps"
    "\<forall>j. j \<noteq> 1 \<longrightarrow> disk_page s4 j = disk_page s3 j" "u32_at (disk_page s4 1) 0 = ?n"
    using WriteHeader_spec[of "\<lparr>Pg = s3, RootID = ?n\<rparr>"] R(7-9) g(2) n1 lim(2) by auto
  let ?t = "Nd ?n [t1, t2] [(mk, sep_val pv)]"
  have rng: "2 \<le> j \<and> j < ?n" if "j \<in> set (ids t1) \<union> set (ids t2)" for j
    using that unfolding ids by simp
  have same: "\<forall>j \<in> set (ids u). disk_page s4 j = disk_page s' j" if "u \<in> {t1, t2}" for u
  proof
    fix j assume "j \<in> set (ids u)"
    then have "2 \<le> j \<and> j < ?n" using rng that by auto
    then show "disk_page s4 j = disk_page s' j" using W(5) R(10) by simp
  qed
  have at: "tree_at l ps (disk_page s4) t1" "tree_at l ps (disk_page s4) t2"
    using C(7) tree_at_cong[OF same] by auto
  have pn: "disk_page s4 ?n = p3" using W(5) R(11) n1 by simp
  have sv: "\<not> cu \<longrightarrow> glen (sep_val pv) = l" using pv(2) by (simp add: sep_val_def glen_def)
  have nin: "?n \<notin> set (ids t1)" "?n \<notin> set (ids t2)" using ids by auto
  have ch: "chain (disk_page s4) (leaves ?t) InvalidPage" if cu
  proof -
    have "chain (disk_page s') (leaves t1 @ leaves t2) InvalidPage" using C(15)[OF that T(6)[OF that]] by simp
    moreover have "\<forall>j \<in> set (leaves t1 @ leaves t2). disk_page s4 j = disk_page s' j"
      using same leaves_ids[of t1] leaves_ids[of t2] by auto
    ultimately show ?thesis using chain_cong by (metis append_Nil2 concat.simps leaves.simps(2) list.simps(8,9))
  qed
  have ok: "tree_ok l ps (Suc h) ?t s4"
    unfolding tree_ok_def using W(2-4) at C(5,6,8,11) pn R(12-14) sv nin ids
    by (auto simp: ins_rel_def)
  have "tree_inv l ps \<lparr>Pg = s4, RootID = ?n\<rparr> (Suc h) ?t"
    unfolding tree_inv_def using ok W(3,6) ids n1 ch by auto
  moreover have "entries cu ?t = ins_entry key (Some (gbytes v)) (entries cu t)"
    by (rule ins_rel_entries[OF _ T(7) _ T(12), of _ _ _ "Suc h"]) (use C(5,8) in auto)
  moreover have "full ?t" using C(6) by simp
  ultimately have "grown l ps key v t \<lparr>Pg = s4, RootID = ?n\<rparr>"
    unfolding grown_def by blast
  with that R(1-6) r lim(2) W(1) show thesis by auto
qed

lemma Tree_Insert_spec:
  assumes geom: "tree_geom l ps" and v: "glen v = l" and inv: "tree_inv l ps tr h t"
    and lim: "pageCount (Pg tr) + Suc h < page_limit ps" "pageCount (Pg tr) + Suc h < 2 ^ 32"
  obtains tr' where "Tree_Insert acc key v tr = Some (Inr (), tr')" "grown l ps key v t tr'"
proof -
  note T = tree_invD[OF inv]
  obtain r s' ts ks where R: "insertRec acc (RootID tr) key v (Pg tr) = Some (r, s')"
    "res_ok l r ts ks" "ins_ok l ps h (pos key) (Some (gbytes v)) t (Pg tr) s' ts ks"
    using insertRec_spec[OF geom v T(1), of key] lim T(2) by (auto simp: ins_goal_def)
  from R(2)[unfolded res_ok_def] show thesis
  proof (elim disjE exE conjE)
    assume r: "r = Inr None" "ks = []" "length ts = 1"
    then obtain t' where t': "ts = [t']" by (cases ts) auto
    have "Tree_Insert acc key v tr = Some (Inr (), tr\<lparr>Pg := s'\<rparr>)"
      unfolding Tree_Insert_def R(1) r(1) by simp
    moreover have "grown l ps key v t (tr\<lparr>Pg := s'\<rparr>)"
      by (rule Insert_in_place[OF inv]) (use R(3) t' r(2) in simp)
    ultimately show thesis using that by blast
  next
    fix mk pv t1 t2
    assume r: "r = Inr (Some (mk, pv, root_id t2))" "ts = [t1, t2]" "ks = [(mk, sep_val pv)]"
      "glen pv < 65536" "\<not> cu \<longrightarrow> glen pv = l"
    have n: "pageCount s' \<le> pageCount (Pg tr) + Suc h" by (rule ins_okD(10)[OF R(3)])
    have n': "pageCount s' < page_limit ps" "pageCount s' < 2 ^ 32" using n lim by linarith+
    obtain s1 s2 a p1 p2 p3 s3 tr' where W: "Allocate s' = (Inr (pageCount s'), s1)"
      "Read (pageCount s') s1 = (Inr a, s2)"
      "InitPage (bufs s2 a) TypeInternal = Some p1" "SetRightmost p1 (root_id t2) = Some p2"
      "AppendCell acc p2 mk pv (RootID tr) = Some p3"
      "Write (pageCount s') a (poke a p3 s2) = (Inr (), s3)" "root_id t2 < 2 ^ 32"
      "WriteHeader \<lparr>Pg = s3, RootID = pageCount s'\<rparr> = Some (Inr (), tr')" "grown l ps key v t tr'"
      using Insert_new_root[OF geom inv R(3)[unfolded r(2,3)] r(4,5) n'] .
    have "Tree_Insert acc key v tr = Some (Inr (), tr')"
      unfolding Tree_Insert_def R(1) r(1) using W(1-8) n'(2)
      by (simp add: ignored_id_def)
    then show thesis using that W(9) by blast
  qed
qed

end

end
