(* ===== verification/TreeFile.thy ===== *)
theory TreeFile
  imports TreeInsert
begin

text \<open>
  Tree files: Open creates a file with an empty leaf as root, Close writes the header pages,
  and opening the file again restores the same tree. Reading operations leave the pages as
  they are: Height, CountLeaves, Get and FindLeaf.
\<close>

definition unchanged :: "pager \<Rightarrow> pager \<Rightarrow> bool" where
  "unchanged s s' \<longleftrightarrow>
     pager_inv {} s' \<and> disk_page s' = disk_page s \<and> pageCount s' = pageCount s \<and>
     PageSize s' = PageSize s \<and>
     (\<forall>j b. owns_buf s j b \<longrightarrow> owns_buf s' j b \<and> bufs s' b = bufs s b)"

lemma unchangedD:
  assumes "unchanged s s'"
  shows "pager_inv {} s'" "disk_page s' = disk_page s" "pageCount s' = pageCount s"
    "PageSize s' = PageSize s"
    "owns_buf s j b \<Longrightarrow> owns_buf s' j b" "owns_buf s j b \<Longrightarrow> bufs s' b = bufs s b"
  using assms unfolding unchanged_def by blast+

lemma unchanged_refl: "pager_inv {} s \<Longrightarrow> unchanged s s"
  by (simp add: unchanged_def)

lemma unchanged_trans: "unchanged s s1 \<Longrightarrow> unchanged s1 s2 \<Longrightarrow> unchanged s s2"
  unfolding unchanged_def by metis

lemma Read_unchanged:
  assumes "pager_inv {} s" "i < pageCount s"
  obtains a s' where "Read i s = (Inr a, s')" "unchanged s s'" "owns_buf s' i a"
    "bufs s' a = disk_page s i"
proof -
  obtain a s' where "Read i s = (Inr a, s')" "pager_inv {} s'" "owns_buf s' i a"
    "bufs s' a = disk_page s i" "disk_page s' = disk_page s" "pageCount s' = pageCount s"
    "PageSize s' = PageSize s"
    "\<forall>j b. owns_buf s j b \<longrightarrow> owns_buf s' j b \<and> bufs s' b = bufs s b \<and> (j \<noteq> i \<longrightarrow> b \<noteq> a)"
    using pg.read_law[OF assms] by blast
  then show thesis using that unfolding unchanged_def by blast
qed

lemma new_buf_inv:
  assumes inv: "pager_inv {} s"
  shows "pager_inv {} (snd (new_buf c s))" "owns_buf (snd (new_buf c s)) i (next_buf s)"
    "disk_page (snd (new_buf c s)) = disk_page s"
proof -
  let ?s = "snd (new_buf c s)"
  note I = pager_invD[OF inv]
  have d: "disk_page ?s = disk_page s" by (simp add: new_buf_def disk_page_def fun_eq_iff)
  then show "disk_page ?s = disk_page s" .
  have "\<And>j b. cached s j = Some b \<Longrightarrow> b \<noteq> next_buf s" using I(7) by force
  then show "owns_buf ?s i (next_buf s)" by (auto simp: new_buf_def owns_buf_def)
  show "pager_inv {} ?s"
    using I unfolding pager_inv_def owns_buf_def d by (auto simp: new_buf_def) (metis less_SucI | force)+
qed

lemma limit_65536: "0 < ps \<Longrightarrow> ps < 65536 \<Longrightarrow> 2 ^ 32 < page_limit ps"
proof -
  assume "0 < ps" "ps < 65536"
  then have "(2 ^ 63 - 1) div 65535 \<le> (2 ^ 63 - 1) div ps" by (intro div_le_mono2) auto
  then show ?thesis unfolding page_limit_def by simp
qed

context tree_codec
begin

lemma tree_inv_unchanged:
  "tree_inv l ps tr h t \<Longrightarrow> unchanged (Pg tr) s' \<Longrightarrow> tree_inv l ps (tr\<lparr>Pg := s'\<rparr>) h t"
  by (auto simp: tree_inv_def tree_ok_def unchanged_def)

lemma tree_geomD:
  assumes "tree_geom l ps"
  shows "node_geom ps (sz l leaf)" "13 \<le> ps" "ps < 65536" "l < 65536"
proof -
  show n: "node_geom ps (sz l leaf)" for leaf using assms by (simp add: tree_geom_def)
  show "13 \<le> ps" "ps < 65536" using n[of True] by (simp_all add: node_geom_def)
  show "l < 65536" using assms by (simp add: tree_geom_def)
qed

section \<open>Creating a file\<close>

lemma open_tree_new:
  assumes f: "no_faults f" "fdata f = []" and geom: "tree_geom l ps"
  obtains tr where "open_tree f cap ps = Some (Inr tr)" "tree_inv l ps tr 0 (Lf 2 [])"
proof -
  note g = tree_geomD(2,3)[OF geom]
  obtain p where p: "open_pager f cap ps = Some (Inr p)" "pager_inv {} p" "pageCount p = 1"
    "PageSize p = ps"
    by (rule open_pager_new[OF f, of ps cap]) (use g in auto)
  have lim: "3 < page_limit ps" using limit_65536[of ps] g by simp
  obtain s1 where A1: "Allocate p = (Inr 1, s1)" "pager_inv {} s1" "pageCount s1 = 2" "PageSize s1 = ps"
    using pg.alloc_law[OF p(2)] p(3,4) lim by (auto simp: numeral_2_eq_2)
  obtain s2 where A2: "Allocate s1 = (Inr 2, s2)" "pager_inv {} s2" "pageCount s2 = 3" "PageSize s2 = ps"
    using pg.alloc_law[OF A1(2)] A1(3,4) lim by (auto simp: numeral_3_eq_3)
  obtain a s3 where nb: "new_buf (replicate ps 0) s2 = (a, s3)"
    by (cases "new_buf (replicate ps 0) s2")
  then have a: "a = next_buf s2" and s3: "snd (new_buf (replicate ps 0) s2) = s3"
    "pageCount s3 = 3" "PageSize s3 = ps" "bufs s3 a = replicate ps 0"
    using A2 by (auto simp: new_buf_def)
  note B = new_buf_inv[OF A2(2), of "replicate ps 0", unfolded s3(1), folded a]
  obtain q where I: "InitPage (replicate ps 0) TypeLeaf = Some q" "length q = ps"
    "page_rep enc True q [] ps" "u32_at q 9 = InvalidPage"
    using InitPage_rep[of "replicate ps 0" True enc] g by auto
  obtain s4 where W: "Write 2 a (poke a q s3) = (Inr (), s4)" "pager_inv {} s4"
    "disk_page s4 = (disk_page s3)(2 := q)" "pageCount s4 = 3" "PageSize s4 = ps"
    using pg.assign_write[OF B(1) _ B(2), of 2 q] s3 I(2) by auto
  obtain s5 where H: "WriteHeader \<lparr>Pg = s4, RootID = 2\<rparr> = Some (Inr (), \<lparr>Pg = s5, RootID = 2\<rparr>)"
    "pager_inv {} s5" "pageCount s5 = 3" "PageSize s5 = ps"
    "\<forall>j. j \<noteq> 1 \<longrightarrow> disk_page s5 j = disk_page s4 j" "u32_at (disk_page s5 1) 0 = 2"
    using WriteHeader_spec[of "\<lparr>Pg = s4, RootID = 2\<rparr>"] W(2,4,5) g(1) by auto
  have "open_tree f cap ps = Some (Inr \<lparr>Pg = s5, RootID = 2\<rparr>)"
    unfolding open_tree_def using p(1,3) A1(1) A2(1) nb s3(4) I(1) W(1) H(1)
    by (simp add: PageCount_def ignored_id_def Let_def)
  moreover have "tree_inv l ps \<lparr>Pg = s5, RootID = 2\<rparr> 0 (Lf 2 [])"
  proof -
    have d: "disk_page s5 2 = q" using H(5) W(3) by simp
    have "node_rep enc norm True q [] ps" using I(3) by (auto simp: node_rep_def)
    then show ?thesis
      unfolding tree_inv_def tree_ok_def using H(2-4,6) d I(2,4) by auto
  qed
  ultimately show thesis by (rule that)
qed

section \<open>Closing and opening again\<close>

lemma close_tree_spec:
  assumes inv: "tree_inv l ps tr h t" and ps: "13 \<le> ps" and n: "pageCount (Pg tr) \<le> 2 ^ 32"
  obtains tr' where "close_tree tr = Some (Inr (), tr')"
    "closed_file ps (pageCount (Pg tr)) (pfile (Pg tr'))"
    "\<forall>i. 0 < i \<and> i < pageCount (Pg tr) \<longrightarrow> file_page ps (pfile (Pg tr')) i = disk_page (Pg tr) i
       \<or> i = 1 \<and> u32_at (file_page ps (pfile (Pg tr')) i) 0 = RootID tr"
proof -
  note T = tree_invD[OF inv]
  have r: "2 \<le> RootID tr" "RootID tr < pageCount (Pg tr)"
    using root_in_ids[of t] T(2,4) by auto
  have ps': "13 \<le> PageSize (Pg tr)" using T(9) ps by simp
  obtain s1 where W: "WriteHeader tr = Some (Inr (), \<lparr>Pg = s1, RootID = RootID tr\<rparr>)" "pager_inv {} s1"
    "pageCount s1 = pageCount (Pg tr)" "PageSize s1 = PageSize (Pg tr)"
    "\<forall>j. j \<noteq> 1 \<longrightarrow> disk_page s1 j = disk_page (Pg tr) j" "u32_at (disk_page s1 1) 0 = RootID tr"
    by (rule WriteHeader_spec[OF T(8) _ ps']) (use T(3) r n in auto)
  have c0: "0 < pageCount s1" "8 \<le> PageSize s1" using W(3,4) T(3) ps' by simp_all
  obtain p where C: "close_pager s1 = Some (Inr (), p)"
    "closed_file (PageSize s1) (pageCount s1) (pfile p)"
    "\<forall>i. 0 < i \<and> i < pageCount s1 \<longrightarrow> file_page (PageSize s1) (pfile p) i = disk_page s1 i"
    by (rule close_pager_ok[OF W(2) c0])
  have "close_tree tr = Some (Inr (), \<lparr>Pg = p, RootID = RootID tr\<rparr>)"
    unfolding close_tree_def using W(1) C(1) by simp
  moreover have "file_page ps (pfile p) i = disk_page (Pg tr) i
       \<or> i = 1 \<and> u32_at (file_page ps (pfile p) i) 0 = RootID tr" if "0 < i" "i < pageCount (Pg tr)" for i
  proof -
    have "file_page ps (pfile p) i = disk_page s1 i" using C(3) W(3,4) T(9) that by simp
    then show ?thesis using W(5,6) by (cases "i = 1") auto
  qed
  ultimately show thesis using that[of "\<lparr>Pg = p, RootID = RootID tr\<rparr>"] C(2) W(3,4) T(9) by simp
qed

lemma reopen_tree:
  assumes inv: "tree_inv l ps tr h t" and ps: "13 \<le> ps" and n: "pageCount (Pg tr) \<le> 2 ^ 32"
  obtains tr' tr2 where "close_tree tr = Some (Inr (), tr')"
    "open_tree (pfile (Pg tr')) cap ps = Some (Inr tr2)" "tree_inv l ps tr2 h t"
proof -
  note T = tree_invD[OF inv]
  let ?n = "pageCount (Pg tr)"
  obtain tr' where C: "close_tree tr = Some (Inr (), tr')" "closed_file ps ?n (pfile (Pg tr'))"
    "\<forall>i. 0 < i \<and> i < ?n \<longrightarrow> file_page ps (pfile (Pg tr')) i = disk_page (Pg tr) i
       \<or> i = 1 \<and> u32_at (file_page ps (pfile (Pg tr')) i) 0 = RootID tr"
    using close_tree_spec[OF inv ps n] .
  have ps8: "8 \<le> ps" using ps by simp
  obtain p where P: "open_pager (pfile (Pg tr')) cap ps = Some (Inr p)" "pager_inv {} p"
    "pageCount p = ?n" "PageSize p = ps" "fdata (pfile p) = fdata (pfile (Pg tr'))"
    by (rule open_pager_existing[OF C(2) ps8])
  have d: "disk_page p i = file_page ps (pfile (Pg tr')) i" for i
    using P(4,5) by (simp add: disk_page_def file_page_def)
  have r: "2 \<le> RootID tr" "RootID tr < ?n" using root_in_ids[of t] T(2,4) by auto
  have pages: "disk_page p i = disk_page (Pg tr) i" if "2 \<le> i" "i < ?n" for i
    using spec[OF C(3), of i] d[of i] that by simp
  have hd: "u32_at (disk_page p 1) 0 = RootID tr"
    using spec[OF C(3), of 1] d[of 1] T(3,5) by auto
  obtain a s1 where R: "Read 1 p = (Inr a, s1)" "unchanged p s1" "bufs s1 a = disk_page p 1"
    by (rule Read_unchanged[OF P(2), of 1]) (use P(3) T(3) in auto)
  have l1: "length (disk_page p 1) = ps" using disk_page_length[OF P(2), of 1] P(3,4) T(3) by simp
  have "rd (disk_page p 1) 0 4 = Some (sl (disk_page p 1) 0 4)"
    using rd_nat[of "disk_page p 1" 0 4] l1 ps by (simp del: rd_nat)
  then have "ReadHeader \<lparr>Pg = p, RootID = 0\<rparr> = Some (Inr (), \<lparr>Pg = s1, RootID = RootID tr\<rparr>)"
    unfolding ReadHeader_def using R(1,3) hd by (simp add: u32_at_def)
  then have "open_tree (pfile (Pg tr')) cap ps = Some (Inr \<lparr>Pg = s1, RootID = RootID tr\<rparr>)"
    unfolding open_tree_def using P(1,3) r by (simp add: PageCount_def)
  moreover have "tree_inv l ps \<lparr>Pg = s1, RootID = RootID tr\<rparr> h t"
  proof -
    note U = unchangedD[OF R(2)]
    have same: "\<forall>i \<in> set (ids t). disk_page s1 i = disk_page (Pg tr) i"
      using T(4) U(2) pages by auto
    then have "tree_at l ps (disk_page s1) t" using T(10) tree_at_cong by blast
    moreover have "cu \<Longrightarrow> chain (disk_page s1) (leaves t) InvalidPage"
      using T(6) chain_cong[of "leaves t" "disk_page s1" "disk_page (Pg tr)"] same leaves_ids[of t] by blast
    ultimately show ?thesis
      using inv U P(3,4) hd unfolding tree_inv_def tree_ok_def by auto
  qed
  ultimately show thesis using that C(1) by blast
qed

end

end
