(* ===== verification/TreeRead.thy ===== *)
theory TreeRead
  imports TreeFile
begin

text \<open>
  The reading operations of the engine on a well-formed tree file: they return what the
  abstract tree says and leave every page and every buffer in use as it is.
\<close>

context tree_codec
begin

section \<open>Reading one node\<close>

lemma node_reads:
  assumes "tree_at l ps P (Nd i ts ks)"
  shows "NumCells (P i) = Some (length ks)" "isLeaf (P i) = Some False"
    "page_type (P i) = Some TypeInternal" "Rightmost (P i) = Some (root_id (last ts))"
    "j < length ks \<Longrightarrow> ReadCell acc (P i) j False = Some (fst (ks ! j), snd (ks ! j), root_id (ts ! j))"
    "j \<le> length ks \<Longrightarrow> ChildAt acc (P i) j (length ks) = Some (root_id (ts ! j))"
proof -
  have T: "length ts = Suc (length ks)" "u32_at (P i) 5 = root_id (last ts)"
    "node_rep enc norm False (P i) (map2 node_cell ks ts) (ps - length ks * sz l False)"
    using assms by simp_all
  have n: "length (map2 node_cell ks ts) = length ks" using T(1) by simp
  note N = node_repD[OF T(3), unfolded n]
  show "NumCells (P i) = Some (length ks)" "isLeaf (P i) = Some False"
    "page_type (P i) = Some TypeInternal" "Rightmost (P i) = Some (root_id (last ts))"
    using N T(2) by simp_all
  have rd: "ReadCell acc (P i) j False = Some (fst (ks ! j), snd (ks ! j), root_id (ts ! j))"
    if "j < length ks" for j
    using node_read[OF T(3), of j] that T(1) by (simp add: node_cell_def)
  then show "j < length ks \<Longrightarrow> ReadCell acc (P i) j False = Some (fst (ks ! j), snd (ks ! j), root_id (ts ! j))" .
  have "last ts = ts ! length ks" using T(1) by (metis diff_Suc_1 last_conv_nth length_0_conv nat.distinct(1))
  then show "j \<le> length ks \<Longrightarrow> ChildAt acc (P i) j (length ks) = Some (root_id (ts ! j))"
    using rd[of j] N(9) T(2) by (auto simp: ChildAt_def)
qed

lemma leaf_reads:
  assumes "tree_at l ps P (Lf i xs)"
  shows "NumCells (P i) = Some (length xs)" "isLeaf (P i) = Some True"
    "page_type (P i) = Some TypeLeaf" "NextLeaf (P i) = Some (u32_at (P i) 9)"
    "j < length xs \<Longrightarrow> ReadCell acc (P i) j True = Some (fst (xs ! j), snd (xs ! j), 0)"
proof -
  have T: "node_rep enc norm True (P i) (map leaf_cell xs) (ps - length xs * sz l True)"
    using assms by simp
  note N = node_repD[OF T]
  show "NumCells (P i) = Some (length xs)" "isLeaf (P i) = Some True"
    "page_type (P i) = Some TypeLeaf" "NextLeaf (P i) = Some (u32_at (P i) 9)"
    using N by simp_all
  show "j < length xs \<Longrightarrow> ReadCell acc (P i) j True = Some (fst (xs ! j), snd (xs ! j), 0)"
    using node_read[OF T, of j] by (simp add: leaf_cell_def)
qed

lemma leaf_search:
  assumes t: "tree_at l ps P (Lf i xs)" and asc: "sorted_entries xs"
  obtains idx where "FindIdx acc (P i) key (length xs) True = Some idx" "idx \<le> length xs"
    "\<And>e. e \<in> set (take idx xs) \<Longrightarrow> sint (fst e) < sint key"
    "\<And>e. e \<in> set (drop idx xs) \<Longrightarrow> sint key \<le> sint (fst e)"
proof -
  obtain idx where idx: "idx \<le> length xs"
    "\<And>e. e \<in> set (take idx xs) \<Longrightarrow> sint (fst e) < sint key"
    "\<And>e. e \<in> set (drop idx xs) \<Longrightarrow> sint key \<le> sint (fst e)"
    using takeWhile_split[of "\<lambda>e. sint (fst e)" xs "sint key"] asc
    unfolding sorted_entries_def by blast
  have T: "node_rep enc norm True (P i) (map leaf_cell xs) (ps - length xs * sz l True)"
    using t by simp
  have nt: "xs ! j \<in> set (take idx xs)" if "j < idx" for j
  proof -
    have "take idx xs ! j \<in> set (take idx xs)" by (rule nth_mem) (use that idx(1) in simp)
    then show ?thesis using that by simp
  qed
  have nd: "xs ! j \<in> set (drop idx xs)" if "idx \<le> j" "j < length xs" for j
  proof -
    have "drop idx xs ! (j - idx) \<in> set (drop idx xs)" by (rule nth_mem) (use that in simp)
    then show ?thesis using that by simp
  qed
  have "FindIdx acc (P i) key (length (map leaf_cell xs)) True = Some idx"
  proof (rule FindIdx_at[OF T])
    show "before True key (map leaf_cell xs ! j)" if "j < idx" for j
      using idx(2)[OF nt[OF that]] that idx(1) by (simp add: before_def leaf_cell_def)
    show "\<not> before True key (map leaf_cell xs ! j)" if "idx \<le> j" "j < length (map leaf_cell xs)" for j
      using idx(3)[OF nd[of j]] that by (simp add: before_def leaf_cell_def not_less)
  qed (use idx in simp)
  then show thesis using that idx by simp
qed

section \<open>Height and CountLeaves\<close>

lemma height_loop_spec:
  "bal h t \<Longrightarrow> pager_inv {} s \<Longrightarrow> tree_at l ps (disk_page s) t \<Longrightarrow> set (ids t) \<subseteq> {..<pageCount s} \<Longrightarrow>
   \<exists>s'. height_loop (root_id t) n s = Some (n + h, s') \<and> unchanged s s'"
proof (induction h arbitrary: t s n)
  case 0
  then obtain i xs where t: "t = Lf i xs" by (cases t) auto
  have i: "i < pageCount s" using 0 t by simp
  obtain a s' where R: "Read i s = (Inr a, s')" "unchanged s s'" "bufs s' a = disk_page s i"
    by (rule Read_unchanged[OF 0(2) i])
  then show ?case using leaf_reads(3)[of l ps "disk_page s" i xs] 0 t
    by (simp add: height_loop.simps)
next
  case (Suc h)
  then obtain i ts ks where t: "t = Nd i ts ks" by (cases t) auto
  have i: "i < pageCount s" using Suc.prems t by simp
  obtain a s1 where R: "Read i s = (Inr a, s1)" "unchanged s s1" "bufs s1 a = disk_page s i"
    by (rule Read_unchanged[OF Suc.prems(2) i])
  note U = unchangedD[OF R(2)]
  have ne: "last ts \<in> set ts" using Suc.prems(1) t by (cases ts) auto
  have sub: "set (ids (last ts)) \<subseteq> {..<pageCount s1}"
    using Suc.prems(4) U(3) t ids_below[OF ne] by auto
  have L: "bal h (last ts)" "tree_at l ps (disk_page s1) (last ts)"
    using Suc.prems(1,3) t ne U(2) by auto
  obtain s2 where "height_loop (root_id (last ts)) (n + 1) s1 = Some (n + 1 + h, s2)" "unchanged s1 s2"
    using Suc.IH[OF L(1) U(1) L(2) sub] by blast
  then show ?case
    using node_reads(3,4)[of l ps "disk_page s" i ts ks] Suc.prems(3) t R unchanged_trans
    by (subst height_loop.simps) auto
qed

lemma countLeaves_spec:
  "bal h t \<Longrightarrow> pager_inv {} s \<Longrightarrow> tree_at l ps (disk_page s) t \<Longrightarrow> set (ids t) \<subseteq> {..<pageCount s} \<Longrightarrow>
   \<exists>s'. countLeavesRec acc (root_id t) s = Some (length (leaves t), s') \<and> unchanged s s'"
proof (induction h arbitrary: t s)
  case 0
  then obtain i xs where t: "t = Lf i xs" by (cases t) auto
  have i: "i < pageCount s" using 0 t by simp
  obtain a s' where R: "Read i s = (Inr a, s')" "unchanged s s'" "bufs s' a = disk_page s i"
    by (rule Read_unchanged[OF 0(2) i])
  then show ?case using leaf_reads(2)[of l ps "disk_page s" i xs] 0 t
    by (simp add: countLeavesRec.simps)
next
  case (Suc h)
  then obtain i ts ks where t: "t = Nd i ts ks" by (cases t) auto
  have i: "i < pageCount s" using Suc.prems t by simp
  obtain a s1 where R: "Read i s = (Inr a, s1)" "unchanged s s1" "owns_buf s1 i a"
    "bufs s1 a = disk_page s i"
    by (rule Read_unchanged[OF Suc.prems(2) i])
  note U1 = unchangedD[OF R(2)]
  let ?P = "disk_page s"
  have N: "tree_at l ps ?P (Nd i ts ks)" "length ts = Suc (length ks)" using Suc.prems(3) t by simp_all
  note rd = node_reads[OF N(1)]
  have child: "\<exists>s''. countLeavesRec acc (root_id u) s' = Some (length (leaves u), s'') \<and> unchanged s' s''"
    if "u \<in> set ts" "unchanged s1 s'" for u s'
  proof -
    have U: "unchanged s s'" using unchanged_trans R(2) that(2) by blast
    note V = unchangedD[OF U]
    have "set (ids u) \<subseteq> {..<pageCount s'}"
      using Suc.prems(4) V(3) t ids_below[OF that(1)] by auto
    moreover have "bal h u" "tree_at l ps (disk_page s') u" using Suc.prems(1,3) t that(1) V(2) by auto
    ultimately show ?thesis using Suc.IH V(1) by blast
  qed
  let ?body = "\<lambda>j (count, s'). do {
                (_, _, lc) \<leftarrow> ReadCell acc (bufs s' a) j False;
                (c, s'') \<leftarrow> countLeavesRec acc lc s';
                Some (count + c, s'')
              }"
  have loop: "\<exists>s2. foldM ?body [0..<j] (0, s1) =
      Some (sum_list (map (\<lambda>u. length (leaves u)) (take j ts)), s2) \<and> unchanged s1 s2"
    if "j \<le> length ks" for j
    using that
  proof (induction j)
    case 0
    show ?case using unchanged_refl[OF U1(1)] by simp
  next
    case (Suc j)
    then obtain s2 where F: "foldM ?body [0..<j] (0, s1) =
      Some (sum_list (map (\<lambda>u. length (leaves u)) (take j ts)), s2)" "unchanged s1 s2" by auto
    have b: "bufs s2 a = ?P i" using unchangedD(6)[OF F(2) R(3)] R(4) by simp
    have tj: "ts ! j \<in> set ts" using Suc.prems N(2) by simp
    obtain s3 where C: "countLeavesRec acc (root_id (ts ! j)) s2 = Some (length (leaves (ts ! j)), s3)"
      "unchanged s2 s3"
      using child[OF tj F(2)] by blast
    have "foldM ?body [0..<Suc j] (0, s1) =
        Some (sum_list (map (\<lambda>u. length (leaves u)) (take (Suc j) ts)), s3)"
      using F(1) b rd(5)[of j] Suc.prems C(1) N(2) by (simp add: foldM_append take_Suc_conv_app_nth)
    then show ?case using unchanged_trans[OF F(2) C(2)] by blast
  qed
  obtain s2 where F: "foldM ?body [0..<length ks] (0, s1) =
      Some (sum_list (map (\<lambda>u. length (leaves u)) (take (length ks) ts)), s2)" "unchanged s1 s2"
    using loop[of "length ks"] by blast
  have b: "bufs s2 a = ?P i" using unchangedD(6)[OF F(2) R(3)] R(4) by simp
  have ne: "last ts \<in> set ts" using N(2) by (cases ts) auto
  obtain s3 where C: "countLeavesRec acc (root_id (last ts)) s2 = Some (length (leaves (last ts)), s3)"
    "unchanged s2 s3"
    using child[OF ne F(2)] by blast
  have sum: "sum_list (map (\<lambda>u. length (leaves u)) (take (length ks) ts)) + length (leaves (last ts)) =
      length (leaves t)"
  proof -
    have "ts = take (length ks) ts @ [last ts]"
      using N(2) by (metis append_butlast_last_id butlast_conv_take diff_Suc_1 length_0_conv nat.distinct(1))
    then have "sum_list (map (\<lambda>u. length (leaves u)) ts) =
        sum_list (map (\<lambda>u. length (leaves u)) (take (length ks) ts)) + length (leaves (last ts))"
      by (metis (no_types, lifting) list.map(1,2) map_append sum_list.append sum_list_simps(2) sum_list.Nil add.right_neutral)
    then show ?thesis using t by (simp add: length_concat comp_def)
  qed
  have "countLeavesRec acc (root_id t) s = Some (length (leaves t), s3)"
    unfolding t root_id.simps using R(1,4) rd(1,2,4) F(1) b C(1) sum t
    by (subst countLeavesRec.simps) simp
  then show ?case using unchanged_trans R(2) F(2) C(2) by blast
qed

end

end
