(* ===== verification/TreeLookup.thy ===== *)
theory TreeLookup
  imports TreeRead
begin

text \<open>
  Descending by binary search: Get on a tree whose internal nodes hold entries (B-tree), and
  FindLeaf, which finds the only leaf that can hold a key.
\<close>

definition found :: "gobytes option \<Rightarrow> gobytes" where
  "found x = (case x of None \<Rightarrow> None | Some w \<Rightarrow> w)"

context tree_codec
begin

text \<open>The items left and right of the subtree that the search enters.\<close>

lemma node_items:
  assumes asc: "asc (items cu (Nd i (as @ u # bs) (ks1 @ ks2)))"
    and len: "length as = length ks1" "length bs = length ks2"
    and lo: "\<forall>e \<in> set ks1. fst (sep_item cu e) < p" and hi: "\<forall>e \<in> set ks2. p \<le> fst (sep_item cu e)"
  obtains L R where "items cu (Nd i (as @ u # bs) (ks1 @ ks2)) = L @ items cu u @ R"
    "L = weave_left (map (items cu) as) (map (sep_item cu) ks1)"
    "R = weave_right (map (sep_item cu) ks2) (map (items cu) bs)"
    "\<And>x. x \<in> set L \<Longrightarrow> fst x < p" "\<And>x. x \<in> set R \<Longrightarrow> p \<le> fst x" "asc (L @ items cu u @ R)"
proof -
  let ?L = "weave_left (map (items cu) as) (map (sep_item cu) ks1)"
  let ?R = "weave_right (map (sep_item cu) ks2) (map (items cu) bs)"
  have eq: "items cu (Nd i (as @ u # bs) (ks1 @ ks2)) = ?L @ items cu u @ ?R"
    using weave_context[of "map (items cu) as" "map (sep_item cu) ks1" "[items cu u]" "[]"
        "map (items cu) bs" "map (sep_item cu) ks2"] len by simp
  have A: "asc (?L @ items cu u @ ?R)" using asc eq by simp
  have "fst x < p" if "x \<in> set ?L" for x
    using asc_weave_left[OF _ _ _ that, of p] A len lo by (simp add: asc_append)
  moreover have "p \<le> fst x" if "x \<in> set ?R" for x
    using asc_weave_right[OF _ _ _ that, of p] A len hi by (simp add: asc_append)
  ultimately show thesis using that[OF eq refl refl] A by blast
qed

lemma asc_first: "asc xs \<Longrightarrow> xs = x # xs' \<Longrightarrow> \<forall>y \<in> set xs. fst x \<le> fst y"
  by (auto intro: less_imp_le)

lemma map_of_middle:
  "\<forall>x \<in> set L. fst x \<noteq> p \<Longrightarrow> \<forall>x \<in> set R. fst x \<noteq> p \<Longrightarrow> map_of (L @ X @ R) p = map_of X p"
proof -
  assume "\<forall>x \<in> set L. fst x \<noteq> p" "\<forall>x \<in> set R. fst x \<noteq> p"
  then have "map_of L p = None" "map_of R p = None" by (auto simp: map_of_eq_None_iff)
  then show ?thesis by (simp add: map_add_def split: option.splits)
qed

lemma norm_value:
  assumes "node_rep enc norm leaf p cs c" "x \<in> set cs" "leaf \<or> \<not> cu"
  shows "fst (snd x) \<noteq> None"
proof -
  obtain k v lc where x: "x = (k, v, lc)" by (cases x) auto
  have "(k, v, lc) = norm leaf (k, v, lc)" using node_repD(12)[OF assms(1,2)] x by simp
  also have "\<dots> = (k, Some (gbytes v), if leaf \<and> cu then 0 else lc)" using assms(3) by (simp add: norm_form)
  finally have "v = Some (gbytes v)" by simp
  then have "v \<noteq> None" by (metis option.distinct(1))
  then show ?thesis using x by simp
qed

lemma get_loop_spec:
  assumes nc: "\<not> cu"
  shows "bal h t \<Longrightarrow> pager_inv {} s \<Longrightarrow> tree_at l ps (disk_page s) t \<Longrightarrow> set (ids t) \<subseteq> {..<pageCount s} \<Longrightarrow>
    asc (items cu t) \<Longrightarrow>
    \<exists>s'. get_loop acc key (root_id t) s = Some (Inr (found (map_of (entries cu t) key)), s') \<and>
      unchanged s s'"
proof (induction h arbitrary: t s)
  case 0
  then obtain i xs where t: "t = Lf i xs" by (cases t) auto
  let ?P = "disk_page s"
  have i: "i < pageCount s" "tree_at l ps ?P (Lf i xs)" "sorted_entries xs"
    using 0 t sorted_entries_items by simp_all
  obtain a s1 where R: "Read i s = (Inr a, s1)" "unchanged s s1" "bufs s1 a = ?P i"
    by (rule Read_unchanged[OF 0(2) i(1)])
  note L = leaf_reads[OF i(2)]
  obtain idx where X: "FindIdx acc (?P i) key (length xs) True = Some idx" "idx \<le> length xs"
    "\<And>e. e \<in> set (take idx xs) \<Longrightarrow> sint (fst e) < sint key"
    "\<And>e. e \<in> set (drop idx xs) \<Longrightarrow> sint key \<le> sint (fst e)"
    by (rule leaf_search[OF i(2,3)]) blast
  note look = lookup_at[OF X(2) i(3) X(3,4)]
  have val: "snd (xs ! j) \<noteq> None" if "j < length xs" for j
  proof -
    have "leaf_cell (xs ! j) \<in> set (map leaf_cell xs)" using that by simp
    from norm_value[OF _ this, of True "?P i"] i(2) show ?thesis by (auto simp: leaf_cell_def)
  qed
  have "get_loop acc key i s = Some (Inr (found (map_of xs key)), s1)"
  proof (cases "idx < length xs \<and> fst (xs ! idx) = key")
    case True
    then show ?thesis
      using R(1,3) L(1,2) L(5)[of idx] X(1) val[of idx] look
      by (subst get_loop.simps) (auto simp: found_def)
  next
    case False
    then have "map_of xs key = None" using look by simp
    moreover have "get_loop acc key i s = Some (Inr None, s1)"
    proof (cases "idx < length xs")
      case True
      with False show ?thesis
        using R(1,3) L(1,2) L(5)[OF True] X(1) by (subst get_loop.simps) simp
    next
      case idx: False
      show ?thesis using R(1,3) L(1,2) X(1) idx by (subst get_loop.simps) simp
    qed
    ultimately show ?thesis by (simp add: found_def)
  qed
  then show ?case using t R(2) by simp
next
  case (Suc h)
  then obtain i ts ks where t: "t = Nd i ts ks" by (cases t) auto
  let ?P = "disk_page s"
  have N: "tree_at l ps ?P (Nd i ts ks)" "asc (items cu (Nd i ts ks))" "i < pageCount s"
    using Suc.prems t by simp_all
  obtain as u bs ks1 ks2 where S: "ts = as @ u # bs" "ks = ks1 @ ks2" "length as = length ks1"
    "length bs = length ks2" "FindIdx acc (?P i) key (length ks) False = Some (length ks1)"
    "\<forall>e \<in> set ks1. fst (sep_item cu e) < pos key" "\<forall>e \<in> set ks2. pos key \<le> fst (sep_item cu e)"
    by (rule node_setup[OF N(1,2), of key])
  obtain a s1 where R: "Read i s = (Inr a, s1)" "unchanged s s1" "bufs s1 a = ?P i"
    by (rule Read_unchanged[OF Suc.prems(2) N(3)])
  note U = unchangedD[OF R(2)]
  note rd = node_reads[OF N(1)]
  obtain L R' where I: "items cu (Nd i (as @ u # bs) (ks1 @ ks2)) = L @ items cu u @ R'"
    "L = weave_left (map (items cu) as) (map (sep_item cu) ks1)"
    "R' = weave_right (map (sep_item cu) ks2) (map (items cu) bs)"
    "\<And>x. x \<in> set L \<Longrightarrow> fst x < pos key" "\<And>x. x \<in> set R' \<Longrightarrow> pos key \<le> fst x"
    "asc (L @ items cu u @ R')"
    by (rule node_items[OF N(2)[unfolded S(1,2)] S(3,4,6,7)]) blast
  have look: "map_of (entries cu t) key = map_of (L @ items cu u @ R') (pos key)"
    using entries_lookup[OF Suc.prems(1), of cu key] I(1) t S(1,2) by simp
  show ?case
  proof (cases "\<exists>v ks3. ks2 = (key, v) # ks3")
    case True
    then obtain v ks3 where k: "ks2 = (key, v) # ks3" by blast
    then obtain b bs' where b: "bs = b # bs'" using S(4) by (cases bs) auto
    have j: "length ks1 < length ks" "ks ! length ks1 = (key, v)" using S(2) k by simp_all
    have "node_cell (key, v) u \<in> set (map2 node_cell ks ts)"
      using S k by (simp add: zip_append1)
    moreover have "node_rep enc norm False (?P i) (map2 node_cell ks ts) (ps - length ks * sz l False)"
      using N(1) by simp
    ultimately have "fst (snd (node_cell (key, v) u)) \<noteq> None"
      using norm_value[of False] nc by blast
    then have v: "v \<noteq> None" by (simp add: node_cell_def)
    have R'': "R' = (pos key, v) # items cu b @ weave_right (map (sep_item cu) ks3) (map (items cu) bs')"
      using I(3) k b nc by (simp add: sep_item_def entry_item_def)
    have "\<forall>x \<in> set (L @ items cu u). fst x \<noteq> pos key"
      using I(6) R'' by (auto simp: asc_append)
    then have "map_of (L @ items cu u) (pos key) = None"
      unfolding map_of_eq_None_iff by force
    then have "map_of (entries cu t) key = Some v"
      unfolding look R'' by (simp add: map_add_def split: option.splits)
    moreover have "get_loop acc key i s = Some (Inr v, s1)"
      using R(1,3) rd(1,2) rd(5)[OF j(1)] j S(5) v by (subst get_loop.simps) auto
    ultimately show ?thesis using t R(2) by (simp add: found_def)
  next
    case False
    have gt: "fst x \<noteq> pos key" if "x \<in> set R'" for x
    proof (cases ks2)
      case Nil
      then show ?thesis using I(3) S(4) that by simp
    next
      case (Cons k ks3)
      then obtain b bs' where b: "bs = b # bs'" using S(4) by (cases bs) auto
      have "fst k \<noteq> key" using False Cons by (cases k) auto
      then have gk: "pos key < fst (sep_item cu k)"
        using S(7) Cons nc sint_inject[of "fst k" key] by (auto simp: sep_item_def entry_item_def)
      have "asc R'" using I(6) by (simp add: asc_append)
      moreover have "R' = sep_item cu k # items cu b @ weave_right (map (sep_item cu) ks3) (map (items cu) bs')"
        using I(3) Cons b by simp
      ultimately have "\<forall>y \<in> set R'. fst (sep_item cu k) \<le> fst y" using asc_first by blast
      with gk that show ?thesis by fastforce
    qed
    have "map_of (L @ items cu u @ R') (pos key) = map_of (items cu u) (pos key)"
      by (rule map_of_middle) (use I(4) gt in force)+
    moreover have bu: "bal h u" using Suc.prems(1) t S(1) by simp
    ultimately have lk: "map_of (entries cu t) key = map_of (entries cu u) key"
      using look entries_lookup[OF bu, of cu key] by simp
    have "set (ids u) \<subseteq> {..<pageCount s1}" "tree_at l ps (disk_page s1) u" "asc (items cu u)"
      using Suc.prems(3,4) U(2,3) t S(1) I(6) by (auto simp: asc_append)
    then obtain s2 where G: "get_loop acc key (root_id u) s1 =
        Some (Inr (found (map_of (entries cu u) key)), s2)" "unchanged s1 s2"
      using Suc.IH[OF bu U(1)] by blast
    have c: "ChildAt acc (?P i) (length ks1) (length ks) = Some (root_id u)"
      using rd(6)[of "length ks1"] S(1-3) by (simp add: nth_append)
    have nf: "fst (ks ! length ks1) \<noteq> key" if "length ks1 < length ks"
      using that False S(2) by (cases ks2) (auto simp: nth_append)
    have "get_loop acc key i s = get_loop acc key (root_id u) s1"
    proof (cases "length ks1 < length ks")
      case True
      show ?thesis using R(1,3) rd(1,2) rd(5)[OF True] nf[OF True] S(5) c True
        by (subst get_loop.simps) simp
    next
      case leaf: False
      show ?thesis using R(1,3) rd(1,2) S(5) c leaf by (subst get_loop.simps) simp
    qed
    then show ?thesis using t G unchanged_trans[OF R(2)] lk by simp
  qed
qed

section \<open>FindLeaf\<close>

lemma find_leaf_spec:
  "bal h t \<Longrightarrow> pager_inv {} s \<Longrightarrow> tree_at l ps (disk_page s) t \<Longrightarrow> set (ids t) \<subseteq> {..<pageCount s} \<Longrightarrow>
    asc (items cu t) \<Longrightarrow>
    \<exists>lf xs A B s'. find_leaf_loop acc key (root_id t) s = Some (Inr lf, s') \<and> unchanged s s' \<and>
      leafs t = A @ (lf, xs) # B \<and>
      (\<forall>e \<in> set (concat (map snd A)). sint (fst e) < sint key) \<and>
      (\<forall>e \<in> set (concat (map snd B)). sint key \<le> sint (fst e))"
proof (induction h arbitrary: t s)
  case 0
  then obtain i xs where t: "t = Lf i xs" by (cases t) auto
  have i: "i < pageCount s" "tree_at l ps (disk_page s) (Lf i xs)" using 0 t by simp_all
  obtain a s1 where R: "Read i s = (Inr a, s1)" "unchanged s s1" "bufs s1 a = disk_page s i"
    by (rule Read_unchanged[OF 0(2) i(1)])
  have "find_leaf_loop acc key i s = Some (Inr i, s1)"
    using R(1,3) leaf_reads(2)[OF i(2)] by (subst find_leaf_loop.simps) simp
  then show ?case using t R(2) by (intro exI[of _ i] exI[of _ xs] exI[of _ "[]"] exI[of _ s1]) simp
next
  case (Suc h)
  then obtain i ts ks where t: "t = Nd i ts ks" by (cases t) auto
  let ?P = "disk_page s"
  have N: "tree_at l ps ?P (Nd i ts ks)" "asc (items cu (Nd i ts ks))" "i < pageCount s"
    using Suc.prems t by simp_all
  obtain as u bs ks1 ks2 where S: "ts = as @ u # bs" "ks = ks1 @ ks2" "length as = length ks1"
    "length bs = length ks2" "FindIdx acc (?P i) key (length ks) False = Some (length ks1)"
    "\<forall>e \<in> set ks1. fst (sep_item cu e) < pos key" "\<forall>e \<in> set ks2. pos key \<le> fst (sep_item cu e)"
    by (rule node_setup[OF N(1,2), of key])
  obtain a s1 where R: "Read i s = (Inr a, s1)" "unchanged s s1" "bufs s1 a = ?P i"
    by (rule Read_unchanged[OF Suc.prems(2) N(3)])
  note U = unchangedD[OF R(2)]
  note rd = node_reads[OF N(1)]
  obtain L R' where I: "items cu (Nd i (as @ u # bs) (ks1 @ ks2)) = L @ items cu u @ R'"
    "L = weave_left (map (items cu) as) (map (sep_item cu) ks1)"
    "R' = weave_right (map (sep_item cu) ks2) (map (items cu) bs)"
    "\<And>x. x \<in> set L \<Longrightarrow> fst x < pos key" "\<And>x. x \<in> set R' \<Longrightarrow> pos key \<le> fst x"
    "asc (L @ items cu u @ R')"
    by (rule node_items[OF N(2)[unfolded S(1,2)] S(3,4,6,7)]) blast
  have bu: "bal h u" "\<forall>x \<in> set as \<union> set bs. bal h x" using Suc.prems(1) t S(1) by auto
  have "set (ids u) \<subseteq> {..<pageCount s1}" "tree_at l ps (disk_page s1) u" "asc (items cu u)"
    using Suc.prems(3,4) U(2,3) t S(1) I(6) by (auto simp: asc_append)
  then obtain lf xs A B s2 where G: "find_leaf_loop acc key (root_id u) s1 = Some (Inr lf, s2)"
    "unchanged s1 s2" "leafs u = A @ (lf, xs) # B"
    "\<forall>e \<in> set (concat (map snd A)). sint (fst e) < sint key"
    "\<forall>e \<in> set (concat (map snd B)). sint key \<le> sint (fst e)"
    using Suc.IH[OF bu(1) U(1)] by blast
  have c: "ChildAt acc (?P i) (length ks1) (length ks) = Some (root_id u)"
    using rd(6)[of "length ks1"] S(1-3) by (simp add: nth_append)
  have run: "find_leaf_loop acc key i s = Some (Inr lf, s2)"
    using R(1,3) rd(1,2) S(5) c G(1) by (subst find_leaf_loop.simps) simp
  let ?A = "concat (map leafs as) @ A" and ?B = "B @ concat (map leafs bs)"
  have lt: "leafs t = ?A @ (lf, xs) # ?B" using t S(1) G(3) by simp
  have left: "sint (fst e) < sint key" if e: "e \<in> set (concat (map snd (concat (map leafs as))))" for e
  proof -
    obtain w j ys where w: "w \<in> set as" "(j, ys) \<in> set (leafs w)" "e \<in> set ys" using e by auto
    then have "entry_item e \<in> set (items cu w)" using leafs_items[of h w] bu(2) by blast
    then have "entry_item e \<in> set L" using I(2) w(1) S(3) by (auto simp: set_weave_left)
    then show ?thesis using I(4) by (force simp: entry_item_def)
  qed
  have right: "sint key \<le> sint (fst e)" if e: "e \<in> set (concat (map snd (concat (map leafs bs))))" for e
  proof -
    obtain w j ys where w: "w \<in> set bs" "(j, ys) \<in> set (leafs w)" "e \<in> set ys" using e by auto
    then have "entry_item e \<in> set (items cu w)" using leafs_items[of h w] bu(2) by blast
    then have "entry_item e \<in> set R'" using I(3) w(1) S(4) by (auto simp: set_weave_right)
    then show ?thesis using I(5) by (force simp: entry_item_def)
  qed
  have "\<forall>e \<in> set (concat (map snd ?A)). sint (fst e) < sint key"
    "\<forall>e \<in> set (concat (map snd ?B)). sint key \<le> sint (fst e)"
    unfolding map_append concat_append set_append using G(4,5) left right by blast+
  then show ?case using run t lt unchanged_trans[OF R(2) G(2)]
    by (intro exI[of _ lf] exI[of _ xs] exI[of _ ?A] exI[of _ ?B] exI[of _ s2]) simp
qed

end

end
