(* ===== verification/Index.thy ===== *)
theory Index
  imports Entries "HOL-Library.Multiset"
begin

text \<open>
  The interface of src/dbms/index/index.go: the method tables of Index and Iterator, the loop
  in which clients drain an iterator, and sequences of operations on an index. The contract of
  the interface is a locale: a range cursor yields a list of entries one by one, an index
  represents a sorted list of entries that Insert updates and Get and Range read. Every
  implementation interprets it; the clients' lemmas are proved here once.
\<close>

section \<open>The method tables\<close>

record ('i, 's) Iterator =
  iter_Next :: "'i \<Rightarrow> 's \<Rightarrow> ((bool \<times> 'i) \<times> 's) option"
  iter_Key :: "'i \<Rightarrow> 's \<Rightarrow> key option"
  iter_Value :: "'i \<Rightarrow> 's \<Rightarrow> gobytes option"
  iter_Error :: "'i \<Rightarrow> go_error option"
  iter_Close :: "'i \<Rightarrow> 's \<Rightarrow> ((go_error + unit) \<times> 's) option"

record ('i, 's) Index =
  ix_Insert :: "key \<Rightarrow> gobytes \<Rightarrow> 's \<Rightarrow> ((go_error + unit) \<times> 's) option"
  ix_Get :: "key \<Rightarrow> 's \<Rightarrow> ((go_error + gobytes) \<times> 's) option"
  ix_Delete :: "key \<Rightarrow> 's \<Rightarrow> ((go_error + unit) \<times> 's) option"
  ix_Range :: "key \<Rightarrow> key \<Rightarrow> 's \<Rightarrow> ((go_error + 'i) \<times> 's) option"
  ix_Close :: "'s \<Rightarrow> ((go_error + unit) \<times> 's) option"
  ix_Iter :: "('i, 's) Iterator"

text \<open>
  The loop \<open>for it.Next() { ... it.Key(), it.Value() ... }\<close>, which collects what it sees and
  returns the iterator as the loop leaves it.
\<close>

partial_function (option) scan ::
  "('i, 's) Iterator \<Rightarrow> 'i \<Rightarrow> 's \<Rightarrow> ((key \<times> gobytes) list \<times> 'i \<times> 's) option" where
  "scan ops it s = do {
     ((cont, it1), s1) \<leftarrow> iter_Next ops it s;
     if cont then do {
       k \<leftarrow> iter_Key ops it1 s1;
       v \<leftarrow> iter_Value ops it1 s1;
       (xs, r) \<leftarrow> scan ops it1 s1;
       Some ((k, v) # xs, r)
     } else Some ([], it1, s1)
   }"

declare scan.simps [code]

section \<open>Sequences of operations\<close>

datatype index_op = OInsert key gobytes | OGet key | OScan key key

datatype index_out =
    RInsert "go_error + unit"
  | RGet "go_error + gobytes"
  | RScan "go_error + (key \<times> gobytes) list \<times> go_error option"

fun run_op :: "('i, 's) Index \<Rightarrow> index_op \<Rightarrow> 's \<Rightarrow> (index_out \<times> 's) option" where
  "run_op ix (OInsert k v) s = do { (r, s1) \<leftarrow> ix_Insert ix k v s; Some (RInsert r, s1) }"
| "run_op ix (OGet k) s = do { (r, s1) \<leftarrow> ix_Get ix k s; Some (RGet r, s1) }"
| "run_op ix (OScan a b) s = do {
     (r, s1) \<leftarrow> ix_Range ix a b s;
     (case r of
        Inl e \<Rightarrow> Some (RScan (Inl e), s1)
      | Inr it \<Rightarrow> do {
          (xs, it1, s2) \<leftarrow> scan (ix_Iter ix) it s1;
          Some (RScan (Inr (xs, iter_Error (ix_Iter ix) it1)), s2)
        })
   }"

fun run_ops :: "('i, 's) Index \<Rightarrow> index_op list \<Rightarrow> 's \<Rightarrow> (index_out list \<times> 's) option" where
  "run_ops ix [] s = Some ([], s)"
| "run_ops ix (op # ops) s = do {
     (r, s1) \<leftarrow> run_op ix op s;
     (rs, s2) \<leftarrow> run_ops ix ops s1;
     Some (r # rs, s2)
   }"

text \<open>
  The specification on the entry list. \<open>stored\<close> is what an index makes of a value (the trees
  store a nil value as an empty one), \<open>missing\<close> what Get returns for a key that is not there.
\<close>

fun spec_step :: "(gobytes \<Rightarrow> gobytes) \<Rightarrow> index_op \<Rightarrow> (key \<times> gobytes) list \<Rightarrow> (key \<times> gobytes) list" where
  "spec_step stored (OInsert k v) es = ins_entry k (stored v) es"
| "spec_step stored _ es = es"

fun spec_out :: "(go_error + gobytes) \<Rightarrow> index_op \<Rightarrow> (key \<times> gobytes) list \<Rightarrow> index_out" where
  "spec_out missing (OInsert k v) es = RInsert (Inr ())"
| "spec_out missing (OGet k) es = RGet (case map_of es k of None \<Rightarrow> missing | Some w \<Rightarrow> Inr w)"
| "spec_out missing (OScan a b) es = RScan (Inr (range_entries a b es, None))"

fun spec_run :: "(gobytes \<Rightarrow> gobytes) \<Rightarrow> (go_error + gobytes) \<Rightarrow> index_op list \<Rightarrow>
    (key \<times> gobytes) list \<Rightarrow> index_out list" where
  "spec_run stored missing [] es = []"
| "spec_run stored missing (op # ops) es =
     spec_out missing op es # spec_run stored missing ops (spec_step stored op es)"

definition spec_final :: "(gobytes \<Rightarrow> gobytes) \<Rightarrow> index_op list \<Rightarrow> (key \<times> gobytes) list \<Rightarrow>
    (key \<times> gobytes) list" where
  "spec_final stored ops es = fold (spec_step stored) ops es"

fun inserts :: "index_op list \<Rightarrow> nat" where
  "inserts [] = 0"
| "inserts (OInsert k v # ops) = Suc (inserts ops)"
| "inserts (_ # ops) = inserts ops"

text \<open>Two results are alike if they agree up to the order of the entries of a scan.\<close>

fun out_alike :: "index_out \<Rightarrow> index_out \<Rightarrow> bool" where
  "out_alike (RScan (Inr (xs, e))) (RScan (Inr (ys, e'))) = (mset xs = mset ys \<and> e = e')"
| "out_alike r r' = (r = r')"

fun op_allowed :: "(key \<Rightarrow> bool) \<Rightarrow> (key \<Rightarrow> key \<Rightarrow> bool) \<Rightarrow> (gobytes \<Rightarrow> bool) \<Rightarrow> index_op \<Rightarrow> bool" where
  "op_allowed okk okr okv (OInsert k v) = (okk k \<and> okv v)"
| "op_allowed okk okr okv (OGet k) = okk k"
| "op_allowed okk okr okv (OScan a b) = okr a b"

text \<open>Operations whose values all have \<open>l\<close> bytes, as the benchmark uses.\<close>

fun fixed_length :: "nat \<Rightarrow> index_op \<Rightarrow> bool" where
  "fixed_length l (OInsert k v) = (glen v = l)"
| "fixed_length l _ = True"

lemma fixed_length_allowed:
  "op_allowed (\<lambda>_. True) (\<lambda>_ _. True) (\<lambda>v. glen v = l) op = fixed_length l op"
  by (cases op) simp_all

section \<open>The contract of a cursor\<close>

text \<open>
  \<open>pending it s rem\<close>: the iterator \<open>it\<close> in state \<open>s\<close> has yet to yield \<open>rem\<close>; \<open>same s s'\<close>:
  going from \<open>s\<close> to \<open>s'\<close> has not changed the content.
\<close>

locale range_cursor =
  fixes ops :: "('i, 's) Iterator"
    and pending :: "'i \<Rightarrow> 's \<Rightarrow> (key \<times> gobytes) list \<Rightarrow> bool"
    and same :: "'s \<Rightarrow> 's \<Rightarrow> bool"
  assumes next_end: "pending it s [] \<Longrightarrow>
      \<exists>it' s'. iter_Next ops it s = Some ((False, it'), s') \<and> same s s' \<and> iter_Error ops it' = None"
    and next_entry: "pending it s (x # xs) \<Longrightarrow>
      \<exists>it' s'. iter_Next ops it s = Some ((True, it'), s') \<and> same s s' \<and>
        iter_Key ops it' s' = Some (fst x) \<and> iter_Value ops it' s' = Some (snd x) \<and>
        pending it' s' xs"
    and same_trans: "same s s1 \<Longrightarrow> same s1 s2 \<Longrightarrow> same s s2"
begin

lemma scan_pending:
  "pending it s rem \<Longrightarrow>
     \<exists>it' s'. scan ops it s = Some (rem, it', s') \<and> same s s' \<and> iter_Error ops it' = None"
proof (induction rem arbitrary: it s)
  case Nil
  obtain it' s' where "iter_Next ops it s = Some ((False, it'), s')" "same s s'"
    "iter_Error ops it' = None"
    using next_end[OF Nil] by blast
  then show ?case by (subst scan.simps) simp
next
  case (Cons x xs)
  obtain it1 s1 where N: "iter_Next ops it s = Some ((True, it1), s1)" "same s s1"
    "iter_Key ops it1 s1 = Some (fst x)" "iter_Value ops it1 s1 = Some (snd x)" "pending it1 s1 xs"
    using next_entry[OF Cons.prems] by blast
  obtain it2 s2 where S: "scan ops it1 s1 = Some (xs, it2, s2)" "same s1 s2" "iter_Error ops it2 = None"
    using Cons.IH[OF N(5)] by blast
  have "scan ops it s = Some (x # xs, it2, s2)"
    using N S(1) by (subst scan.simps) simp
  then show ?case using same_trans[OF N(2) S(2)] S(3) by blast
qed

end

section \<open>The contract of an index\<close>

text \<open>
  \<open>holds s es\<close>: the index in state \<open>s\<close> represents the entries \<open>es\<close>. \<open>okk\<close>, \<open>okr\<close> and \<open>okv\<close>
  are the keys, range bounds and values the implementation supports, \<open>limit\<close> the number of
  entries it has room for.
\<close>

locale index_contract = range_cursor "ix_Iter ix" pending same
  for ix :: "('i, 's) Index"
    and pending :: "'i \<Rightarrow> 's \<Rightarrow> (key \<times> gobytes) list \<Rightarrow> bool"
    and same :: "'s \<Rightarrow> 's \<Rightarrow> bool" +
  fixes holds :: "'s \<Rightarrow> (key \<times> gobytes) list \<Rightarrow> bool"
    and okk :: "key \<Rightarrow> bool" and okr :: "key \<Rightarrow> key \<Rightarrow> bool" and okv :: "gobytes \<Rightarrow> bool"
    and stored :: "gobytes \<Rightarrow> gobytes" and missing :: "go_error + gobytes" and limit :: nat
  assumes holds_sorted: "holds s es \<Longrightarrow> sorted_entries es"
    and holds_same: "holds s es \<Longrightarrow> same s s' \<Longrightarrow> holds s' es"
    and insert_law: "holds s es \<Longrightarrow> okk k \<Longrightarrow> okv v \<Longrightarrow> length es < limit \<Longrightarrow>
      \<exists>s'. ix_Insert ix k v s = Some (Inr (), s') \<and> holds s' (ins_entry k (stored v) es)"
    and get_law: "holds s es \<Longrightarrow> okk k \<Longrightarrow>
      \<exists>s'. ix_Get ix k s = Some (case map_of es k of None \<Rightarrow> missing | Some w \<Rightarrow> Inr w, s') \<and> holds s' es"
    and range_law: "holds s es \<Longrightarrow> okr a b \<Longrightarrow>
      \<exists>it s' rem. ix_Range ix a b s = Some (Inr it, s') \<and> holds s' es \<and> pending it s' rem \<and>
        mset rem = mset (range_entries a b es)"
begin

lemma run_op_spec:
  assumes h: "holds s es" and ok: "op_allowed okk okr okv op" and room: "length es + inserts [op] \<le> limit"
  shows "\<exists>r s'. run_op ix op s = Some (r, s') \<and> out_alike r (spec_out missing op es) \<and>
    holds s' (spec_step stored op es)"
proof (cases op)
  case (OInsert k v)
  have l: "okk k" "okv v" "length es < limit" using ok room OInsert by simp_all
  obtain s' where "ix_Insert ix k v s = Some (Inr (), s')" "holds s' (ins_entry k (stored v) es)"
    using insert_law[OF h l] by blast
  then show ?thesis using OInsert by simp
next
  case (OGet k)
  have l: "okk k" using ok OGet by simp
  show ?thesis using get_law[OF h l] OGet by auto
next
  case (OScan a b)
  have l: "okr a b" using ok OScan by simp
  obtain it s1 rem where R: "ix_Range ix a b s = Some (Inr it, s1)" "holds s1 es" "pending it s1 rem"
    "mset rem = mset (range_entries a b es)"
    using range_law[OF h l] by blast
  obtain it2 s2 where S: "scan (ix_Iter ix) it s1 = Some (rem, it2, s2)" "same s1 s2"
    "iter_Error (ix_Iter ix) it2 = None"
    using scan_pending[OF R(3)] by blast
  have "run_op ix op s = Some (RScan (Inr (rem, None)), s2)"
    unfolding OScan using R(1) S(1,3) by simp
  then show ?thesis using R(4) holds_same[OF R(2) S(2)] OScan by simp
qed

lemma length_spec_step: "length (spec_step stored op es) \<le> length es + inserts [op]"
  using length_ins_entry by (cases op) fastforce+

lemma run_ops_spec:
  "holds s es \<Longrightarrow> \<forall>op \<in> set ops. op_allowed okk okr okv op \<Longrightarrow> length es + inserts ops \<le> limit \<Longrightarrow>
   \<exists>rs s'. run_ops ix ops s = Some (rs, s') \<and> list_all2 out_alike rs (spec_run stored missing ops es) \<and>
     holds s' (spec_final stored ops es)"
proof (induction ops arbitrary: s es)
  case Nil
  then show ?case by (simp add: spec_final_def)
next
  case (Cons op ops)
  have i: "inserts (op # ops) = inserts [op] + inserts ops" by (cases op) simp_all
  obtain r s1 where R: "run_op ix op s = Some (r, s1)" "out_alike r (spec_out missing op es)"
    "holds s1 (spec_step stored op es)"
    using run_op_spec[of s es op] Cons.prems i by auto
  have "length (spec_step stored op es) + inserts ops \<le> limit"
    using length_spec_step[of op es] Cons.prems(3) i by simp
  then obtain rs s2 where S: "run_ops ix ops s1 = Some (rs, s2)"
    "list_all2 out_alike rs (spec_run stored missing ops (spec_step stored op es))"
    "holds s2 (spec_final stored ops (spec_step stored op es))"
    using Cons.IH[OF R(3)] Cons.prems(2) by auto
  then show ?case using R(1,2) by (simp add: spec_final_def)
qed

end

section \<open>Indexes that yield their entries in order\<close>

lemma sorted_entries_mset:
  "sorted_entries xs \<Longrightarrow> sorted_entries ys \<Longrightarrow> mset xs = mset ys \<Longrightarrow> xs = ys"
proof -
  assume s: "sorted_entries xs" "sorted_entries ys" and m: "mset xs = mset ys"
  have "set xs = set ys" using m by (metis set_mset_mset)
  then have "map_of xs = map_of ys"
    using sorted_entries_distinct[OF s(1)] sorted_entries_distinct[OF s(2)]
    by (simp add: map_of_inject_set)
  then show "xs = ys" by (rule sorted_entries_unique[OF s])
qed

lemma range_entries_sorted: "sorted_entries es \<Longrightarrow> sorted_entries (range_entries a b es)"
  by (induction es) (auto simp: range_entries_def)

locale ordered_index = index_contract +
  assumes pending_sorted: "pending it s rem \<Longrightarrow> sorted_entries rem"
begin

lemma run_op_exact:
  assumes h: "holds s es" and ok: "op_allowed okk okr okv op" and room: "length es + inserts [op] \<le> limit"
  shows "\<exists>s'. run_op ix op s = Some (spec_out missing op es, s') \<and> holds s' (spec_step stored op es)"
proof (cases op)
  case (OScan a b)
  have l: "okr a b" using ok OScan by simp
  obtain it s1 rem where R: "ix_Range ix a b s = Some (Inr it, s1)" "holds s1 es" "pending it s1 rem"
    "mset rem = mset (range_entries a b es)"
    using range_law[OF h l] by blast
  have rem: "rem = range_entries a b es"
    using sorted_entries_mset[OF pending_sorted[OF R(3)] range_entries_sorted[OF holds_sorted[OF h]] R(4)] .
  obtain it2 s2 where S: "scan (ix_Iter ix) it s1 = Some (rem, it2, s2)" "same s1 s2"
    "iter_Error (ix_Iter ix) it2 = None"
    using scan_pending[OF R(3)] by blast
  show ?thesis using R(1) S holds_same[OF R(2) S(2)] OScan rem by simp
qed (use run_op_spec[OF h ok room] in auto)

lemma run_ops_exact:
  "holds s es \<Longrightarrow> \<forall>op \<in> set ops. op_allowed okk okr okv op \<Longrightarrow> length es + inserts ops \<le> limit \<Longrightarrow>
   \<exists>s'. run_ops ix ops s = Some (spec_run stored missing ops es, s') \<and>
     holds s' (spec_final stored ops es)"
proof (induction ops arbitrary: s es)
  case Nil
  then show ?case by (simp add: spec_final_def)
next
  case (Cons op ops)
  have i: "inserts (op # ops) = inserts [op] + inserts ops" by (cases op) simp_all
  obtain s1 where R: "run_op ix op s = Some (spec_out missing op es, s1)"
    "holds s1 (spec_step stored op es)"
    using run_op_exact[of s es op] Cons.prems i by auto
  have "length (spec_step stored op es) + inserts ops \<le> limit"
    using length_spec_step[of op es] Cons.prems(3) i by simp
  then show ?case using Cons.IH[OF R(2)] Cons.prems(2) R(1) by (auto simp: spec_final_def)
qed

end

section \<open>Sessions\<close>

text \<open>
  An index kept in a file: every session opens the file with some configuration, runs its
  operations and closes the index.
\<close>

fun run_sessions :: "('c \<Rightarrow> 'f \<Rightarrow> (go_error \<times> 'f + 's) option) \<Rightarrow> ('s \<Rightarrow> 'f) \<Rightarrow> ('i, 's) Index \<Rightarrow>
    ('c \<times> index_op list) list \<Rightarrow> 'f \<Rightarrow> (index_out list list \<times> 'f) option" where
  "run_sessions open_ix file_of ix [] f = Some ([], f)"
| "run_sessions open_ix file_of ix ((c, ops) # rest) f = do {
     r \<leftarrow> open_ix c f;
     (case r of
        Inl e \<Rightarrow> None
      | Inr s \<Rightarrow> do {
          (outs, s1) \<leftarrow> run_ops ix ops s;
          (e, s2) \<leftarrow> ix_Close ix s1;
          (outss, f') \<leftarrow> (if e = Inr () then run_sessions open_ix file_of ix rest (file_of s2) else None);
          Some (outs # outss, f')
        })
   }"

fun spec_sessions :: "(gobytes \<Rightarrow> gobytes) \<Rightarrow> (go_error + gobytes) \<Rightarrow> ('c \<times> index_op list) list \<Rightarrow>
    (key \<times> gobytes) list \<Rightarrow> index_out list list" where
  "spec_sessions stored missing [] es = []"
| "spec_sessions stored missing ((c, ops) # rest) es =
     spec_run stored missing ops es # spec_sessions stored missing rest (spec_final stored ops es)"

definition session_ops :: "('c \<times> index_op list) list \<Rightarrow> index_op list" where
  "session_ops ss = concat (map snd ss)"

lemma inserts_append: "inserts (xs @ ys) = inserts xs + inserts ys"
  by (induction xs rule: inserts.induct) simp_all

lemma length_spec_final: "length (spec_final stored ops es) \<le> length es + inserts ops"
proof (induction ops arbitrary: es)
  case (Cons op ops)
  have "length (spec_step stored op es) \<le> length es + inserts [op]"
    using length_ins_entry by (cases op) fastforce+
  moreover have "inserts (op # ops) = inserts [op] + inserts ops" by (cases op) simp_all
  ultimately show ?case using Cons.IH[of "spec_step stored op es"] by (simp add: spec_final_def)
qed (simp add: spec_final_def)

locale durable_index = ordered_index ix pending same holds okk okr okv stored missing limit
  for ix :: "('i, 's) Index"
    and pending :: "'i \<Rightarrow> 's \<Rightarrow> (key \<times> gobytes) list \<Rightarrow> bool"
    and same :: "'s \<Rightarrow> 's \<Rightarrow> bool"
    and holds :: "'s \<Rightarrow> (key \<times> gobytes) list \<Rightarrow> bool"
    and okk :: "key \<Rightarrow> bool" and okr :: "key \<Rightarrow> key \<Rightarrow> bool" and okv :: "gobytes \<Rightarrow> bool"
    and stored :: "gobytes \<Rightarrow> gobytes" and missing :: "go_error + gobytes" and limit :: nat +
  fixes open_ix :: "'c \<Rightarrow> 'f \<Rightarrow> (go_error \<times> 'f + 's) option" and file_of :: "'s \<Rightarrow> 'f"
    and fresh :: "'f \<Rightarrow> bool"
  assumes open_law: "fresh f \<Longrightarrow> \<exists>s. open_ix c f = Some (Inr s) \<and> holds s []"
    and reopen_law: "holds s es \<Longrightarrow>
      \<exists>s1 s2. ix_Close ix s = Some (Inr (), s1) \<and> open_ix c (file_of s1) = Some (Inr s2) \<and> holds s2 es"
begin

definition file_holds :: "'f \<Rightarrow> (key \<times> gobytes) list \<Rightarrow> bool" where
  "file_holds f es \<longleftrightarrow> (\<forall>c. \<exists>s. open_ix c f = Some (Inr s) \<and> holds s es)"

lemma close_law:
  assumes "holds s es"
  shows "\<exists>s1. ix_Close ix s = Some (Inr (), s1) \<and> file_holds (file_of s1) es"
proof -
  obtain s1 where s1: "ix_Close ix s = Some (Inr (), s1)" using reopen_law[OF assms] by blast
  have "\<exists>s2. open_ix c (file_of s1) = Some (Inr s2) \<and> holds s2 es" for c
    using reopen_law[OF assms, of c] s1 by auto
  then show ?thesis using s1 unfolding file_holds_def by blast
qed

lemma sessions_spec:
  "file_holds f es \<Longrightarrow> \<forall>op \<in> set (session_ops ss). op_allowed okk okr okv op \<Longrightarrow>
   length es + inserts (session_ops ss) \<le> limit \<Longrightarrow>
   \<exists>f'. run_sessions open_ix file_of ix ss f = Some (spec_sessions stored missing ss es, f')"
proof (induction ss arbitrary: f es)
  case (Cons x rest)
  obtain c ops where x: "x = (c, ops)" by (cases x)
  have ops: "session_ops (x # rest) = ops @ session_ops rest" using x by (simp add: session_ops_def)
  have room: "length es + (inserts ops + inserts (session_ops rest)) \<le> limit"
    using Cons.prems(3) unfolding ops inserts_append .
  obtain s where O: "open_ix c f = Some (Inr s)" "holds s es"
    using Cons.prems(1) unfolding file_holds_def by blast
  obtain s1 where R: "run_ops ix ops s = Some (spec_run stored missing ops es, s1)"
    "holds s1 (spec_final stored ops es)"
    using run_ops_exact[OF O(2), of ops] Cons.prems(2) room ops by auto
  obtain s2 where C: "ix_Close ix s1 = Some (Inr (), s2)"
    "file_holds (file_of s2) (spec_final stored ops es)"
    using close_law[OF R(2)] by blast
  obtain f' where "run_sessions open_ix file_of ix rest (file_of s2) =
      Some (spec_sessions stored missing rest (spec_final stored ops es), f')"
    using Cons.IH[OF C(2)] Cons.prems(2) ops room length_spec_final[of stored ops es] by fastforce
  then show ?case using x O(1) R(1) C(1) by simp
qed simp

lemma fresh_sessions:
  assumes "fresh f" "\<forall>op \<in> set (session_ops ss). op_allowed okk okr okv op" "inserts (session_ops ss) \<le> limit"
  shows "\<exists>f'. run_sessions open_ix file_of ix ss f = Some (spec_sessions stored missing ss [], f')"
  by (rule sessions_spec) (use assms open_law in \<open>auto simp: file_holds_def\<close>)

end

end
