(* ===== verification/TreeIndex.thy ===== *)
theory TreeIndex
  imports TreeLookup Index
begin

text \<open>
  A tree file as a sorted list of entries: what creating, inserting, closing and opening again,
  Height and CountLeaves mean on that list. The bound of 2^30 entries keeps page numbers below
  2^32 - 1, the width of a page number on disk and the mark for the end of the leaf chain.
\<close>

definition entry_limit :: nat where
  "entry_limit = 2 ^ 30"

definition empty_tree_file :: "os_file \<Rightarrow> bool" where
  "empty_tree_file f \<longleftrightarrow> no_faults f \<and> fdata f = []"

definition tree_file :: "tree \<Rightarrow> os_file" where
  "tree_file t = pfile (Pg t)"

definition trimmed :: "gobytes \<Rightarrow> gobytes" where
  "trimmed v = Some (gbytes v)"

definition same_tree :: "tree \<Rightarrow> tree \<Rightarrow> bool" where
  "same_tree t t' \<longleftrightarrow> unchanged (Pg t) (Pg t') \<and> t' = t\<lparr>Pg := Pg t'\<rparr>"

lemma same_tree_trans: "same_tree t t1 \<Longrightarrow> same_tree t1 t2 \<Longrightarrow> same_tree t t2"
  unfolding same_tree_def using unchanged_trans by (metis tree.surjective tree.update_convs(1))

lemma takeWhile_sorted:
  "sorted_entries es \<Longrightarrow>
     takeWhile (\<lambda>e. sint (fst e) \<le> b) es = filter (\<lambda>e. sint (fst e) \<le> b) es"
proof (induction es)
  case (Cons e es)
  have "filter (\<lambda>e. sint (fst e) \<le> b) es = []" if "\<not> sint (fst e) \<le> b"
    unfolding filter_empty_conv using Cons.prems that by fastforce
  then show ?case using Cons by auto
qed simp

context tree_codec
begin

definition holds :: "nat \<Rightarrow> nat \<Rightarrow> tree \<Rightarrow> (key \<times> gobytes) list \<Rightarrow> bool" where
  "holds l ps tr es \<longleftrightarrow> tree_geom l ps \<and> length es \<le> entry_limit \<and>
     (\<exists>h t. tree_inv l ps tr h t \<and> (full t \<or> (\<exists>i. t = Lf i [])) \<and> entries cu t = es)"

lemma page_count:
  assumes "tree_inv l ps tr h t" "full t \<or> (\<exists>i. t = Lf i [])"
  shows "pageCount (Pg tr) + h \<le> 3 + 3 * length (entries cu t)"
proof -
  note T = tree_invD[OF assms(1)]
  have "card (set (ids t)) = length (ids t)" by (rule distinct_card[OF T(11)])
  then have n: "pageCount (Pg tr) = 2 + length (ids t)" using T(3,4) by simp
  show ?thesis
  proof (cases "full t")
    case True
    then show ?thesis using tree_size_bound[OF T(7) True, of cu] n by linarith
  next
    case False
    then show ?thesis using assms(2) n T(7) by auto
  qed
qed

lemma ids_in_file: "tree_inv l ps tr h t \<Longrightarrow> set (ids t) \<subseteq> {..<pageCount (Pg tr)}"
  unfolding tree_inv_def tree_ok_def by blast

lemma holdsE:
  assumes "holds l ps tr es"
  obtains h t where "tree_geom l ps" "tree_inv l ps tr h t" "full t \<or> (\<exists>i. t = Lf i [])"
    "entries cu t = es" "pageCount (Pg tr) + h < 2 ^ 32 - 1" "length es \<le> entry_limit"
proof -
  obtain h t where H: "tree_geom l ps" "tree_inv l ps tr h t" "full t \<or> (\<exists>i. t = Lf i [])"
    "entries cu t = es" "length es \<le> entry_limit"
    using assms by (auto simp: holds_def)
  have "pageCount (Pg tr) + h \<le> 3 + 3 * length es" using page_count[OF H(2,3)] H(4) by simp
  also have "\<dots> < 2 ^ 32 - 1" using H(5) by (simp add: entry_limit_def)
  finally show thesis using that H by blast
qed

lemma holds_sorted: "holds l ps tr es \<Longrightarrow> sorted_entries es"
  using entries_sorted tree_invD(7,12) by (elim holdsE) blast

lemma holds_unchanged: "holds l ps tr es \<Longrightarrow> unchanged (Pg tr) s' \<Longrightarrow> holds l ps (tr\<lparr>Pg := s'\<rparr>) es"
  unfolding holds_def using tree_inv_unchanged by blast

lemma holds_sync:
  assumes "holds l ps tr es"
  shows "holds l ps (Tree_SetSyncInterval n tr) es"
proof -
  obtain h t where "tree_inv l ps tr h t" by (rule holdsE[OF assms]) blast
  then have "pager_inv {} (Pg tr)" by (rule tree_invD(8))
  then have "unchanged (Pg tr) (SetSyncInterval n (Pg tr))"
    by (simp add: unchanged_def SetSyncInterval_inv) (simp add: SetSyncInterval_def owns_buf_def)
  from holds_unchanged[OF assms this] show ?thesis by (simp add: Tree_SetSyncInterval_def)
qed

lemma holds_new:
  assumes "no_faults f" "fdata f = []" "tree_geom l ps"
  shows "\<exists>tr. open_tree f cap ps = Some (Inr tr) \<and> holds l ps tr []"
proof -
  obtain tr where O: "open_tree f cap ps = Some (Inr tr)" "tree_inv l ps tr 0 (Lf 2 [])"
    by (rule open_tree_new[OF assms])
  have "holds l ps tr []" unfolding holds_def using O(2) assms(3) by force
  then show ?thesis using O(1) by blast
qed

lemma holds_insert:
  assumes h: "holds l ps tr es" and v: "glen v = l" and room: "length es < entry_limit"
  shows "\<exists>tr'. Tree_Insert acc key v tr = Some (Inr (), tr') \<and>
    holds l ps tr' (ins_entry key (trimmed v) es)"
proof -
  obtain h t where H: "tree_geom l ps" "tree_inv l ps tr h t" "full t \<or> (\<exists>i. t = Lf i [])"
    "entries cu t = es"
    by (rule holdsE[OF h]) blast
  have "pageCount (Pg tr) + Suc h \<le> 4 + 3 * length es" using page_count[OF H(2,3)] H(4) by simp
  also have "\<dots> < 2 ^ 32" using room by (simp add: entry_limit_def)
  finally have lim: "pageCount (Pg tr) + Suc h < 2 ^ 32" .
  have "2 ^ 32 < page_limit ps" using limit_65536[of ps] tree_geomD(2,3)[OF H(1)] by simp
  then have lim': "pageCount (Pg tr) + Suc h < page_limit ps" using lim by linarith
  obtain tr' where I: "Tree_Insert acc key v tr = Some (Inr (), tr')" "grown l ps key v t tr'"
    using Tree_Insert_spec[OF H(1) v H(2) lim' lim] .
  have "length (ins_entry key (trimmed v) es) \<le> entry_limit"
    using length_ins_entry[of key "trimmed v" es] room by linarith
  then have "holds l ps tr' (ins_entry key (trimmed v) es)"
    using I(2) H(1,4) unfolding grown_def holds_def trimmed_def by blast
  then show ?thesis using I(1) by blast
qed

lemma holds_reopen:
  assumes "holds l ps tr es"
  shows "\<exists>tr1 tr2. close_tree tr = Some (Inr (), tr1) \<and>
    open_tree (pfile (Pg tr1)) cap ps = Some (Inr tr2) \<and> holds l ps tr2 es"
proof -
  obtain h t where H: "tree_geom l ps" "tree_inv l ps tr h t" "full t \<or> (\<exists>i. t = Lf i [])"
    "entries cu t = es" "pageCount (Pg tr) + h < 2 ^ 32 - 1" "length es \<le> entry_limit"
    by (rule holdsE[OF assms])
  have n: "pageCount (Pg tr) \<le> 2 ^ 32" using H(5) by simp
  obtain tr1 tr2 where R: "close_tree tr = Some (Inr (), tr1)"
    "open_tree (pfile (Pg tr1)) cap ps = Some (Inr tr2)" "tree_inv l ps tr2 h t"
    using reopen_tree[OF H(2) tree_geomD(2)[OF H(1)] n] .
  then show ?thesis using H unfolding holds_def by blast
qed

section \<open>Height and CountLeaves\<close>

lemma holds_height:
  assumes "holds l ps tr es"
  shows "\<exists>n tr'. Height tr = Some (n, tr') \<and> holds l ps tr' es \<and> 1 \<le> n \<and> 2 ^ (n - 1) \<le> max 1 (length es)"
proof -
  obtain h t where H: "tree_inv l ps tr h t" "full t \<or> (\<exists>i. t = Lf i [])" "entries cu t = es"
    by (rule holdsE[OF assms]) blast
  note T = tree_invD[OF H(1)]
  obtain s' where S: "height_loop (root_id t) 1 (Pg tr) = Some (1 + h, s')" "unchanged (Pg tr) s'"
    using height_loop_spec[OF T(7,8,10) ids_in_file[OF H(1)], of 1] by blast
  have "Height tr = Some (Suc h, tr\<lparr>Pg := s'\<rparr>)"
    using S(1) T(2) by (simp add: Height_def)
  moreover have "2 ^ h \<le> max 1 (length es)"
  proof (cases "full t")
    case True
    then show ?thesis using height_leaves[OF T(7)] entries_leaves[OF T(7), of cu] H(3) by fastforce
  next
    case False
    then show ?thesis using H(2) T(7) by auto
  qed
  ultimately show ?thesis using holds_unchanged[OF assms S(2)] by simp
qed

lemma holds_leaves:
  assumes "holds l ps tr es"
  shows "\<exists>n tr'. CountLeaves acc tr = Some (n, tr') \<and> holds l ps tr' es \<and> 1 \<le> n \<and> n \<le> max 1 (length es)"
proof -
  obtain h t where H: "tree_inv l ps tr h t" "full t \<or> (\<exists>i. t = Lf i [])" "entries cu t = es"
    by (rule holdsE[OF assms]) blast
  note T = tree_invD[OF H(1)]
  obtain s' where S: "countLeavesRec acc (root_id t) (Pg tr) = Some (length (leaves t), s')"
    "unchanged (Pg tr) s'"
    using countLeaves_spec[OF T(7,8,10) ids_in_file[OF H(1)]] by blast
  have "CountLeaves acc tr = Some (length (leaves t), tr\<lparr>Pg := s'\<rparr>)"
    using S(1) T(2) by (simp add: CountLeaves_def)
  moreover have "length (leaves t) \<le> max 1 (length es)"
  proof (cases "full t")
    case True
    then show ?thesis using entries_leaves[OF T(7), of cu] H(3) by fastforce
  next
    case False
    then show ?thesis using H(2) by auto
  qed
  moreover have "1 \<le> length (leaves t)" using leaves_nonempty[OF T(7)] by (cases "leaves t") auto
  ultimately show ?thesis using holds_unchanged[OF assms S(2)] by blast
qed

end

end
