(* ===== verification/BTreeIndex.thy ===== *)
theory BTreeIndex
  imports BTree TreeIndex
begin

text \<open>
  The B-tree as an index: it keeps the contract of the interface. The heart is the range
  iterator: the stack of frames determines the list of entries yet to come, and Next takes its
  head.
\<close>

section \<open>The index\<close>

definition BTree_iterator :: "(range_iter, tree) Iterator" where
  "BTree_iterator = \<lparr>iter_Next = BTree_Next, iter_Key = (\<lambda>it _. Some (BTree_Key it)),
     iter_Value = (\<lambda>it _. Some (BTree_Value it)), iter_Error = BTree_Error,
     iter_Close = (\<lambda>it t. Some (Inr (), t))\<rparr>"

definition BTree_index :: "(range_iter, tree) Index" where
  "BTree_index = \<lparr>ix_Insert = BTree_Insert, ix_Get = BTree_Get, ix_Delete = BTree_Delete,
     ix_Range = BTree_Range, ix_Close = BTree_Close, ix_Iter = BTree_iterator\<rparr>"

interpretation btt: tree_codec BTreeAcc BTree_cell BTree_norm "\<lambda>l _. 14 + l"
  by unfold_locales (auto simp: BTree_norm_def)

abbreviation btree_entries :: "bt \<Rightarrow> (key \<times> gobytes) list" where
  "btree_entries \<equiv> entries False"

section \<open>What a stack of frames has yet to yield\<close>

fun after_child :: "bt \<Rightarrow> nat \<Rightarrow> (key \<times> gobytes) list" where
  "after_child (Lf _ xs) i = drop i xs"
| "after_child (Nd _ ts ks) i = weave_right (drop i ks) (map btree_entries (drop (Suc i) ts))"

fun before_child :: "bt \<Rightarrow> nat \<Rightarrow> (key \<times> gobytes) list" where
  "before_child (Lf _ xs) i = drop i xs"
| "before_child (Nd i ts ks) j = btree_entries (ts ! j) @ after_child (Nd i ts ks) j"

definition frame_top :: "bt \<Rightarrow> frame \<Rightarrow> (key \<times> gobytes) list" where
  "frame_top u f = (if fr_done f then after_child else before_child) u (fr_idx f)"

fun stack_rest :: "bt list \<Rightarrow> frame list \<Rightarrow> (key \<times> gobytes) list" where
  "stack_rest (u # us) (f # st) = after_child u (fr_idx f) @ stack_rest us st"
| "stack_rest _ _ = []"

fun stack_pending :: "bt list \<Rightarrow> frame list \<Rightarrow> (key \<times> gobytes) list" where
  "stack_pending (u # us) (f # st) = frame_top u f @ stack_rest us st"
| "stack_pending _ _ = []"

text \<open>A frame stands on a node of the file, below its last child; the frames below the top are
  internal nodes.\<close>

fun node_size :: "bt \<Rightarrow> nat" where
  "node_size (Lf _ xs) = length xs"
| "node_size (Nd _ _ ks) = length ks"

fun internal :: "bt \<Rightarrow> bool" where
  "internal (Lf _ _) = False"
| "internal (Nd _ _ _) = True"

definition frame_ok :: "nat \<Rightarrow> nat \<Rightarrow> pager \<Rightarrow> bt \<Rightarrow> frame \<Rightarrow> bool" where
  "frame_ok l ps s u f \<longleftrightarrow> fr_id f = root_id u \<and> fr_idx f \<le> node_size u \<and>
     btt.tree_at l ps (disk_page s) u \<and> set (ids u) \<subseteq> {..<pageCount s} \<and>
     (\<exists>h. bal h u) \<and> (internal u \<longrightarrow> full u)"

definition stack_ok :: "nat \<Rightarrow> nat \<Rightarrow> pager \<Rightarrow> bt list \<Rightarrow> frame list \<Rightarrow> bool" where
  "stack_ok l ps s us st \<longleftrightarrow> list_all2 (frame_ok l ps s) us st \<and> (\<forall>u \<in> set (tl us). internal u)"

lemma frame_ok_unchanged: "frame_ok l ps s u f \<Longrightarrow> unchanged s s' \<Longrightarrow> frame_ok l ps s' u f"
  by (simp add: frame_ok_def unchanged_def)

lemma stack_ok_unchanged: "stack_ok l ps s us st \<Longrightarrow> unchanged s s' \<Longrightarrow> stack_ok l ps s' us st"
  unfolding stack_ok_def by (metis frame_ok_unchanged list_all2_mono)

lemma frame_ok_node:
  assumes "frame_ok l ps s (Nd i ts ks) f"
  shows "length ts = Suc (length ks)" "fr_idx f \<le> length ks" "ks \<noteq> []" "i < pageCount s"
    "j \<le> length ks \<Longrightarrow> frame_ok l ps s (ts ! j) \<lparr>fr_id = root_id (ts ! j), fr_idx = 0, fr_done = False\<rparr>"
    "j \<le> length ks \<Longrightarrow> full (ts ! j)"
proof -
  obtain h where b: "bal h (Nd i ts ks)" using assms by (auto simp: frame_ok_def)
  show l: "length ts = Suc (length ks)" and "fr_idx f \<le> length ks" "ks \<noteq> []" "i < pageCount s"
    using assms b by (auto simp: frame_ok_def)
  show f: "j \<le> length ks \<Longrightarrow> full (ts ! j)" for j using assms l by (auto simp: frame_ok_def)
  assume "j \<le> length ks"
  then have m: "ts ! j \<in> set ts" using l by simp
  have "set (ids (ts ! j)) \<subseteq> {..<pageCount s}" "btt.tree_at l ps (disk_page s) (ts ! j)"
    using assms m by (auto simp: frame_ok_def)
  moreover have "bal (h - 1) (ts ! j)" using b m by simp
  ultimately show "frame_ok l ps s (ts ! j) \<lparr>fr_id = root_id (ts ! j), fr_idx = 0, fr_done = False\<rparr>"
    using f[OF \<open>j \<le> length ks\<close>] by (auto simp: frame_ok_def)
qed

lemma after_child_step:
  assumes "length ts = Suc (length ks)" "j < length ks"
  shows "after_child (Nd i ts ks) j = ks ! j # before_child (Nd i ts ks) (Suc j)"
proof -
  have "drop j ks = ks ! j # drop (Suc j) ks" "drop (Suc j) ts = ts ! Suc j # drop (Suc (Suc j)) ts"
    using assms by (simp_all add: Cons_nth_drop_Suc)
  then show ?thesis by simp
qed

lemma weave_first: "length us = length ls \<Longrightarrow> weave (x # us) ls = x @ weave_right ls us"
  using weave_append_right[of "[x]" "[]" us ls] by simp

lemma before_child_weave:
  assumes "length ts = Suc (length ks)" "j \<le> length ks"
  shows "before_child (Nd i ts ks) j = weave (map btree_entries (drop j ts)) (drop j ks)"
proof -
  have "drop j ts = ts ! j # drop (Suc j) ts" using assms by (simp add: Cons_nth_drop_Suc)
  then show ?thesis
    using assms weave_first[of "map btree_entries (drop (Suc j) ts)" "drop j ks"] by simp
qed

lemma before_child_first: "bal h u \<Longrightarrow> before_child u 0 = btree_entries u"
proof (cases u)
  case (Nd i ts ks)
  assume "bal h u"
  then show ?thesis using before_child_weave[of ts ks 0 i] Nd by (simp del: before_child.simps)
qed simp

section \<open>Next\<close>

definition stack_stands :: "nat \<Rightarrow> nat \<Rightarrow> range_iter \<Rightarrow> pager \<Rightarrow> (key \<times> gobytes) list \<Rightarrow> bool" where
  "stack_stands l ps it s rem \<longleftrightarrow>
     (\<exists>us. stack_ok l ps s us (it_stack it) \<and> stack_pending us (it_stack it) = rem)"

definition yields :: "nat \<Rightarrow> nat \<Rightarrow> key \<Rightarrow> bool \<Rightarrow> range_iter \<Rightarrow> pager \<Rightarrow> (key \<times> gobytes) list \<Rightarrow> bool" where
  "yields l ps b cont it s rem \<longleftrightarrow>
     (case rem of
        [] \<Rightarrow> \<not> cont \<and> stack_stands l ps it s []
      | x # xs \<Rightarrow>
          if sint (fst x) \<le> sint b then
            cont \<and> it_k it = fst x \<and> it_v it = snd x \<and> stack_stands l ps it s xs
          else \<not> cont \<and> stack_stands l ps it s rem)"

definition next_result :: "nat \<Rightarrow> nat \<Rightarrow> range_iter \<Rightarrow> pager \<Rightarrow> (key \<times> gobytes) list \<Rightarrow> bool" where
  "next_result l ps it s rem \<longleftrightarrow>
     (\<exists>cont it' s'. next_loop it s = Some ((cont, it'), s') \<and> unchanged s s' \<and>
        it_err it' = it_err it \<and> it_end it' = it_end it \<and>
        yields l ps (it_end it) cont it' s' rem)"

lemma next_result_step:
  assumes "next_loop it s = next_loop (it\<lparr>it_stack := st\<rparr>) s1" "unchanged s s1"
    "next_result l ps (it\<lparr>it_stack := st\<rparr>) s1 rem"
  shows "next_result l ps it s rem"
  using assms(3) unchanged_trans[OF assms(2)] unfolding next_result_def assms(1) by auto

text \<open>A frame with an entry to yield yields it.\<close>

lemma emit_leaf:
  assumes st: "it_stack it = f # st" and ok: "stack_ok l ps s (Lf i xs # us) (f # st)"
    and inv: "pager_inv {} s" and idx: "fr_idx f < length xs"
  shows "next_result l ps it s (drop (fr_idx f) xs @ stack_rest us st)"
proof -
  have F: "frame_ok l ps s (Lf i xs) f" "fr_id f = i" "i < pageCount s"
    "btt.tree_at l ps (disk_page s) (Lf i xs)"
    using ok by (auto simp: stack_ok_def frame_ok_def)
  obtain a s1 where R: "Read i s = (Inr a, s1)" "unchanged s s1" "bufs s1 a = disk_page s i"
    by (rule Read_unchanged[OF inv F(3)])
  note L = btt.leaf_reads[OF F(4)]
  have cell: "BTree_ReadCell (disk_page s i) (fr_idx f) True =
      Some (fst (xs ! fr_idx f), snd (xs ! fr_idx f), 0)"
    using L(5)[OF idx] by simp
  let ?f = "f\<lparr>fr_idx := fr_idx f + 1\<rparr>"
  have ok': "stack_ok l ps s1 (Lf i xs # us) (?f # st)"
    using stack_ok_unchanged[OF ok R(2)] idx by (auto simp: stack_ok_def frame_ok_def)
  have pend: "stack_pending (Lf i xs # us) (?f # st) = drop (Suc (fr_idx f)) xs @ stack_rest us st"
    by (simp add: frame_top_def)
  have x: "drop (fr_idx f) xs = xs ! fr_idx f # drop (Suc (fr_idx f)) xs"
    using idx by (simp add: Cons_nth_drop_Suc)
  show ?thesis
  proof (cases "sint (fst (xs ! fr_idx f)) \<le> sint (it_end it)")
    case True
    have "next_loop it s = Some ((True, it\<lparr>it_k := fst (xs ! fr_idx f), it_v := snd (xs ! fr_idx f),
        it_stack := ?f # st\<rparr>), s1)"
      using st F(2) R(1,3) L(1,2) cell idx True by (subst next_loop.simps) simp
    then show ?thesis unfolding next_result_def yields_def stack_stands_def x using R(2) True ok' pend by auto
  next
    case False
    have "next_loop it s = Some ((False, it), s1)"
      using st F(2) R(1,3) L(1,2) cell idx False by (subst next_loop.simps) simp
    moreover have "stack_stands l ps it s1 (drop (fr_idx f) xs @ stack_rest us st)"
      unfolding stack_stands_def st
      by (intro exI[of _ "Lf i xs # us"] conjI stack_ok_unchanged[OF ok R(2)]) (simp add: frame_top_def)
    ultimately show ?thesis unfolding next_result_def yields_def x using R(2) False by auto
  qed
qed

lemma emit_internal:
  assumes st: "it_stack it = f # st" and ok: "stack_ok l ps s (Nd i ts ks # us) (f # st)"
    and inv: "pager_inv {} s" and idx: "fr_idx f < length ks" and d: "fr_done f"
  shows "next_result l ps it s (after_child (Nd i ts ks) (fr_idx f) @ stack_rest us st)"
proof -
  have F: "frame_ok l ps s (Nd i ts ks) f" "fr_id f = i" "btt.tree_at l ps (disk_page s) (Nd i ts ks)"
    using ok by (auto simp: stack_ok_def frame_ok_def)
  note N = frame_ok_node[OF F(1)]
  obtain a s1 where R: "Read i s = (Inr a, s1)" "unchanged s s1" "bufs s1 a = disk_page s i"
    by (rule Read_unchanged[OF inv N(4)])
  note L = btt.node_reads[OF F(3)]
  let ?e = "ks ! fr_idx f"
  have cell: "BTree_ReadCell (disk_page s i) (fr_idx f) False =
      Some (fst ?e, snd ?e, root_id (ts ! fr_idx f))"
    using L(5)[OF idx] by simp
  let ?f = "f\<lparr>fr_idx := fr_idx f + 1, fr_done := False\<rparr>"
  have ok': "stack_ok l ps s1 (Nd i ts ks # us) (?f # st)"
    using stack_ok_unchanged[OF ok R(2)] idx by (auto simp: stack_ok_def frame_ok_def)
  have pend: "stack_pending (Nd i ts ks # us) (?f # st) =
      before_child (Nd i ts ks) (Suc (fr_idx f)) @ stack_rest us st"
    by (simp add: frame_top_def del: before_child.simps)
  note x = after_child_step[OF N(1) idx, of i]
  show ?thesis
  proof (cases "sint (fst ?e) \<le> sint (it_end it)")
    case True
    have "next_loop it s = Some ((True, it\<lparr>it_k := fst ?e, it_v := snd ?e, it_stack := ?f # st\<rparr>), s1)"
      using st F(2) R(1,3) L(1,2) cell idx True d by (subst next_loop.simps) simp
    then show ?thesis unfolding next_result_def yields_def stack_stands_def x using R(2) True ok' pend by auto
  next
    case False
    have "next_loop it s = Some ((False, it), s1)"
      using st F(2) R(1,3) L(1,2) cell idx False d by (subst next_loop.simps) simp
    moreover have "stack_stands l ps it s1 (after_child (Nd i ts ks) (fr_idx f) @ stack_rest us st)"
      unfolding stack_stands_def st
      by (intro exI[of _ "Nd i ts ks # us"] conjI stack_ok_unchanged[OF ok R(2)])
        (simp add: frame_top_def d del: after_child.simps)
    ultimately show ?thesis unfolding next_result_def yields_def x using R(2) False by auto
  qed
qed

text \<open>A frame that has not visited its child yet pushes a fresh frame for it.\<close>

lemma push_step:
  assumes st: "it_stack it = f # st" and ok: "stack_ok l ps s (Nd i ts ks # us) (f # st)"
    and inv: "pager_inv {} s" and d: "\<not> fr_done f"
  defines "c \<equiv> ts ! fr_idx f"
  defines "g \<equiv> \<lparr>fr_id = root_id c, fr_idx = 0, fr_done = False\<rparr>"
  obtains s1 where "next_loop it s = next_loop (it\<lparr>it_stack := g # f # st\<rparr>) s1" "unchanged s s1"
    "stack_ok l ps s1 (c # Nd i ts ks # us) (g # f # st)" "full c"
proof -
  have F: "frame_ok l ps s (Nd i ts ks) f" "fr_id f = i" "btt.tree_at l ps (disk_page s) (Nd i ts ks)"
    using ok by (auto simp: stack_ok_def frame_ok_def)
  note N = frame_ok_node[OF F(1)]
  obtain a s1 where R: "Read i s = (Inr a, s1)" "unchanged s s1" "bufs s1 a = disk_page s i"
    by (rule Read_unchanged[OF inv N(4)])
  note L = btt.node_reads[OF F(3)]
  have "frame_ok l ps s c g" unfolding c_def g_def by (rule N(5)[OF N(2)])
  then have "stack_ok l ps s (c # Nd i ts ks # us) (g # f # st)"
    using ok by (simp add: stack_ok_def)
  then have "stack_ok l ps s1 (c # Nd i ts ks # us) (g # f # st)"
    by (rule stack_ok_unchanged[OF _ R(2)])
  moreover have "next_loop it s = next_loop (it\<lparr>it_stack := g # f # st\<rparr>) s1"
    unfolding g_def c_def using st F(2) R(1,3) L(1,2) L(6)[OF N(2)] d
    by (subst next_loop.simps) simp
  ultimately show thesis using that R(2) N(6)[OF N(2)] c_def by blast
qed

lemma descend:
  "bal h u \<Longrightarrow> full u \<Longrightarrow> pager_inv {} s \<Longrightarrow> it_stack it = f # st \<Longrightarrow> stack_ok l ps s (u # us) (f # st) \<Longrightarrow>
   fr_idx f = 0 \<Longrightarrow> \<not> fr_done f \<Longrightarrow> next_result l ps it s (btree_entries u @ stack_rest us st)"
proof (induction h arbitrary: u s it f st us)
  case 0
  then obtain i xs where u: "u = Lf i xs" "xs \<noteq> []" by (cases u) auto
  then show ?case using emit_leaf[OF 0(4) _ 0(3), of l ps i xs us] 0(5,6) by simp
next
  case (Suc h)
  then obtain i ts ks where u: "u = Nd i ts ks" by (cases u) auto
  obtain s1 where P: "next_loop it s =
      next_loop (it\<lparr>it_stack := \<lparr>fr_id = root_id (ts ! 0), fr_idx = 0, fr_done = False\<rparr> # f # st\<rparr>) s1"
    "unchanged s s1"
    "stack_ok l ps s1 (ts ! 0 # Nd i ts ks # us) (\<lparr>fr_id = root_id (ts ! 0), fr_idx = 0, fr_done = False\<rparr> # f # st)"
    "full (ts ! 0)"
    using push_step[OF Suc.prems(4) Suc.prems(5)[unfolded u] Suc.prems(3,7)] Suc.prems(6) by metis
  have b: "bal h (ts ! 0)" using Suc.prems(1) u by (cases ts) auto
  have "next_result l ps (it\<lparr>it_stack := \<lparr>fr_id = root_id (ts ! 0), fr_idx = 0, fr_done = False\<rparr> # f # st\<rparr>) s1
      (btree_entries (ts ! 0) @ stack_rest (Nd i ts ks # us) (f # st))"
    by (rule Suc.IH[OF b P(4) unchangedD(1)[OF P(2)] _ P(3)]) simp_all
  moreover have "btree_entries (ts ! 0) @ stack_rest (Nd i ts ks # us) (f # st) =
      btree_entries u @ stack_rest us st"
    using before_child_first[OF Suc.prems(1)] u Suc.prems(6) by simp
  ultimately show ?case using next_result_step[OF P(1,2)] by metis
qed

lemma pop_step:
  assumes IH: "\<And>it s. stack_ok l ps s us (it_stack it) \<Longrightarrow> pager_inv {} s \<Longrightarrow>
      next_result l ps it s (stack_pending us (it_stack it))"
    and ok: "stack_ok l ps s (u # us) (f # st)" and un: "unchanged s s1"
    and run: "next_loop it s = next_loop (it\<lparr>it_stack := pop_frame (f # st)\<rparr>) s1"
  shows "next_result l ps it s (stack_rest us st)"
proof (cases st)
  case Nil
  then have "us = []" using ok by (simp add: stack_ok_def)
  then show ?thesis
    using next_result_step[OF run un] IH[of s1 "it\<lparr>it_stack := []\<rparr>"] unchangedD(1)[OF un] Nil
    by (simp add: stack_ok_def)
next
  case (Cons g st')
  then obtain w us' where us: "us = w # us'" using ok by (cases us) (auto simp: stack_ok_def)
  let ?st = "g\<lparr>fr_done := True\<rparr> # st'"
  have "stack_ok l ps s us ?st"
    using ok Cons us by (auto simp: stack_ok_def frame_ok_def dest: list.set_sel(2))
  then have "stack_ok l ps s1 us ?st" by (rule stack_ok_unchanged[OF _ un])
  then have "next_result l ps (it\<lparr>it_stack := ?st\<rparr>) s1 (stack_pending us ?st)"
    using IH[of s1 "it\<lparr>it_stack := ?st\<rparr>"] unchangedD(1)[OF un] by simp
  moreover have "stack_pending us ?st = stack_rest us st" using Cons us by (simp add: frame_top_def)
  ultimately show ?thesis using next_result_step[OF run un] Cons by simp
qed

lemma next_loop_spec:
  "stack_ok l ps s us (it_stack it) \<Longrightarrow> pager_inv {} s \<Longrightarrow>
     next_result l ps it s (stack_pending us (it_stack it))"
proof (induction us arbitrary: it s)
  case Nil
  then have "it_stack it = []" by (simp add: stack_ok_def)
  then show ?case
    using unchanged_refl[OF Nil(2)]
    by (auto simp: next_result_def yields_def stack_stands_def stack_ok_def next_loop.simps)
next
  case (Cons u us)
  obtain f st where st: "it_stack it = f # st" using Cons.prems(1)
    by (cases "it_stack it") (auto simp: stack_ok_def)
  note ok = Cons.prems(1)[unfolded st]
  have F: "frame_ok l ps s u f" "fr_id f = root_id u" "btt.tree_at l ps (disk_page s) u"
    "set (ids u) \<subseteq> {..<pageCount s}"
    using ok by (auto simp: stack_ok_def frame_ok_def)
  have "root_id u < pageCount s" using F(4) root_in_ids by blast
  then obtain a s1 where R: "Read (root_id u) s = (Inr a, s1)" "unchanged s s1"
    "bufs s1 a = disk_page s (root_id u)"
    by (rule Read_unchanged[OF Cons.prems(2)])
  show ?case
  proof (cases u)
    case (Lf i xs)
    note L = btt.leaf_reads[OF F(3)[unfolded Lf]]
    have pend: "stack_pending (u # us) (it_stack it) = drop (fr_idx f) xs @ stack_rest us st"
      using st Lf by (simp add: frame_top_def)
    show ?thesis
    proof (cases "fr_idx f < length xs")
      case True
      then show ?thesis using emit_leaf[OF st _ Cons.prems(2) True] ok Lf pend by simp
    next
      case False
      have "next_loop it s = next_loop (it\<lparr>it_stack := pop_frame (f # st)\<rparr>) s1"
        using st F(2) R(1,3) L(1,2) False Lf by (subst next_loop.simps) simp
      from pop_step[OF Cons.IH ok R(2) this] show ?thesis using pend False by simp
    qed
  next
    case (Nd i ts ks)
    note L = btt.node_reads[OF F(3)[unfolded Nd]]
    note N = frame_ok_node[OF F(1)[unfolded Nd]]
    show ?thesis
    proof (cases "fr_done f")
      case d: False
      let ?c = "ts ! fr_idx f"
      let ?g = "\<lparr>fr_id = root_id ?c, fr_idx = 0, fr_done = False\<rparr>"
      obtain s2 where P: "next_loop it s = next_loop (it\<lparr>it_stack := ?g # f # st\<rparr>) s2" "unchanged s s2"
        "stack_ok l ps s2 (?c # Nd i ts ks # us) (?g # f # st)" "full ?c"
        using push_step[OF st ok[unfolded Nd] Cons.prems(2) d] .
      obtain h where b: "bal h ?c" using P(3) by (auto simp: stack_ok_def frame_ok_def)
      have "next_result l ps (it\<lparr>it_stack := ?g # f # st\<rparr>) s2
          (btree_entries ?c @ stack_rest (Nd i ts ks # us) (f # st))"
        by (rule descend[OF b P(4) unchangedD(1)[OF P(2)] _ P(3)]) simp_all
      then have "next_result l ps it s (btree_entries ?c @ stack_rest (Nd i ts ks # us) (f # st))"
        by (rule next_result_step[OF P(1,2)])
      then show ?thesis using st Nd d by (simp add: frame_top_def)
    next
      case d: True
      have pend: "stack_pending (u # us) (it_stack it) =
          after_child (Nd i ts ks) (fr_idx f) @ stack_rest us st"
        using st Nd d by (simp add: frame_top_def)
      show ?thesis
      proof (cases "fr_idx f < length ks")
        case True
        show ?thesis unfolding pend by (rule emit_internal[OF st ok[unfolded Nd] Cons.prems(2) True d])
      next
        case False
        have "next_loop it s = next_loop (it\<lparr>it_stack := pop_frame (f # st)\<rparr>) s1"
          using st F(2) R(1,3) L(1,2) False Nd d by (subst next_loop.simps) simp
        from pop_step[OF Cons.IH ok R(2) this] show ?thesis using pend False by simp
      qed
    qed
  qed
qed

section \<open>Range\<close>

lemma entries_weave_items:
  assumes "\<forall>w \<in> set ws. \<exists>h. bal h w" "length ws = length ks"
  shows "e \<in> set (weave_left (map btree_entries ws) ks) \<Longrightarrow>
      entry_item e \<in> set (weave_left (map (items False) ws) (map (sep_item False) ks))"
    "e \<in> set (weave_right ks (map btree_entries ws)) \<Longrightarrow>
      entry_item e \<in> set (weave_right (map (sep_item False) ks) (map (items False) ws))"
proof -
  have i: "entry_item e \<in> set (items False w)" if w: "w \<in> set ws" "e \<in> set (btree_entries w)" for w
  proof -
    obtain h where b: "bal h w" using bspec[OF assms(1) w(1)] ..
    have "set (map entry_item (btree_entries w)) \<subseteq> set (items False w)"
      unfolding items_entries[OF b, symmetric] by simp
    moreover have "entry_item e \<in> set (map entry_item (btree_entries w))"
      using w(2) by (metis image_eqI list.set_map)
    ultimately show ?thesis by (rule subsetD)
  qed
  have s: "entry_item e \<in> set (map (sep_item False) ks)" if "e \<in> set ks"
    using that by (auto simp: sep_item_def)
  have u: "entry_item e \<in> \<Union> (set ` set (map (items False) ws)) \<union> set (map (sep_item False) ks)"
    if "e \<in> \<Union> (set ` set (map btree_entries ws)) \<union> set ks"
    using that i s by auto
  show "e \<in> set (weave_left (map btree_entries ws) ks) \<Longrightarrow>
      entry_item e \<in> set (weave_left (map (items False) ws) (map (sep_item False) ks))"
    "e \<in> set (weave_right ks (map btree_entries ws)) \<Longrightarrow>
      entry_item e \<in> set (weave_right (map (sep_item False) ks) (map (items False) ws))"
    using u assms(2) by (simp_all only: set_weave_left set_weave_right length_map)
qed

lemma range_loop_spec:
  "bal h t \<Longrightarrow> h = 0 \<or> full t \<Longrightarrow> pager_inv {} s \<Longrightarrow> btt.tree_at l ps (disk_page s) t \<Longrightarrow>
   set (ids t) \<subseteq> {..<pageCount s} \<Longrightarrow> asc (items False t) \<Longrightarrow>
   list_all2 (frame_ok l ps s) us st \<Longrightarrow> \<forall>u \<in> set us. internal u \<Longrightarrow>
   \<exists>us' st' s'. range_loop start (root_id t) st s = Some (Inr st', s') \<and> unchanged s s' \<and>
     stack_ok l ps s' us' st' \<and>
     stack_pending us' st' = filter (\<lambda>e. sint start \<le> sint (fst e)) (btree_entries t) @ stack_rest us st"
proof (induction h arbitrary: t s us st)
  case 0
  then obtain i xs where t: "t = Lf i xs" by (cases t) auto
  have i: "i < pageCount s" "btt.tree_at l ps (disk_page s) (Lf i xs)" "sorted_entries xs"
    using 0 t sorted_entries_items by simp_all
  obtain a s1 where R: "Read i s = (Inr a, s1)" "unchanged s s1" "bufs s1 a = disk_page s i"
    by (rule Read_unchanged[OF 0(3) i(1)])
  obtain idx where X: "FindIdx BTreeAcc (disk_page s i) start (length xs) True = Some idx" "idx \<le> length xs"
    "\<And>e. e \<in> set (take idx xs) \<Longrightarrow> sint (fst e) < sint start"
    "\<And>e. e \<in> set (drop idx xs) \<Longrightarrow> sint start \<le> sint (fst e)"
    by (rule btt.leaf_search[OF i(2,3)]) blast
  let ?f = "\<lparr>fr_id = i, fr_idx = idx, fr_done = False\<rparr>"
  have "range_loop start i st s = Some (Inr (?f # st), s1)"
    using R(1,3) btt.leaf_reads(1,2)[OF i(2)] X(1) by (subst range_loop.simps) simp
  moreover have "stack_ok l ps s (t # us) (?f # st)"
  proof -
    have "frame_ok l ps s t ?f" using 0 t X(2) by (auto simp: frame_ok_def)
    then show ?thesis using 0(7,8) by (simp add: stack_ok_def)
  qed
  moreover have "filter (\<lambda>e. sint start \<le> sint (fst e)) xs = drop idx xs"
  proof -
    have "filter (\<lambda>e. sint start \<le> sint (fst e)) (take idx xs) = []"
      using X(3) by (auto simp: filter_empty_conv not_le)
    moreover have "filter (\<lambda>e. sint start \<le> sint (fst e)) (drop idx xs) = drop idx xs"
      using X(4) by (simp add: filter_id_conv)
    ultimately show ?thesis
      by (metis append_Nil append_take_drop_id filter_append)
  qed
  ultimately show ?case
    using t R(2) stack_ok_unchanged[OF _ R(2)]
    by (intro exI[of _ "t # us"] exI[of _ "?f # st"] exI[of _ s1]) (simp add: frame_top_def)
next
  case (Suc h)
  then obtain i ts ks where t: "t = Nd i ts ks" by (cases t) auto
  let ?P = "disk_page s" and ?Q = "\<lambda>e :: key \<times> gobytes. sint start \<le> sint (fst e)"
  have N: "btt.tree_at l ps ?P (Nd i ts ks)" "asc (items False (Nd i ts ks))" "i < pageCount s"
    using Suc.prems t by simp_all
  obtain as u bs ks1 ks2 where S: "ts = as @ u # bs" "ks = ks1 @ ks2" "length as = length ks1"
    "length bs = length ks2" "FindIdx BTreeAcc (?P i) start (length ks) False = Some (length ks1)"
    "\<forall>e \<in> set ks1. fst (sep_item False e) < pos start"
    "\<forall>e \<in> set ks2. pos start \<le> fst (sep_item False e)"
    by (rule btt.node_setup[OF N(1), of start, unfolded BTreeAcc_simps, OF N(2)]) blast
  obtain a s1 where R: "Read i s = (Inr a, s1)" "unchanged s s1" "bufs s1 a = disk_page s i"
    by (rule Read_unchanged[OF Suc.prems(3) N(3)])
  note U = unchangedD[OF R(2)] and rd = btt.node_reads[OF N(1)]
  obtain L R' where I: "items False (Nd i (as @ u # bs) (ks1 @ ks2)) = L @ items False u @ R'"
    "L = weave_left (map (items False) as) (map (sep_item False) ks1)"
    "R' = weave_right (map (sep_item False) ks2) (map (items False) bs)"
    "\<And>x. x \<in> set L \<Longrightarrow> fst x < pos start" "\<And>x. x \<in> set R' \<Longrightarrow> pos start \<le> fst x"
    "asc (L @ items False u @ R')"
    by (rule btt.node_items[of i as u bs ks1 ks2, unfolded BTreeAcc_simps,
          OF N(2)[unfolded S(1,2)] S(3,4,6,7)]) blast
  let ?f = "\<lparr>fr_id = i, fr_idx = length ks1, fr_done = False\<rparr>"
  have run: "range_loop start i st s = range_loop start (root_id u) (?f # st) s1"
    using R(1,3) rd(1,2) S(5) rd(6)[of "length ks1"] S(1-3)
    by (subst range_loop.simps) (simp add: nth_append)
  have f: "frame_ok l ps s t ?f"
    unfolding frame_ok_def using Suc.prems(1,2,4,5) t S(2) by (intro conjI exI[of _ "Suc h"]) simp_all
  then have l2: "list_all2 (frame_ok l ps s1) (t # us) (?f # st)"
    using Suc.prems(7) frame_ok_unchanged[OF _ R(2)] list_all2_mono[OF Suc.prems(7)] by blast
  have bu: "bal h u" "h = 0 \<or> full u" "\<forall>w \<in> set as. \<exists>h. bal h w" "\<forall>w \<in> set bs. \<exists>h. bal h w"
    using Suc.prems(1,2) t S(1) by auto
  have sub: "btt.tree_at l ps (disk_page s1) u" "set (ids u) \<subseteq> {..<pageCount s1}" "asc (items False u)"
    using Suc.prems(4,5) U(2,3) t S(1) I(6) by (auto simp: asc_append)
  obtain us' st' s' where IH: "range_loop start (root_id u) (?f # st) s1 = Some (Inr st', s')"
    "unchanged s1 s'" "stack_ok l ps s' us' st'"
    "stack_pending us' st' = filter ?Q (btree_entries u) @ stack_rest (t # us) (?f # st)"
    using Suc.IH[OF bu(1,2) U(1) sub l2] Suc.prems(8) t by auto
  let ?A = "weave_left (map btree_entries as) ks1" and ?B = "weave_right ks2 (map btree_entries bs)"
  have e: "btree_entries t = ?A @ btree_entries u @ ?B"
    using t S weave_context[of "map btree_entries as" ks1 "[btree_entries u]" "[]" "map btree_entries bs" ks2]
    by simp
  have "filter ?Q ?A = []"
    using entries_weave_items(1)[OF bu(3) S(3)] I(2,4) by (force simp: filter_empty_conv entry_item_def)
  moreover have "filter ?Q ?B = ?B"
    using entries_weave_items(2)[OF bu(4) S(4)] I(3,5) by (force simp: filter_id_conv entry_item_def)
  moreover have "after_child t (length ks1) = ?B" using t S(1-3) by simp
  ultimately have "stack_pending us' st' = filter ?Q (btree_entries t) @ stack_rest us st"
    using IH(4) e by simp
  then show ?case using t run IH(1,3) unchanged_trans[OF R(2) IH(2)] by auto
qed

section \<open>The contract\<close>

definition btree_pending :: "nat \<Rightarrow> nat \<Rightarrow> range_iter \<Rightarrow> tree \<Rightarrow> (key \<times> gobytes) list \<Rightarrow> bool" where
  "btree_pending l ps it t rem \<longleftrightarrow>
     pager_inv {} (Pg t) \<and> it_err it = None \<and>
     (\<exists>us. stack_ok l ps (Pg t) us (it_stack it) \<and> sorted_entries (stack_pending us (it_stack it)) \<and>
        rem = takeWhile (\<lambda>e. sint (fst e) \<le> sint (it_end it)) (stack_pending us (it_stack it)))"

lemma btree_next:
  assumes p: "btree_pending l ps it t rem"
  shows "\<exists>cont it' t'. BTree_Next it t = Some ((cont, it'), t') \<and> same_tree t t' \<and> it_err it' = None \<and>
    (case rem of [] \<Rightarrow> \<not> cont \<and> btree_pending l ps it' t' []
     | x # xs \<Rightarrow> cont \<and> it_k it' = fst x \<and> it_v it' = snd x \<and> btree_pending l ps it' t' xs)"
proof -
  obtain us where U: "pager_inv {} (Pg t)" "it_err it = None" "stack_ok l ps (Pg t) us (it_stack it)"
    "sorted_entries (stack_pending us (it_stack it))"
    "rem = takeWhile (\<lambda>e. sint (fst e) \<le> sint (it_end it)) (stack_pending us (it_stack it))"
    using p unfolding btree_pending_def by blast
  obtain cont it' s' where N: "next_loop it (Pg t) = Some ((cont, it'), s')" "unchanged (Pg t) s'"
    "it_err it' = it_err it" "it_end it' = it_end it"
    "yields l ps (it_end it) cont it' s' (stack_pending us (it_stack it))"
    using next_loop_spec[OF U(3,1)] unfolding next_result_def by blast
  have run: "BTree_Next it t = Some ((cont, it'), t\<lparr>Pg := s'\<rparr>)" by (simp add: BTree_Next_def N(1))
  have same: "same_tree t (t\<lparr>Pg := s'\<rparr>)" using N(2) by (simp add: same_tree_def)
  show ?thesis
  proof (cases rem)
    case Nil
    then have E: "\<not> cont" "stack_stands l ps it' s' (stack_pending us (it_stack it))" using N(5) U(5)
      by (cases "stack_pending us (it_stack it)"; auto simp: yields_def split: if_splits)+
    have "btree_pending l ps it' (t\<lparr>Pg := s'\<rparr>) []"
      unfolding btree_pending_def
      using E(2) unchangedD(1)[OF N(2)] N(3,4) U(2,4,5) Nil by (auto simp: stack_stands_def)
    then show ?thesis using E(1) run same N(3) U(2) Nil by auto
  next
    case (Cons x xs)
    then obtain ys where y: "stack_pending us (it_stack it) = x # ys" "sint (fst x) \<le> sint (it_end it)"
      "xs = takeWhile (\<lambda>e. sint (fst e) \<le> sint (it_end it)) ys"
      using U(5) by (cases "stack_pending us (it_stack it)") (auto split: if_splits)
    obtain us' where Y: "cont" "it_k it' = fst x" "it_v it' = snd x" "stack_ok l ps s' us' (it_stack it')"
      "stack_pending us' (it_stack it') = ys"
      using N(5) y(1,2) by (auto simp: yields_def stack_stands_def)
    have "btree_pending l ps it' (t\<lparr>Pg := s'\<rparr>) xs"
      unfolding btree_pending_def
      using unchangedD(1)[OF N(2)] N(3,4) U(2,4) y Y(4,5) by auto
    then show ?thesis using run same N(3) U(2) Cons Y(1-3) by auto
  qed
qed

interpretation btc: range_cursor BTree_iterator "btree_pending l ps" same_tree for l ps
proof (unfold_locales, goal_cases)
  case (1 it s)
  show ?case using btree_next[OF 1] by (auto simp: BTree_iterator_def BTree_Error_def)
next
  case (2 it s x xs)
  show ?case using btree_next[OF 2]
    by (auto simp: BTree_iterator_def BTree_Key_def BTree_Value_def)
next
  case (3 s s1 s2)
  then show ?case by (rule same_tree_trans)
qed

lemma BTree_index_simps [simp]:
  "ix_Insert BTree_index = BTree_Insert" "ix_Get BTree_index = BTree_Get"
  "ix_Delete BTree_index = BTree_Delete" "ix_Range BTree_index = BTree_Range"
  "ix_Close BTree_index = BTree_Close" "ix_Iter BTree_index = BTree_iterator"
  by (simp_all add: BTree_index_def)

lemma btree_get:
  assumes h: "btt.holds l ps t es"
  shows "\<exists>t'. BTree_Get k t = Some (case map_of es k of None \<Rightarrow> Inr None | Some w \<Rightarrow> Inr w, t') \<and>
    btt.holds l ps t' es \<and> same_tree t t'"
proof -
  obtain h u where H: "btt.tree_inv l ps t h u" "entries False u = es"
    by (rule btt.holdsE[OF h]) auto
  note T = btt.tree_invD[OF H(1)]
  obtain s' where G: "get_loop BTreeAcc k (root_id u) (Pg t) =
      Some (Inr (found (map_of (btree_entries u) k)), s')" "unchanged (Pg t) s'"
    using btt.get_loop_spec[OF _ T(7,8,10) btt.ids_in_file[OF H(1)], of k] T(12) by auto
  have "BTree_Get k t = Some (Inr (found (map_of es k)), t\<lparr>Pg := s'\<rparr>)"
    using G(1) T(2) H(2) by (simp add: BTree_Get_def Tree_Get_def)
  then show ?thesis using btt.holds_unchanged[OF h G(2)] G(2)
    by (auto simp: found_def same_tree_def split: option.splits)
qed

lemma btree_range:
  assumes h: "btt.holds l ps t es"
  shows "\<exists>it t'. BTree_Range a b t = Some (Inr it, t') \<and> btt.holds l ps t' es \<and> same_tree t t' \<and>
    btree_pending l ps it t' (range_entries a b es)"
proof -
  obtain h u where H: "btt.tree_inv l ps t h u" "entries False u = es"
    by (rule btt.holdsE[OF h]) auto
  note T = btt.tree_invD[OF H(1)]
  have asc: "asc (items False u)" using T(12) by simp
  obtain us st s' where R: "range_loop a (root_id u) [] (Pg t) = Some (Inr st, s')" "unchanged (Pg t) s'"
    "stack_ok l ps s' us st"
    "stack_pending us st = filter (\<lambda>e. sint a \<le> sint (fst e)) (btree_entries u)"
    using range_loop_spec[OF T(7,13,8,10) btt.ids_in_file[OF H(1)] asc, of "[]" "[]" a] by auto
  let ?it = "\<lparr>it_end = b, it_stack = st, it_k = 0, it_v = None, it_err = None\<rparr>"
  have run: "BTree_Range a b t = Some (Inr ?it, t\<lparr>Pg := s'\<rparr>)"
    using R(1) T(2) by (simp add: BTree_Range_def)
  have sorted: "sorted_entries (stack_pending us st)"
    using entries_sorted[OF T(7) T(12)] unfolding R(4)
    by (simp add: sorted_entries_def sorted_wrt_map sorted_wrt_filter)
  have "takeWhile (\<lambda>e. sint (fst e) \<le> sint b) (stack_pending us st) = range_entries a b es"
    using takeWhile_sorted[OF sorted, of "sint b"] R(4) H(2)
    by (simp add: range_entries_def conj_commute)
  then have "btree_pending l ps ?it (t\<lparr>Pg := s'\<rparr>) (range_entries a b es)"
    unfolding btree_pending_def using unchangedD(1)[OF R(2)] R(3) sorted by auto
  moreover have "same_tree t (t\<lparr>Pg := s'\<rparr>)" using R(2) by (simp add: same_tree_def)
  ultimately show ?thesis using run btt.holds_unchanged[OF h R(2)] by blast
qed

interpretation bti: ordered_index BTree_index "btree_pending l ps" same_tree "btt.holds l ps"
    "\<lambda>_. True" "\<lambda>_ _. True" "\<lambda>v. glen v = l" trimmed "Inr None" entry_limit for l ps
proof (unfold_locales, goal_cases)
  case (1 it s)
  then show ?case using btc.next_end by simp
next
  case (2 it s x xs)
  then show ?case using btc.next_entry by simp
next
  case (3 s s1 s2)
  then show ?case by (rule same_tree_trans)
next
  case (4 s es)
  then show ?case by (rule btt.holds_sorted)
next
  case (5 s es s')
  then show ?case using btt.holds_unchanged by (metis same_tree_def)
next
  case (6 s es k v)
  then show ?case using btt.holds_insert by (simp add: BTree_Insert_def)
next
  case (7 s es k)
  then show ?case using btree_get[of l ps s es k] by auto
next
  case (8 s es a b)
  then show ?case using btree_range by fastforce
next
  case (9 it s rem)
  then obtain us where "sorted_entries (stack_pending us (it_stack it))"
    "rem = takeWhile (\<lambda>e. sint (fst e) \<le> sint (it_end it)) (stack_pending us (it_stack it))"
    by (auto simp: btree_pending_def)
  then show ?case
    by (simp add: takeWhile_sorted sorted_entries_def sorted_wrt_map sorted_wrt_filter)
qed

section \<open>Sessions on a file\<close>

text \<open>
  Pages of \<open>ps\<close> bytes hold at least two entries with values of \<open>l\<close> bytes, and no cell is
  overrun by the pointer array.
\<close>

definition btree_geom :: "nat \<Rightarrow> nat \<Rightarrow> bool" where
  "btree_geom l ps \<longleftrightarrow> node_geom ps (14 + l)"

lemma btree_tree_geom: "btree_geom l ps \<Longrightarrow> btt.tree_geom l ps"
  by (auto simp: btree_geom_def btt.tree_geom_def node_geom_def)

interpretation btd: durable_index BTree_index "btree_pending l ps" same_tree "btt.holds l ps"
    "\<lambda>_. True" "\<lambda>_ _. True" "\<lambda>v. glen v = l" trimmed "Inr None" entry_limit
    "\<lambda>cap f. BTree_Open f cap ps" tree_file "\<lambda>f. empty_tree_file f \<and> btree_geom l ps" for l ps
proof (unfold_locales, goal_cases)
  case (1 f c)
  then show ?case
    using btt.holds_new[OF _ _ btree_tree_geom] by (simp add: empty_tree_file_def BTree_Open_def)
next
  case (2 s es c)
  then show ?case
    using btt.holds_reopen by (simp add: BTree_Close_def BTree_Open_def tree_file_def)
qed

section \<open>Properties\<close>

text \<open>
  C1. The B-tree is a durable sorted map: on an empty file without I/O faults, with values
  of one length and a page size that fits them, any number of sessions, each opening the file
  with a cache of any size, running any inserts, lookups and range scans and closing the file,
  returns exactly what a sorted list of entries returns, the entries of all earlier sessions
  included, as long as no more than 2^30 keys are inserted. In particular no operation panics,
  reports an error or fails to end.
\<close>

theorem btree_sessions:
  assumes "empty_tree_file f" "btree_geom l ps" "\<forall>op \<in> set (session_ops ss). fixed_length l op"
    "inserts (session_ops ss) \<le> entry_limit"
  shows "\<exists>f'. run_sessions (\<lambda>cap f. BTree_Open f cap ps) tree_file BTree_index ss f =
    Some (spec_sessions trimmed (Inr None) ss [], f')"
  by (rule btd.fresh_sessions) (use assms in \<open>simp_all add: fixed_length_allowed\<close>)

theorem btree_sessions_witness:
  "\<exists>f'. run_sessions (\<lambda>cap f. BTree_Open f cap 64) tree_file BTree_index
     [(2, [OInsert 5 (Some [1]), OInsert 3 (Some [2]), OInsert 5 (Some [4])]),
      (3, [OGet 5, OGet 4, OScan 0 9])] empty_file =
     Some ([[RInsert (Inr ()), RInsert (Inr ()), RInsert (Inr ())],
       [RGet (Inr (Some [4])), RGet (Inr None), RScan (Inr ([(3, Some [2]), (5, Some [4])], None))]], f')"
  using btree_sessions[of empty_file 1 64 "[(2, [OInsert 5 (Some [1]), OInsert 3 (Some [2]), OInsert 5 (Some [4])]),
      (3, [OGet 5, OGet 4, OScan 0 9])]"]
  by (simp add: empty_tree_file_def btree_geom_def node_geom_def session_ops_def entry_limit_def
      spec_final_def trimmed_def range_entries_def)

text \<open>
  Delete of the B-tree is not implemented: it reports success, and every lookup and scan
  afterwards still returns the key.
\<close>

lemma btree_delete_keeps:
  assumes "empty_tree_file f" "btree_geom l ps" "\<forall>op \<in> set (ops @ ops'). fixed_length l op"
    "inserts (ops @ ops') \<le> entry_limit"
  shows "\<exists>t outs t1 t2 t3. BTree_Open f cap ps = Some (Inr t) \<and>
    run_ops BTree_index ops t = Some (outs, t1) \<and> BTree_Delete k t1 = Some (Inr (), t2) \<and>
    run_ops BTree_index ops' t2 =
      Some (spec_run trimmed (Inr None) ops' (spec_final trimmed ops []), t3)"
proof -
  obtain t where O: "BTree_Open f cap ps = Some (Inr t)" "btt.holds l ps t []"
    using btd.open_law[of f l ps cap] assms(1,2) by auto
  have i: "inserts ops + inserts ops' \<le> entry_limit" using assms(4) by (simp add: inserts_append)
  obtain t1 where R: "run_ops BTree_index ops t = Some (spec_run trimmed (Inr None) ops [], t1)"
    "btt.holds l ps t1 (spec_final trimmed ops [])"
    using bti.run_ops_exact[OF O(2), of ops] assms(3) i by (auto simp: fixed_length_allowed)
  have "length (spec_final trimmed ops []) + inserts ops' \<le> entry_limit"
    using length_spec_final[of trimmed ops "[]"] i by simp
  then show ?thesis
    using bti.run_ops_exact[OF R(2), of ops'] assms(3) O(1) R(1)
    by (auto simp: fixed_length_allowed BTree_Delete_def)
qed

end
