(* ===== verification/BPTreeIndex.thy ===== *)
theory BPTreeIndex
  imports BPTree TreeIndex
begin

text \<open>
  The B+ tree as an index: Get and the range iterator walk the chain of leaves from the leaf
  that FindLeaf finds. A run is a suffix of the list of leaves together with its entries.
\<close>

section \<open>The index\<close>

definition BPTree_iterator :: "(bp_iter, tree) Iterator" where
  "BPTree_iterator = \<lparr>iter_Next = BPTree_Next, iter_Key = (\<lambda>it _. Some (BPTree_Key it)),
     iter_Value = (\<lambda>it t. Some (BPTree_Value it t)), iter_Error = BPTree_Error,
     iter_Close = (\<lambda>it t. Some (Inr (), t))\<rparr>"

definition BPTree_index :: "(bp_iter, tree) Index" where
  "BPTree_index = \<lparr>ix_Insert = BPTree_Insert, ix_Get = BPTree_Get, ix_Delete = BPTree_Delete,
     ix_Range = BPTree_Range, ix_Close = BPTree_Close, ix_Iter = BPTree_iterator\<rparr>"

interpretation bpt: tree_codec BPTreeAcc BPTree_cell BPTree_norm "\<lambda>l leaf. if leaf then 10 + l else 12"
  by unfold_locales (auto simp: BPTree_norm_def)

section \<open>Runs of leaves\<close>

type_synonym run = "(page_id \<times> (key \<times> gobytes) list) list"

definition run_entries :: "run \<Rightarrow> (key \<times> gobytes) list" where
  "run_entries C = concat (map snd C)"

definition run_head :: "run \<Rightarrow> page_id" where
  "run_head C = hd (map fst C @ [InvalidPage])"

definition run_ok :: "nat \<Rightarrow> nat \<Rightarrow> pager \<Rightarrow> run \<Rightarrow> bool" where
  "run_ok l ps s C \<longleftrightarrow> chain (disk_page s) (map fst C) InvalidPage \<and>
     (\<forall>x \<in> set C. bpt.tree_at l ps (disk_page s) (Lf (fst x) (snd x)) \<and> fst x < pageCount s) \<and>
     pageCount s < InvalidPage"

lemma run_simps [simp]:
  "run_entries [] = []" "run_entries (x # C) = snd x @ run_entries C"
  "run_head [] = InvalidPage" "run_head (x # C) = fst x"
  by (simp_all add: run_entries_def run_head_def)

lemma run_ok_Cons:
  "run_ok l ps s (x # C) \<longleftrightarrow> u32_at (disk_page s (fst x)) 9 = run_head C \<and>
     bpt.tree_at l ps (disk_page s) (Lf (fst x) (snd x)) \<and> fst x < pageCount s \<and> fst x \<noteq> InvalidPage \<and>
     run_ok l ps s C"
  unfolding run_ok_def run_head_def by auto

lemma run_ok_unchanged: "run_ok l ps s C \<Longrightarrow> unchanged s s' \<Longrightarrow> run_ok l ps s' C"
  by (simp add: run_ok_def unchanged_def)

lemma leafs_at: "bpt.tree_at l ps P t \<Longrightarrow> (i, xs) \<in> set (leafs t) \<Longrightarrow> bpt.tree_at l ps P (Lf i xs)"
proof (induction t)
  case (Nd j ts ks)
  then obtain u where u: "u \<in> set ts" "(i, xs) \<in> set (leafs u)" by auto
  moreover have "bpt.tree_at l ps P u" using Nd.prems(1) u(1) by simp
  ultimately show ?case using Nd.IH by blast
qed simp

lemma run_ok_suffix:
  assumes inv: "bpt.tree_inv l ps t h u" and n: "pageCount (Pg t) < InvalidPage"
    and C: "leafs u = A @ C"
  shows "run_ok l ps (Pg t) C"
proof -
  note T = bpt.tree_invD[OF inv]
  have "leaves u = map fst A @ map fst C" using leafs_leaves[of u] C by simp
  then have ch: "chain (disk_page (Pg t)) (map fst C) InvalidPage"
    using T(6) by (simp add: chain_append)
  have "bpt.tree_at l ps (disk_page (Pg t)) (Lf (fst x) (snd x)) \<and> fst x < pageCount (Pg t)"
    if x: "x \<in> set C" for x
  proof -
    have m: "(fst x, snd x) \<in> set (leafs u)" using C x by simp
    then have "fst x \<in> set (leaves u)" unfolding leafs_leaves[symmetric] by force
    then show ?thesis using leafs_at[OF T(10) m] leaves_ids bpt.ids_in_file[OF inv] by blast
  qed
  then show ?thesis using ch n by (simp add: run_ok_def)
qed

section \<open>Get\<close>

lemma bp_get_loop_spec:
  "run_ok l ps s C \<Longrightarrow> pager_inv {} s \<Longrightarrow> sorted_entries (run_entries C) \<Longrightarrow>
   \<exists>s'. bp_get_loop key (run_head C) s = Some (Inr (found (map_of (run_entries C) key)), s') \<and>
     unchanged s s'"
proof (induction C arbitrary: s)
  case Nil
  then show ?case using unchanged_refl by (subst bp_get_loop.simps) (simp add: found_def)
next
  case (Cons x C)
  obtain i xs where x: "x = (i, xs)" by (cases x)
  have K: "u32_at (disk_page s i) 9 = run_head C" "bpt.tree_at l ps (disk_page s) (Lf i xs)"
    "i < pageCount s" "i \<noteq> InvalidPage" "run_ok l ps s C"
    using Cons.prems(1) x by (simp_all add: run_ok_Cons del: bpt.tree_at.simps)
  have srt: "sorted_entries xs" "sorted_entries (run_entries C)"
    "\<forall>y \<in> set xs. \<forall>z \<in> set (run_entries C). sint (fst y) < sint (fst z)"
    using Cons.prems(3) x by (simp_all add: sorted_entries_append)
  obtain a s1 where R: "Read i s = (Inr a, s1)" "unchanged s s1" "bufs s1 a = disk_page s i"
    by (rule Read_unchanged[OF Cons.prems(2) K(3)])
  note L = bpt.leaf_reads[OF K(2)]
  obtain idx where X: "FindIdx BPTreeAcc (disk_page s i) key (length xs) True = Some idx" "idx \<le> length xs"
    "\<And>e. e \<in> set (take idx xs) \<Longrightarrow> sint (fst e) < sint key"
    "\<And>e. e \<in> set (drop idx xs) \<Longrightarrow> sint key \<le> sint (fst e)"
    by (rule bpt.leaf_search[OF K(2) srt(1)]) blast
  have look: "map_of xs key = (if idx < length xs \<and> fst (xs ! idx) = key then Some (snd (xs ! idx)) else None)"
    by (rule lookup_at[OF X(2) srt(1) X(3,4)])
  show ?case
  proof (cases "idx < length xs")
    case True
    have cell: "BPTree_ReadCell (disk_page s i) idx True = Some (fst (xs ! idx), snd (xs ! idx), 0)"
      using L(5)[OF True] by simp
    have in_drop: "xs ! idx \<in> set (drop idx xs)" using True by (metis Cons_nth_drop_Suc list.set_intros(1))
    show ?thesis
    proof (cases "fst (xs ! idx) = key")
      case eq: True
      then have "bp_get_loop key i s = Some (Inr (snd (xs ! idx)), s1)"
        using R(1,3) K(4) L(1) X(1) True cell by (subst bp_get_loop.simps) simp
      then show ?thesis using x R(2) look True eq by (simp add: found_def)
    next
      case ne: False
      then have gt: "sint key < sint (fst (xs ! idx))"
        using X(4)[OF in_drop] sint_inject[of "fst (xs ! idx)" key] by simp
      then have "bp_get_loop key i s = Some (Inr None, s1)"
        using R(1,3) K(4) L(1) X(1) True cell ne by (subst bp_get_loop.simps) simp
      moreover have "map_of (run_entries C) key = None"
        using srt(3) gt True by (force simp: map_of_eq_None_iff dest: nth_mem)
      ultimately show ?thesis using x R(2) look ne by (simp add: found_def map_add_def)
    qed
  next
    case False
    have run: "bp_get_loop key i s = bp_get_loop key (run_head C) s1"
      using R(1,3) K(1,4) L(1,4) X(1) False by (subst bp_get_loop.simps) simp
    obtain s2 where "bp_get_loop key (run_head C) s1 =
        Some (Inr (found (map_of (run_entries C) key)), s2)" "unchanged s1 s2"
      using Cons.IH[OF run_ok_unchanged[OF K(5) R(2)] unchangedD(1)[OF R(2)] srt(2)] by blast
    then show ?thesis using run x unchanged_trans[OF R(2)] look False by (simp add: map_add_def)
  qed
qed

lemma find_leaf:
  assumes inv: "bpt.tree_inv l ps t h u" and n: "pageCount (Pg t) < InvalidPage"
  obtains lf xs A B s' where "FindLeaf BPTreeAcc key t = Some (Inr lf, t\<lparr>Pg := s'\<rparr>)"
    "unchanged (Pg t) s'" "entries True u = run_entries A @ run_entries ((lf, xs) # B)"
    "sorted_entries (run_entries ((lf, xs) # B))"
    "\<And>e. e \<in> set (run_entries A) \<Longrightarrow> sint (fst e) < sint key"
    "\<And>e. e \<in> set (run_entries B) \<Longrightarrow> sint key \<le> sint (fst e)"
    "run_ok l ps s' ((lf, xs) # B)"
proof -
  note T = bpt.tree_invD[OF inv]
  obtain lf xs A B s' where F: "find_leaf_loop BPTreeAcc key (root_id u) (Pg t) = Some (Inr lf, s')"
    "unchanged (Pg t) s'" "leafs u = A @ (lf, xs) # B"
    "\<forall>e \<in> set (concat (map snd A)). sint (fst e) < sint key"
    "\<forall>e \<in> set (concat (map snd B)). sint key \<le> sint (fst e)"
    using bpt.find_leaf_spec[OF T(7,8,10) bpt.ids_in_file[OF inv] T(12), of key] by blast
  have e: "entries True u = run_entries A @ run_entries ((lf, xs) # B)"
    using leafs_entries[of u] F(3) by (simp add: run_entries_def)
  then have "sorted_entries (run_entries ((lf, xs) # B))"
    using entries_sorted[OF T(7,12)] by (simp add: sorted_entries_append)
  moreover have "run_ok l ps s' ((lf, xs) # B)"
    by (rule run_ok_unchanged[OF run_ok_suffix[OF inv n F(3)] F(2)])
  moreover have "FindLeaf BPTreeAcc key t = Some (Inr lf, t\<lparr>Pg := s'\<rparr>)"
    using F(1) T(2) by (simp add: FindLeaf_def)
  ultimately show thesis using that F(2,4,5) e unfolding run_entries_def by blast
qed

section \<open>The range iterator\<close>

definition bp_stands :: "nat \<Rightarrow> nat \<Rightarrow> bp_iter \<Rightarrow> pager \<Rightarrow> (key \<times> gobytes) list \<Rightarrow> bool" where
  "bp_stands l ps it s rem \<longleftrightarrow>
     (\<exists>C. run_ok l ps s C \<and> bi_leafID it = run_head C \<and>
        (case C of
           [] \<Rightarrow> rem = []
         | x # B \<Rightarrow> bi_idx it \<le> length (snd x) \<and> rem = drop (bi_idx it) (snd x) @ run_entries B \<and>
             (case bi_currPg it of
                None \<Rightarrow> True
              | Some a \<Rightarrow> owns_buf s (fst x) a \<and> bufs s a = disk_page s (fst x))))"

definition bp_pending :: "nat \<Rightarrow> nat \<Rightarrow> bp_iter \<Rightarrow> tree \<Rightarrow> (key \<times> gobytes) list \<Rightarrow> bool" where
  "bp_pending l ps it t rem \<longleftrightarrow>
     pager_inv {} (Pg t) \<and> bi_err it = None \<and>
     (\<exists>all. bp_stands l ps it (Pg t) all \<and> sorted_entries all \<and>
        rem = takeWhile (\<lambda>e. sint (fst e) \<le> sint (bi_end it)) all)"

lemma zero_copy:
  assumes "BPTree_ReadCell p i True = Some (k, v, c)"
  obtains off n where "readCellZeroCopy p i = Some (k, off, n)" "v = Some (sl p off n)"
proof -
  obtain off kb vl val where R: "CellPtr p i = Some off" "rd p (int off) 8 = Some kb"
    "rd p (int (off + 8)) 2 = Some vl" "rd p (int (off + 10)) (le_get vl) = Some val"
    "k = bits_key (le_get kb)" "v = Some val"
    using assms unfolding BPTree_ReadCell_def unfolding bind_eq_Some_conv if_True by (auto simp del: of_nat_add rd_nat)
  have "val = sl p (off + 10) (le_get vl)" "length val = le_get vl"
    using R(4) by (auto simp del: of_nat_add split: if_splits)
  then show thesis using that R unfolding readCellZeroCopy_def by (simp del: of_nat_add rd_nat)
qed

definition bp_yields :: "nat \<Rightarrow> nat \<Rightarrow> key \<Rightarrow> bool \<Rightarrow> bp_iter \<Rightarrow> pager \<Rightarrow> (key \<times> gobytes) list \<Rightarrow> bool" where
  "bp_yields l ps b cont it s all \<longleftrightarrow>
     (case all of
        [] \<Rightarrow> \<not> cont \<and> bp_stands l ps it s []
      | x # xs \<Rightarrow>
          if sint (fst x) \<le> sint b then
            cont \<and> bi_k it = fst x \<and>
            (\<exists>a off n. bi_v it = Some (a, off, n) \<and> snd x = Some (sl (bufs s a) off n)) \<and>
            bp_stands l ps it s xs
          else \<not> cont \<and> bp_stands l ps it s all)"

definition bp_result :: "nat \<Rightarrow> nat \<Rightarrow> bp_iter \<Rightarrow> pager \<Rightarrow> (key \<times> gobytes) list \<Rightarrow> bool" where
  "bp_result l ps it s all \<longleftrightarrow>
     (\<exists>cont it' s'. bp_next_loop it s = Some ((cont, it'), s') \<and> unchanged s s' \<and>
        bi_err it' = bi_err it \<and> bi_end it' = bi_end it \<and>
        bp_yields l ps (bi_end it) cont it' s' all)"

lemma bp_next_pinned:
  assumes run: "run_ok l ps s ((i, xs) # B)" and inv: "pager_inv {} s"
    and it: "bi_leafID it = i" "bi_idx it \<le> length xs"
    and pin: "bp_pin it s = (Inr a, s1)" "unchanged s s1" "owns_buf s1 i a" "bufs s1 a = disk_page s i"
  shows "bi_idx it < length xs \<Longrightarrow> bp_result l ps it s (drop (bi_idx it) xs @ run_entries B)"
    "\<not> bi_idx it < length xs \<Longrightarrow> bp_next_loop it s =
       bp_next_loop (it\<lparr>bi_leafID := run_head B, bi_currPg := None, bi_idx := 0\<rparr>) s1"
proof -
  have K: "u32_at (disk_page s i) 9 = run_head B" "bpt.tree_at l ps (disk_page s) (Lf i xs)"
    "i \<noteq> InvalidPage"
    using run by (simp_all add: run_ok_Cons del: bpt.tree_at.simps)
  note L = bpt.leaf_reads[OF K(2)]
  show "\<not> bi_idx it < length xs \<Longrightarrow> bp_next_loop it s =
       bp_next_loop (it\<lparr>bi_leafID := run_head B, bi_currPg := None, bi_idx := 0\<rparr>) s1"
    using it K(1,3) L(1,4) pin(1,4) by (subst bp_next_loop.simps) simp
  assume idx: "bi_idx it < length xs"
  let ?e = "xs ! bi_idx it"
  have "BPTree_ReadCell (disk_page s i) (bi_idx it) True = Some (fst ?e, snd ?e, 0)"
    using L(5)[OF idx] by simp
  then obtain off n where Z: "readCellZeroCopy (disk_page s i) (bi_idx it) = Some (fst ?e, off, n)"
    "snd ?e = Some (sl (disk_page s i) off n)"
    by (rule zero_copy)
  have x: "drop (bi_idx it) xs = ?e # drop (Suc (bi_idx it)) xs"
    using idx by (simp add: Cons_nth_drop_Suc)
  show "bp_result l ps it s (drop (bi_idx it) xs @ run_entries B)"
  proof (cases "sint (fst ?e) \<le> sint (bi_end it)")
    case True
    let ?it = "it\<lparr>bi_currPg := Some a, bi_k := fst ?e, bi_v := Some (a, off, n), bi_idx := bi_idx it + 1\<rparr>"
    have "bp_next_loop it s = Some ((True, ?it), s1)"
      using it K(3) L(1) pin(1,4) Z(1) idx True by (subst bp_next_loop.simps) simp
    moreover have "bp_stands l ps ?it s1 (drop (Suc (bi_idx it)) xs @ run_entries B)"
      unfolding bp_stands_def using run_ok_unchanged[OF run pin(2)] it(1) idx pin(3,4) unchangedD(2)[OF pin(2)]
      by (intro exI[of _ "(i, xs) # B"]) simp
    ultimately show ?thesis unfolding bp_result_def bp_yields_def x using pin(2,4) Z(2) True
      by (intro exI[of _ True] exI[of _ ?it] exI[of _ s1]) simp
  next
    case False
    have "bp_next_loop it s = Some ((False, it\<lparr>bi_currPg := Some a\<rparr>), s1)"
      using it K(3) L(1) pin(1,4) Z(1) idx False by (subst bp_next_loop.simps) simp
    moreover have "bp_stands l ps (it\<lparr>bi_currPg := Some a\<rparr>) s1 (drop (bi_idx it) xs @ run_entries B)"
      unfolding bp_stands_def using run_ok_unchanged[OF run pin(2)] it pin(3,4) unchangedD(2)[OF pin(2)]
      by (intro exI[of _ "(i, xs) # B"]) simp
    ultimately show ?thesis unfolding bp_result_def bp_yields_def x using pin(2) False by auto
  qed
qed

lemma bp_result_step:
  assumes "bp_next_loop it s = bp_next_loop it1 s1" "unchanged s s1" "bi_err it1 = bi_err it"
    "bi_end it1 = bi_end it" "bp_result l ps it1 s1 all"
  shows "bp_result l ps it s all"
  using assms(3-5) unchanged_trans[OF assms(2)] unfolding bp_result_def assms(1) by auto

lemma bp_next_run:
  "run_ok l ps s C \<Longrightarrow> pager_inv {} s \<Longrightarrow> bi_leafID it = run_head C \<Longrightarrow> bi_idx it = 0 \<Longrightarrow>
     bi_currPg it = None \<Longrightarrow> bp_result l ps it s (run_entries C)"
proof (induction C arbitrary: it s)
  case Nil
  then have "bp_stands l ps it s []" by (auto simp: bp_stands_def intro!: exI[of _ "[]"])
  then show ?case using Nil unchanged_refl by (auto simp: bp_result_def bp_yields_def bp_next_loop.simps)
next
  case (Cons x B)
  obtain i xs where x: "x = (i, xs)" by (cases x)
  have i: "i < pageCount s" "run_ok l ps s B"
    using Cons.prems(1) x by (simp_all add: run_ok_Cons del: bpt.tree_at.simps)
  obtain a s1 where R: "Read i s = (Inr a, s1)" "unchanged s s1" "owns_buf s1 i a"
    "bufs s1 a = disk_page s i"
    by (rule Read_unchanged[OF Cons.prems(2) i(1)])
  have pin: "bp_pin it s = (Inr a, s1)" using R(1) Cons.prems(3,5) x by (simp add: bp_pin_def)
  have it: "bi_leafID it = i" "bi_idx it \<le> length xs" using Cons.prems(3,4) x by simp_all
  note P = bp_next_pinned[OF Cons.prems(1)[unfolded x] Cons.prems(2) it pin R(2-4)]
  show ?case
  proof (cases "bi_idx it < length xs")
    case True
    then show ?thesis using P(1) x Cons.prems(4) by simp
  next
    case False
    have "bp_result l ps (it\<lparr>bi_leafID := run_head B, bi_currPg := None, bi_idx := 0\<rparr>) s1 (run_entries B)"
      by (rule Cons.IH[OF run_ok_unchanged[OF i(2) R(2)] unchangedD(1)[OF R(2)]]) simp_all
    then have "bp_result l ps it s (run_entries B)"
      by (rule bp_result_step[OF P(2)[OF False] R(2), rotated 2]) simp_all
    then show ?thesis using x False Cons.prems(4) by simp
  qed
qed

lemma bp_next_spec:
  assumes st: "bp_stands l ps it s all" and inv: "pager_inv {} s"
  shows "bp_result l ps it s all"
proof -
  obtain C where C: "run_ok l ps s C" "bi_leafID it = run_head C"
    "case C of [] \<Rightarrow> all = []
     | x # B \<Rightarrow> bi_idx it \<le> length (snd x) \<and> all = drop (bi_idx it) (snd x) @ run_entries B \<and>
         (case bi_currPg it of None \<Rightarrow> True
          | Some a \<Rightarrow> owns_buf s (fst x) a \<and> bufs s a = disk_page s (fst x))"
    using st unfolding bp_stands_def by blast
  show ?thesis
  proof (cases C)
    case Nil
    then show ?thesis using C st unchanged_refl[OF inv] by (auto simp: bp_result_def bp_yields_def bp_next_loop.simps)
  next
    case (Cons x B)
    obtain i xs where x: "x = (i, xs)" by (cases x)
    have I: "i < pageCount s" "run_ok l ps s B" "bi_leafID it = i" "bi_idx it \<le> length xs"
      "all = drop (bi_idx it) xs @ run_entries B"
      using C Cons x by (simp_all add: run_ok_Cons del: bpt.tree_at.simps)
    obtain a s1 where P: "bp_pin it s = (Inr a, s1)" "unchanged s s1" "owns_buf s1 i a"
      "bufs s1 a = disk_page s i"
    proof (cases "bi_currPg it")
      case None
      obtain a s1 where "Read i s = (Inr a, s1)" "unchanged s s1" "owns_buf s1 i a"
        "bufs s1 a = disk_page s i"
        by (rule Read_unchanged[OF inv I(1)])
      then show thesis using that None I(3) by (simp add: bp_pin_def)
    next
      case (Some a)
      then show thesis using that[of a s] C(3) Cons x unchanged_refl[OF inv] by (simp add: bp_pin_def)
    qed
    note N = bp_next_pinned[OF C(1)[unfolded Cons x] inv I(3,4) P]
    show ?thesis
    proof (cases "bi_idx it < length xs")
      case True
      then show ?thesis using N(1) I(5) by simp
    next
      case False
      have "bp_result l ps (it\<lparr>bi_leafID := run_head B, bi_currPg := None, bi_idx := 0\<rparr>) s1 (run_entries B)"
        by (rule bp_next_run[OF run_ok_unchanged[OF I(2) P(2)] unchangedD(1)[OF P(2)]]) simp_all
      then have "bp_result l ps it s (run_entries B)"
        by (rule bp_result_step[OF N(2)[OF False] P(2), rotated 2]) simp_all
      then show ?thesis using False I(5) by simp
    qed
  qed
qed

section \<open>The contract\<close>

lemma bptree_next:
  assumes p: "bp_pending l ps it t rem"
  shows "\<exists>cont it' t'. BPTree_Next it t = Some ((cont, it'), t') \<and> same_tree t t' \<and> bi_err it' = None \<and>
    (case rem of [] \<Rightarrow> \<not> cont \<and> bp_pending l ps it' t' []
     | x # xs \<Rightarrow> cont \<and> bi_k it' = fst x \<and> BPTree_Value it' t' = snd x \<and> bp_pending l ps it' t' xs)"
proof -
  obtain all where U: "pager_inv {} (Pg t)" "bi_err it = None" "bp_stands l ps it (Pg t) all"
    "sorted_entries all" "rem = takeWhile (\<lambda>e. sint (fst e) \<le> sint (bi_end it)) all"
    using p unfolding bp_pending_def by blast
  obtain cont it' s' where N: "bp_next_loop it (Pg t) = Some ((cont, it'), s')" "unchanged (Pg t) s'"
    "bi_err it' = bi_err it" "bi_end it' = bi_end it"
    "bp_yields l ps (bi_end it) cont it' s' all"
    using bp_next_spec[OF U(3,1)] unfolding bp_result_def by blast
  have run: "BPTree_Next it t = Some ((cont, it'), t\<lparr>Pg := s'\<rparr>)" by (simp add: BPTree_Next_def N(1))
  have same: "same_tree t (t\<lparr>Pg := s'\<rparr>)" using N(2) by (simp add: same_tree_def)
  show ?thesis
  proof (cases rem)
    case Nil
    then have E: "\<not> cont" "bp_stands l ps it' s' all"
      using N(5) U(5) by (cases all; auto simp: bp_yields_def split: if_splits)+
    have "bp_pending l ps it' (t\<lparr>Pg := s'\<rparr>) []"
      unfolding bp_pending_def using E(2) unchangedD(1)[OF N(2)] N(3,4) U(2,4,5) Nil by auto
    then show ?thesis using E(1) run same N(3) U(2) Nil by auto
  next
    case (Cons x xs)
    then obtain ys where y: "all = x # ys" "sint (fst x) \<le> sint (bi_end it)"
      "xs = takeWhile (\<lambda>e. sint (fst e) \<le> sint (bi_end it)) ys"
      using U(5) by (cases all) (auto split: if_splits)
    obtain a off n where Y: "cont" "bi_k it' = fst x" "bi_v it' = Some (a, off, n)"
      "snd x = Some (sl (bufs s' a) off n)" "bp_stands l ps it' s' ys"
      using N(5) y(1,2) by (auto simp: bp_yields_def)
    have "bp_pending l ps it' (t\<lparr>Pg := s'\<rparr>) xs"
      unfolding bp_pending_def using unchangedD(1)[OF N(2)] N(3,4) U(2,4) y Y(5) by auto
    moreover have "BPTree_Value it' (t\<lparr>Pg := s'\<rparr>) = snd x" using Y(3,4) by (simp add: BPTree_Value_def)
    ultimately show ?thesis using run same N(3) U(2) Cons Y(1,2) by auto
  qed
qed

interpretation bpc: range_cursor BPTree_iterator "bp_pending l ps" same_tree for l ps
proof (unfold_locales, goal_cases)
  case (1 it s)
  show ?case using bptree_next[OF 1] by (auto simp: BPTree_iterator_def BPTree_Error_def)
next
  case (2 it s x xs)
  show ?case using bptree_next[OF 2] by (auto simp: BPTree_iterator_def BPTree_Key_def)
next
  case (3 s s1 s2)
  then show ?case by (rule same_tree_trans)
qed

lemma BPTree_index_simps [simp]:
  "ix_Insert BPTree_index = BPTree_Insert" "ix_Get BPTree_index = BPTree_Get"
  "ix_Delete BPTree_index = BPTree_Delete" "ix_Range BPTree_index = BPTree_Range"
  "ix_Close BPTree_index = BPTree_Close" "ix_Iter BPTree_index = BPTree_iterator"
  by (simp_all add: BPTree_index_def)

lemma bptree_get:
  assumes h: "bpt.holds l ps t es"
  shows "\<exists>t'. BPTree_Get k t = Some (case map_of es k of None \<Rightarrow> Inr None | Some w \<Rightarrow> Inr w, t') \<and>
    bpt.holds l ps t' es \<and> same_tree t t'"
proof -
  obtain h u where H: "bpt.tree_inv l ps t h u" "entries True u = es" "pageCount (Pg t) < InvalidPage"
    by (rule bpt.holdsE[OF h]) auto
  obtain lf xs A B s1 where F: "FindLeaf BPTreeAcc k t = Some (Inr lf, t\<lparr>Pg := s1\<rparr>)"
    "unchanged (Pg t) s1" "entries True u = run_entries A @ run_entries ((lf, xs) # B)"
    "sorted_entries (run_entries ((lf, xs) # B))"
    "\<And>e. e \<in> set (run_entries A) \<Longrightarrow> sint (fst e) < sint k"
    "run_ok l ps s1 ((lf, xs) # B)"
    by (rule find_leaf[OF H(1,3), of k]) blast
  obtain s2 where G: "bp_get_loop k (run_head ((lf, xs) # B)) s1 =
      Some (Inr (found (map_of (run_entries ((lf, xs) # B)) k)), s2)" "unchanged s1 s2"
    using bp_get_loop_spec[OF F(6) unchangedD(1)[OF F(2)] F(4), of k] by blast
  have "map_of (run_entries A) k = None" using F(5) by (force simp: map_of_eq_None_iff)
  then have m: "map_of es k = map_of (run_entries ((lf, xs) # B)) k"
    using F(3) H(2) by (simp add: map_add_def split: option.splits)
  have "BPTree_Get k t = Some (Inr (found (map_of es k)), t\<lparr>Pg := s2\<rparr>)"
    unfolding BPTree_Get_def m using F(1) G(1) by simp
  then show ?thesis
    using bpt.holds_unchanged[OF h unchanged_trans[OF F(2) G(2)]] unchanged_trans[OF F(2) G(2)]
    by (auto simp: found_def same_tree_def split: option.splits)
qed

lemma bptree_range:
  assumes h: "bpt.holds l ps t es"
  shows "\<exists>it t'. BPTree_Range a b t = Some (Inr it, t') \<and> bpt.holds l ps t' es \<and> same_tree t t' \<and>
    bp_pending l ps it t' (range_entries a b es)"
proof -
  obtain h u where H: "bpt.tree_inv l ps t h u" "entries True u = es" "pageCount (Pg t) < InvalidPage"
    by (rule bpt.holdsE[OF h]) auto
  obtain lf xs A B s1 where F: "FindLeaf BPTreeAcc a t = Some (Inr lf, t\<lparr>Pg := s1\<rparr>)"
    "unchanged (Pg t) s1" "entries True u = run_entries A @ run_entries ((lf, xs) # B)"
    "sorted_entries (run_entries ((lf, xs) # B))"
    "\<And>e. e \<in> set (run_entries A) \<Longrightarrow> sint (fst e) < sint a"
    "\<And>e. e \<in> set (run_entries B) \<Longrightarrow> sint a \<le> sint (fst e)"
    "run_ok l ps s1 ((lf, xs) # B)"
    by (rule find_leaf[OF H(1,3), of a]) blast
  have K: "bpt.tree_at l ps (disk_page s1) (Lf lf xs)" "lf < pageCount s1" "sorted_entries xs"
    using F(4,7) by (simp_all add: run_ok_Cons sorted_entries_append del: bpt.tree_at.simps)
  obtain p s2 where R: "Read lf s1 = (Inr p, s2)" "unchanged s1 s2" "owns_buf s2 lf p"
    "bufs s2 p = disk_page s1 lf"
    by (rule Read_unchanged[OF unchangedD(1)[OF F(2)] K(2)])
  note U = unchanged_trans[OF F(2) R(2)]
  obtain idx where X: "FindIdx BPTreeAcc (disk_page s1 lf) a (length xs) True = Some idx" "idx \<le> length xs"
    "\<And>e. e \<in> set (take idx xs) \<Longrightarrow> sint (fst e) < sint a"
    "\<And>e. e \<in> set (drop idx xs) \<Longrightarrow> sint a \<le> sint (fst e)"
    by (rule bpt.leaf_search[OF K(1,3)]) blast
  let ?it = "\<lparr>bi_end = b, bi_leafID = lf, bi_idx = idx, bi_currPg = Some p, bi_k = 0, bi_v = None,
      bi_err = None\<rparr>"
  let ?all = "drop idx xs @ run_entries B"
  have run: "BPTree_Range a b t = Some (Inr ?it, t\<lparr>Pg := s2\<rparr>)"
    unfolding BPTree_Range_def using F(1) R(1,4) bpt.leaf_reads(1)[OF K(1)] X(1) by simp
  have st: "bp_stands l ps ?it s2 ?all"
    unfolding bp_stands_def using run_ok_unchanged[OF F(7) R(2)] X(2) R(3,4) unchangedD(2)[OF R(2)]
    by (intro exI[of _ "(lf, xs) # B"]) simp
  have e: "es = (run_entries A @ take idx xs) @ ?all" using F(3) H(2) by simp
  have sorted: "sorted_entries ?all"
    using bpt.holds_sorted[OF h] unfolding e by (simp add: sorted_entries_append)
  have "range_entries a b es = filter (\<lambda>e. sint (fst e) \<le> sint b) ?all"
  proof -
    have "range_entries a b es =
        filter (\<lambda>e. sint (fst e) \<le> sint b) (drop (length (run_entries A @ take idx xs)) es)"
      by (rule range_entries_split) (use F(5,6) X(2-4) e in \<open>auto simp: min_absorb2\<close>)
    then show ?thesis using e by simp
  qed
  also have "\<dots> = takeWhile (\<lambda>e. sint (fst e) \<le> sint b) ?all"
    by (rule takeWhile_sorted[OF sorted, symmetric])
  finally have "bp_pending l ps ?it (t\<lparr>Pg := s2\<rparr>) (range_entries a b es)"
    unfolding bp_pending_def using unchangedD(1)[OF U] st sorted by auto
  moreover have "same_tree t (t\<lparr>Pg := s2\<rparr>)" using U by (simp add: same_tree_def)
  ultimately show ?thesis using run bpt.holds_unchanged[OF h U] by blast
qed

interpretation bpi: ordered_index BPTree_index "bp_pending l ps" same_tree "bpt.holds l ps"
    "\<lambda>_. True" "\<lambda>_ _. True" "\<lambda>v. glen v = l" trimmed "Inr None" entry_limit for l ps
proof (unfold_locales, goal_cases)
  case (1 it s)
  then show ?case using bpc.next_end by simp
next
  case (2 it s x xs)
  then show ?case using bpc.next_entry by simp
next
  case (3 s s1 s2)
  then show ?case by (rule same_tree_trans)
next
  case (4 s es)
  then show ?case by (rule bpt.holds_sorted)
next
  case (5 s es s')
  then show ?case using bpt.holds_unchanged by (metis same_tree_def)
next
  case (6 s es k v)
  then show ?case using bpt.holds_insert by (simp add: BPTree_Insert_def)
next
  case (7 s es k)
  then show ?case using bptree_get[of l ps s es k] by auto
next
  case (8 s es a b)
  then show ?case using bptree_range by fastforce
next
  case (9 it s rem)
  then obtain all where "sorted_entries all" "rem = takeWhile (\<lambda>e. sint (fst e) \<le> sint (bi_end it)) all"
    by (auto simp: bp_pending_def)
  then show ?case
    by (simp add: takeWhile_sorted sorted_entries_def sorted_wrt_map sorted_wrt_filter)
qed

section \<open>Sessions on a file\<close>

text \<open>The same condition for the two cell formats: leaf cells with values of \<open>l\<close> bytes, and
  internal cells of 12 bytes.\<close>

definition bptree_geom :: "nat \<Rightarrow> nat \<Rightarrow> bool" where
  "bptree_geom l ps \<longleftrightarrow> node_geom ps (10 + l) \<and> node_geom ps 12"

lemma bptree_tree_geom: "bptree_geom l ps \<Longrightarrow> bpt.tree_geom l ps"
  by (auto simp: bptree_geom_def bpt.tree_geom_def node_geom_def)

interpretation bpd: durable_index BPTree_index "bp_pending l ps" same_tree "bpt.holds l ps"
    "\<lambda>_. True" "\<lambda>_ _. True" "\<lambda>v. glen v = l" trimmed "Inr None" entry_limit
    "\<lambda>cap f. BPTree_Open f cap ps" tree_file "\<lambda>f. empty_tree_file f \<and> bptree_geom l ps" for l ps
proof (unfold_locales, goal_cases)
  case (1 f c)
  then show ?case
    using bpt.holds_new[OF _ _ bptree_tree_geom] by (simp add: empty_tree_file_def BPTree_Open_def)
next
  case (2 s es c)
  then show ?case
    using bpt.holds_reopen by (simp add: BPTree_Close_def BPTree_Open_def tree_file_def)
qed

section \<open>Properties\<close>

text \<open>
  C2. The B+ tree is a durable sorted map: on an empty file without I/O faults, with values
  of one length and a page size that fits them, any number of sessions, each opening the file
  with a cache of any size, running any inserts, lookups and range scans and closing the file,
  returns exactly what a sorted list of entries returns, the entries of all earlier sessions
  included, as long as no more than 2^30 keys are inserted. In particular no operation panics,
  reports an error or fails to end.
\<close>

theorem bptree_sessions:
  assumes "empty_tree_file f" "bptree_geom l ps" "\<forall>op \<in> set (session_ops ss). fixed_length l op"
    "inserts (session_ops ss) \<le> entry_limit"
  shows "\<exists>f'. run_sessions (\<lambda>cap f. BPTree_Open f cap ps) tree_file BPTree_index ss f =
    Some (spec_sessions trimmed (Inr None) ss [], f')"
  by (rule bpd.fresh_sessions) (use assms in \<open>simp_all add: fixed_length_allowed\<close>)

theorem bptree_sessions_witness:
  "\<exists>f'. run_sessions (\<lambda>cap f. BPTree_Open f cap 65) tree_file BPTree_index
     [(2, [OInsert 5 (Some [1]), OInsert 3 (Some [2]), OInsert 5 (Some [4])]),
      (3, [OGet 5, OGet 4, OScan 0 9])] empty_file =
     Some ([[RInsert (Inr ()), RInsert (Inr ()), RInsert (Inr ())],
       [RGet (Inr (Some [4])), RGet (Inr None), RScan (Inr ([(3, Some [2]), (5, Some [4])], None))]], f')"
  using bptree_sessions[of empty_file 1 65 "[(2, [OInsert 5 (Some [1]), OInsert 3 (Some [2]), OInsert 5 (Some [4])]),
      (3, [OGet 5, OGet 4, OScan 0 9])]"]
  by (simp add: empty_tree_file_def bptree_geom_def node_geom_def session_ops_def entry_limit_def
      spec_final_def trimmed_def range_entries_def)

text \<open>
  Delete of the B+ tree is not implemented: it reports success, and every lookup and scan
  afterwards still returns the key.
\<close>

lemma bptree_delete_keeps:
  assumes "empty_tree_file f" "bptree_geom l ps" "\<forall>op \<in> set (ops @ ops'). fixed_length l op"
    "inserts (ops @ ops') \<le> entry_limit"
  shows "\<exists>t outs t1 t2 t3. BPTree_Open f cap ps = Some (Inr t) \<and>
    run_ops BPTree_index ops t = Some (outs, t1) \<and> BPTree_Delete k t1 = Some (Inr (), t2) \<and>
    run_ops BPTree_index ops' t2 =
      Some (spec_run trimmed (Inr None) ops' (spec_final trimmed ops []), t3)"
proof -
  obtain t where O: "BPTree_Open f cap ps = Some (Inr t)" "bpt.holds l ps t []"
    using bpd.open_law[of f l ps cap] assms(1,2) by auto
  have i: "inserts ops + inserts ops' \<le> entry_limit" using assms(4) by (simp add: inserts_append)
  obtain t1 where R: "run_ops BPTree_index ops t = Some (spec_run trimmed (Inr None) ops [], t1)"
    "bpt.holds l ps t1 (spec_final trimmed ops [])"
    using bpi.run_ops_exact[OF O(2), of ops] assms(3) i by (auto simp: fixed_length_allowed)
  have "length (spec_final trimmed ops []) + inserts ops' \<le> entry_limit"
    using length_spec_final[of trimmed ops "[]"] i by simp
  then show ?thesis
    using bpi.run_ops_exact[OF R(2), of ops'] assms(3) O(1) R(1)
    by (auto simp: fixed_length_allowed BPTree_Delete_def)
qed

end
