(* ===== verification/ListIndex.thy ===== *)
theory ListIndex
  imports Index
begin

text \<open>
  The list index (src/dbms/index/listindex/listindex.go): an unordered slice of key-value pairs
  searched from the front, and its iterator, which filters the slice it was given.

  Slices share their backing arrays: an iterator holds the slice of the index, so it sees the
  updates that Insert and Delete make in place. The state therefore keeps the arrays under
  their addresses, with their full capacity; \<open>extra n\<close> is the spare capacity that the run-time
  gives an array when an append outgrows one with \<open>n\<close> elements.
\<close>

section \<open>The index\<close>

type_synonym data = "key \<times> gobytes"

record data_slice =
  ds_arr :: nat
  ds_len :: nat

record list_index =
  li_mem :: "nat \<Rightarrow> data list"
  li_next :: nat
  li_data :: data_slice

definition NewListIndex :: list_index where
  "NewListIndex = \<lparr>li_mem = (\<lambda>_. []), li_next = 1, li_data = \<lparr>ds_arr = 0, ds_len = 0\<rparr>\<rparr>"

definition view :: "list_index \<Rightarrow> data_slice \<Rightarrow> data list" where
  "view l d = take (ds_len d) (li_mem l (ds_arr d))"

fun find_key :: "key \<Rightarrow> data list \<Rightarrow> nat option" where
  "find_key k [] = None"
| "find_key k (d # ds) = (if fst d = k then Some 0 else map_option Suc (find_key k ds))"

definition store :: "nat \<Rightarrow> data list \<Rightarrow> list_index \<Rightarrow> list_index" where
  "store a xs l = l\<lparr>li_mem := (li_mem l)(a := xs)\<rparr>"

definition append_data :: "(nat \<Rightarrow> nat) \<Rightarrow> data \<Rightarrow> list_index \<Rightarrow> list_index" where
  "append_data extra d l =
     (let a = ds_arr (li_data l); n = ds_len (li_data l); xs = li_mem l a in
      if n < length xs then
        (store a (xs[n := d]) l)\<lparr>li_data := \<lparr>ds_arr = a, ds_len = n + 1\<rparr>\<rparr>
      else
        (store (li_next l) (take n xs @ d # replicate (extra n) (0, None)) l)
          \<lparr>li_next := li_next l + 1, li_data := \<lparr>ds_arr = li_next l, ds_len = n + 1\<rparr>\<rparr>)"

definition ListIndex_Insert :: "(nat \<Rightarrow> nat) \<Rightarrow> key \<Rightarrow> gobytes \<Rightarrow> list_index \<Rightarrow>
    (go_error + unit) \<times> list_index" where
  "ListIndex_Insert extra key value l =
     (let a = ds_arr (li_data l) in
      case find_key key (view l (li_data l)) of
        Some i \<Rightarrow> (Inr (), store a ((li_mem l a)[i := (key, value)]) l)
      | None \<Rightarrow> (Inr (), append_data extra (key, value) l))"

definition ListIndex_Get :: "key \<Rightarrow> list_index \<Rightarrow> go_error + gobytes" where
  "ListIndex_Get key l =
     (let xs = view l (li_data l) in
      case find_key key xs of
        Some i \<Rightarrow> Inr (snd (xs ! i))
      | None \<Rightarrow> Inl KeyNotFound)"

text \<open>\<open>slices.Delete\<close> moves the tail down in place and clears the freed element.\<close>

definition slice_delete :: "nat \<Rightarrow> list_index \<Rightarrow> list_index" where
  "slice_delete i l =
     (let d = li_data l; a = ds_arr d; n = ds_len d; xs = li_mem l a in
      (store a (take i xs @ drop (Suc i) (take n xs) @ (0, None) # drop n xs) l)
        \<lparr>li_data := \<lparr>ds_arr = a, ds_len = n - 1\<rparr>\<rparr>)"

definition ListIndex_Delete :: "key \<Rightarrow> list_index \<Rightarrow> (go_error + unit) \<times> list_index" where
  "ListIndex_Delete key l =
     (case find_key key (view l (li_data l)) of
        Some i \<Rightarrow> (Inr (), slice_delete i l)
      | None \<Rightarrow> (Inl KeyNotFound, l))"

section \<open>The iterator\<close>

record list_iter =
  lt_data :: data_slice
  lt_cur :: int
  lt_start :: key
  lt_end :: key

definition ListIndex_Range :: "key \<Rightarrow> key \<Rightarrow> list_index \<Rightarrow> list_iter" where
  "ListIndex_Range start end_key l =
     \<lparr>lt_data = li_data l, lt_cur = -1, lt_start = start, lt_end = end_key\<rparr>"

function next_match :: "data list \<Rightarrow> key \<Rightarrow> key \<Rightarrow> int \<Rightarrow> int" where
  "next_match xs a b cur =
     (if cur < int (length xs) then
        if sint (fst (xs ! nat cur)) \<ge> sint a \<and> sint (fst (xs ! nat cur)) \<le> sint b then cur
        else next_match xs a b (cur + 1)
      else cur)"
  by pat_completeness auto
termination by (relation "measure (\<lambda>(xs, _, _, cur). nat (int (length xs) - cur))") auto

declare next_match.simps [simp del]

definition ListIterator_Next :: "list_iter \<Rightarrow> list_index \<Rightarrow> bool \<times> list_iter" where
  "ListIterator_Next it l =
     (let xs = view l (lt_data it);
          cur = next_match xs (lt_start it) (lt_end it) (lt_cur it + 1) in
      (cur < int (length xs), it\<lparr>lt_cur := cur\<rparr>))"

definition iter_data :: "list_iter \<Rightarrow> list_index \<Rightarrow> data option" where
  "iter_data it l =
     (let xs = view l (lt_data it) in
      if 0 \<le> lt_cur it \<and> lt_cur it < int (length xs) then Some (xs ! nat (lt_cur it)) else None)"

definition ListIterator_Key :: "list_iter \<Rightarrow> list_index \<Rightarrow> key option" where
  "ListIterator_Key it l = map_option fst (iter_data it l)"

definition ListIterator_Value :: "list_iter \<Rightarrow> list_index \<Rightarrow> gobytes option" where
  "ListIterator_Value it l = map_option snd (iter_data it l)"

definition ListIndex_iterator :: "(list_iter, list_index) Iterator" where
  "ListIndex_iterator = \<lparr>iter_Next = (\<lambda>it l. Some (ListIterator_Next it l, l)),
     iter_Key = ListIterator_Key, iter_Value = ListIterator_Value, iter_Error = (\<lambda>_. None),
     iter_Close = (\<lambda>_ l. Some (Inr (), l))\<rparr>"

definition ListIndex_index :: "(nat \<Rightarrow> nat) \<Rightarrow> (list_iter, list_index) Index" where
  "ListIndex_index extra = \<lparr>ix_Insert = (\<lambda>k v l. Some (ListIndex_Insert extra k v l)),
     ix_Get = (\<lambda>k l. Some (ListIndex_Get k l, l)),
     ix_Delete = (\<lambda>k l. Some (ListIndex_Delete k l)),
     ix_Range = (\<lambda>a b l. Some (Inr (ListIndex_Range a b l), l)),
     ix_Close = (\<lambda>l. Some (Inr (), l)), ix_Iter = ListIndex_iterator\<rparr>"

section \<open>Searching and updating\<close>

lemma find_key_Some:
  "find_key k xs = Some i \<Longrightarrow> i < length xs \<and> fst (xs ! i) = k \<and> map_of xs k = Some (snd (xs ! i))"
  by (induction xs arbitrary: i) (auto split: if_splits)

lemma find_key_None: "find_key k xs = None \<longleftrightarrow> map_of xs k = None"
  by (induction xs) (auto split: if_splits)

lemma map_of_update:
  "find_key k xs = Some i \<Longrightarrow> map_of (xs[i := (k, v)]) = (map_of xs)(k \<mapsto> v)"
  by (induction xs arbitrary: i) (auto split: if_splits simp: fun_eq_iff)

lemma keys_update: "find_key k xs = Some i \<Longrightarrow> map fst (xs[i := (k, v)]) = map fst xs"
  by (induction xs arbitrary: i) (auto split: if_splits)

lemma map_of_remove:
  "distinct (map fst xs) \<Longrightarrow> find_key k xs = Some i \<Longrightarrow>
     map_of (take i xs @ drop (Suc i) xs) = (map_of xs)(k := None)"
proof (induction xs arbitrary: i)
  case (Cons x xs)
  show ?case
  proof (cases "fst x = k")
    case True
    then have "map_of xs k = None" using Cons.prems(1) by (auto simp: map_of_eq_None_iff)
    then show ?thesis using True Cons.prems(2) by (cases x) (auto simp: fun_eq_iff)
  next
    case False
    then obtain j where j: "find_key k xs = Some j" "i = Suc j" using Cons.prems(2) by auto
    then show ?thesis using Cons.IH[of j] Cons.prems(1) False by (cases x) (auto simp: fun_eq_iff)
  qed
qed simp

definition list_inv :: "list_index \<Rightarrow> bool" where
  "list_inv l \<longleftrightarrow> ds_len (li_data l) \<le> length (li_mem l (ds_arr (li_data l))) \<and>
     distinct (map fst (view l (li_data l)))"

lemma NewListIndex_view [simp]: "list_inv NewListIndex" "view NewListIndex (li_data NewListIndex) = []"
  by (simp_all add: list_inv_def NewListIndex_def view_def)

lemma append_view:
  assumes "ds_len (li_data l) \<le> length (li_mem l (ds_arr (li_data l)))" "l' = append_data extra d l"
  shows "view l' (li_data l') = view l (li_data l) @ [d]"
    "ds_len (li_data l') \<le> length (li_mem l' (ds_arr (li_data l')))"
  using assms by (auto simp: append_data_def view_def store_def Let_def take_Suc_conv_app_nth)

lemma Insert_view:
  assumes inv: "list_inv l"
  obtains l' where "ListIndex_Insert extra k v l = (Inr (), l')" "list_inv l'"
    "map_of (view l' (li_data l')) = (map_of (view l (li_data l)))(k \<mapsto> v)"
proof (cases "find_key k (view l (li_data l))")
  case None
  let ?l = "append_data extra (k, v) l"
  have V: "view ?l (li_data ?l) = view l (li_data l) @ [(k, v)]"
    "ds_len (li_data ?l) \<le> length (li_mem ?l (ds_arr (li_data ?l)))"
    using append_view[OF _ refl, of l extra "(k, v)"] inv by (simp_all add: list_inv_def)
  have new: "map_of (view l (li_data l)) k = None" using None by (simp add: find_key_None)
  have "list_inv ?l"
    using V inv new by (auto simp: list_inv_def map_of_eq_None_iff)
  moreover have "map_of (view ?l (li_data ?l)) = (map_of (view l (li_data l)))(k \<mapsto> v)"
    unfolding V(1) using new by (auto simp: fun_eq_iff map_add_def split: option.splits)
  ultimately show thesis using that None by (simp add: ListIndex_Insert_def)
next
  case (Some i)
  let ?a = "ds_arr (li_data l)"
  let ?l = "store ?a ((li_mem l ?a)[i := (k, v)]) l"
  have i: "i < ds_len (li_data l)" using find_key_Some[OF Some] inv by (simp add: view_def list_inv_def)
  have v: "view ?l (li_data ?l) = (view l (li_data l))[i := (k, v)]"
    using i by (simp add: view_def store_def take_update_swap)
  have "list_inv ?l"
    using inv v keys_update[OF Some] by (simp add: list_inv_def store_def)
  then show thesis
    using that[of ?l] Some v map_of_update[OF Some] by (simp add: ListIndex_Insert_def Let_def)
qed

lemma Get_view:
  "ListIndex_Get k l = (case map_of (view l (li_data l)) k of None \<Rightarrow> Inl KeyNotFound | Some w \<Rightarrow> Inr w)"
  using find_key_Some[of k "view l (li_data l)"] find_key_None[of k "view l (li_data l)"]
  by (auto simp: ListIndex_Get_def Let_def split: option.splits)

lemma Delete_view:
  assumes inv: "list_inv l" and k: "find_key k (view l (li_data l)) = Some i"
  shows "list_inv (slice_delete i l)"
    "view (slice_delete i l) (li_data (slice_delete i l)) =
       take i (view l (li_data l)) @ drop (Suc i) (view l (li_data l))"
proof -
  let ?n = "ds_len (li_data l)" and ?xs = "li_mem l (ds_arr (li_data l))"
  have i: "i < ?n" "?n \<le> length ?xs" using find_key_Some[OF k] inv by (simp_all add: view_def list_inv_def)
  show v: "view (slice_delete i l) (li_data (slice_delete i l)) =
       take i (view l (li_data l)) @ drop (Suc i) (view l (li_data l))"
  proof -
    have "?n - 1 = i + (?n - Suc i)" using i by simp
    then have "take (?n - 1) (take i ?xs @ drop (Suc i) (take ?n ?xs) @ (0, None) # drop ?n ?xs) =
        take i ?xs @ drop (Suc i) (take ?n ?xs)"
      using i by (simp add: min_absorb2)
    then show ?thesis using i by (simp add: view_def slice_delete_def store_def Let_def min_absorb1)
  qed
  have "distinct (map fst (take i (view l (li_data l)) @ drop (Suc i) (view l (li_data l))))"
  proof -
    have "i < length (view l (li_data l))" using i by (simp add: view_def)
    then have e: "view l (li_data l) = take i (view l (li_data l)) @ view l (li_data l) ! i #
        drop (Suc i) (view l (li_data l))" by (rule list_split_nth)
    have "distinct (map fst (take i (view l (li_data l)) @ view l (li_data l) ! i #
        drop (Suc i) (view l (li_data l))))"
      using inv e by (simp add: list_inv_def)
    then show ?thesis by auto
  qed
  then show "list_inv (slice_delete i l)"
    unfolding list_inv_def v using i by (simp add: slice_delete_def store_def Let_def)
qed

section \<open>The iterator yields the matching elements in slice order\<close>

definition in_range :: "key \<Rightarrow> key \<Rightarrow> data \<Rightarrow> bool" where
  "in_range a b d \<longleftrightarrow> sint a \<le> sint (fst d) \<and> sint (fst d) \<le> sint b"

lemma next_match_spec:
  "0 \<le> cur \<Longrightarrow>
    (case filter (in_range a b) (drop (nat cur) xs) of
       [] \<Rightarrow> \<not> next_match xs a b cur < int (length xs)
     | y # ys \<Rightarrow> 0 \<le> next_match xs a b cur \<and> next_match xs a b cur < int (length xs) \<and>
         xs ! nat (next_match xs a b cur) = y \<and>
         filter (in_range a b) (drop (nat (next_match xs a b cur + 1)) xs) = ys)"
proof (induction xs a b cur rule: next_match.induct)
  case (1 xs a b cur)
  show ?case
  proof (cases "cur < int (length xs)")
    case True
    then have n: "nat cur < length xs" using 1(2) by linarith
    then have d: "drop (nat cur) xs = xs ! nat cur # drop (Suc (nat cur)) xs"
      by (simp add: Cons_nth_drop_Suc)
    have s: "nat (cur + 1) = Suc (nat cur)" using 1(2) by simp
    show ?thesis
    proof (cases "in_range a b (xs ! nat cur)")
      case r: True
      have "next_match xs a b cur = cur"
        using True r by (subst next_match.simps) (simp add: in_range_def)
      then show ?thesis using r d s 1(2) True by simp
    next
      case r: False
      have e: "next_match xs a b cur = next_match xs a b (cur + 1)"
        using True r by (subst next_match.simps) (auto simp: in_range_def)
      have "\<not> (sint a \<le> sint (fst (xs ! nat cur)) \<and> sint (fst (xs ! nat cur)) \<le> sint b)"
        using r by (simp add: in_range_def)
      then have "case filter (in_range a b) (drop (nat (cur + 1)) xs) of
          [] \<Rightarrow> \<not> next_match xs a b (cur + 1) < int (length xs)
        | y # ys \<Rightarrow> 0 \<le> next_match xs a b (cur + 1) \<and> next_match xs a b (cur + 1) < int (length xs) \<and>
            xs ! nat (next_match xs a b (cur + 1)) = y \<and>
            filter (in_range a b) (drop (nat (next_match xs a b (cur + 1) + 1)) xs) = ys"
        using 1(1)[OF True] 1(2) by simp
      then show ?thesis unfolding e using d r s by simp
    qed
  next
    case False
    then show ?thesis by (subst next_match.simps) simp
  qed
qed

definition list_pending :: "list_iter \<Rightarrow> list_index \<Rightarrow> data list \<Rightarrow> bool" where
  "list_pending it l rem \<longleftrightarrow> -1 \<le> lt_cur it \<and>
     rem = filter (in_range (lt_start it) (lt_end it)) (drop (nat (lt_cur it + 1)) (view l (lt_data it)))"

lemma list_next:
  assumes "list_pending it l rem"
  shows "\<exists>cont it'. ListIterator_Next it l = (cont, it') \<and>
    (case rem of [] \<Rightarrow> \<not> cont \<and> list_pending it' l []
     | x # xs \<Rightarrow> cont \<and> iter_data it' l = Some x \<and> list_pending it' l xs)"
proof -
  have cur: "0 \<le> lt_cur it + 1"
    and rem: "rem = filter (in_range (lt_start it) (lt_end it)) (drop (nat (lt_cur it + 1)) (view l (lt_data it)))"
    using assms by (simp_all add: list_pending_def)
  show ?thesis
    using next_match_spec[OF cur, where xs = "view l (lt_data it)" and a = "lt_start it" and b = "lt_end it"]
    unfolding rem[symmetric]
    by (cases rem) (auto simp: ListIterator_Next_def Let_def iter_data_def list_pending_def)
qed

interpretation lic: range_cursor ListIndex_iterator list_pending "(=)"
proof (unfold_locales, goal_cases)
  case (1 it s)
  then show ?case using list_next[OF 1] by (auto simp: ListIndex_iterator_def)
next
  case (2 it s x xs)
  then obtain it' where "ListIterator_Next it s = (True, it')" "iter_data it' s = Some x"
    "list_pending it' s xs"
    using list_next[OF 2] by auto
  then show ?case
    by (cases x) (simp add: ListIndex_iterator_def ListIterator_Key_def ListIterator_Value_def)
qed simp

section \<open>The contract\<close>

definition list_holds :: "list_index \<Rightarrow> data list \<Rightarrow> bool" where
  "list_holds l es \<longleftrightarrow> list_inv l \<and> sorted_entries es \<and> map_of (view l (li_data l)) = map_of es"

lemma list_holds_range:
  assumes "list_holds l es"
  shows "mset (filter (in_range a b) (view l (li_data l))) = mset (range_entries a b es)"
proof -
  have d: "distinct (map fst (view l (li_data l)))" "distinct (map fst es)"
    using assms sorted_entries_distinct by (auto simp: list_holds_def list_inv_def)
  moreover have "map_of (view l (li_data l)) = map_of es" using assms by (simp add: list_holds_def)
  ultimately have "set (view l (li_data l)) = set es" by (simp add: map_of_inject_set)
  then have "mset (view l (li_data l)) = mset es"
    using d by (metis distinct_map set_eq_iff_mset_eq_distinct)
  then have "mset (filter (in_range a b) (view l (li_data l))) = mset (filter (in_range a b) es)"
    by (simp add: mset_filter)
  then show ?thesis by (simp add: range_entries_def in_range_def)
qed

interpretation lii: index_contract "ListIndex_index extra" list_pending "(=)" list_holds
    "\<lambda>_. True" "\<lambda>_ _. True" "\<lambda>_. True" "\<lambda>v. v" "Inl KeyNotFound" limit for extra limit
proof (unfold_locales, goal_cases)
  case (1 it s)
  then show ?case using lic.next_end by (simp add: ListIndex_index_def)
next
  case (2 it s x xs)
  then show ?case using lic.next_entry by (simp add: ListIndex_index_def)
next
  case (6 s es k v)
  obtain l' where "ListIndex_Insert extra k v s = (Inr (), l')" "list_inv l'"
    "map_of (view l' (li_data l')) = (map_of (view s (li_data s)))(k \<mapsto> v)"
    using Insert_view[of s extra k v] 6(1) by (auto simp: list_holds_def)
  then show ?case using 6(1) ins_entry_spec[of es k v]
    by (simp add: ListIndex_index_def list_holds_def)
next
  case (8 s es a b)
  have "list_pending (ListIndex_Range a b s) s (filter (in_range a b) (view s (li_data s)))"
    by (simp add: list_pending_def ListIndex_Range_def)
  then show ?case using 8(1) list_holds_range[OF 8(1), of a b]
    by (auto simp: ListIndex_index_def)
qed (auto simp: list_holds_def ListIndex_index_def Get_view)

section \<open>Properties\<close>

lemma list_run:
  "\<exists>rs l. run_ops (ListIndex_index extra) ops NewListIndex = Some (rs, l) \<and>
     list_all2 out_alike rs (spec_run (\<lambda>v. v) (Inl KeyNotFound) ops []) \<and>
     list_holds l (spec_final (\<lambda>v. v) ops [])"
proof -
  have a: "\<forall>op \<in> set ops. op_allowed (\<lambda>_. True) (\<lambda>_ _. True) (\<lambda>_. True) op"
  proof
    fix op show "op_allowed (\<lambda>_. True) (\<lambda>_ _. True) (\<lambda>_. True) op" by (cases op) simp_all
  qed
  have h: "list_holds NewListIndex []" by (simp add: list_holds_def)
  show ?thesis using lii.run_ops_spec[OF h a, of "inserts ops" extra] by simp
qed

text \<open>
  C30. The list index is an unordered map: any sequence of inserts, lookups and range scans on a
  new index returns what a sorted list of entries returns, except that a scan may list its
  entries in another order and that a lookup of a missing key is the error KeyNotFound, not the
  nil value that the interface promises. It holds for every growth policy of the run-time.
\<close>

theorem list_index_refines:
  "\<exists>rs l. run_ops (ListIndex_index extra) ops NewListIndex = Some (rs, l) \<and>
     list_all2 out_alike rs (spec_run (\<lambda>v. v) (Inl KeyNotFound) ops [])"
  using list_run by blast

text \<open>
  C31. Delete of the list index removes exactly its key: it succeeds if and only if the key was
  there; afterwards a lookup of the key is the error KeyNotFound and every other key still has
  its value.
\<close>

theorem list_index_delete:
  assumes "run_ops (ListIndex_index extra) ops NewListIndex = Some (rs, l)"
    and "ListIndex_Delete k l = (r, l')"
  shows "r = (if map_of (spec_final (\<lambda>v. v) ops []) k = None then Inl KeyNotFound else Inr ()) \<and>
    ListIndex_Get j l' = (if j = k then Inl KeyNotFound else ListIndex_Get j l)"
proof -
  have h: "list_holds l (spec_final (\<lambda>v. v) ops [])" using list_run[of extra ops] assms(1) by auto
  then have inv: "list_inv l" and m: "map_of (view l (li_data l)) = map_of (spec_final (\<lambda>v. v) ops [])"
    by (simp_all add: list_holds_def)
  show ?thesis
  proof (cases "find_key k (view l (li_data l))")
    case None
    then have "map_of (view l (li_data l)) k = None" by (simp add: find_key_None)
    then show ?thesis using assms(2) None m by (auto simp: ListIndex_Delete_def Get_view)
  next
    case (Some i)
    have d: "distinct (map fst (view l (li_data l)))" using inv by (simp add: list_inv_def)
    have "l' = slice_delete i l" "r = Inr ()" using assms(2) Some by (simp_all add: ListIndex_Delete_def)
    moreover have "map_of (view (slice_delete i l) (li_data (slice_delete i l))) =
        (map_of (view l (li_data l)))(k := None)"
      unfolding Delete_view(2)[OF inv Some] by (rule map_of_remove[OF d Some])
    ultimately show ?thesis using find_key_Some[OF Some] m by (auto simp: Get_view)
  qed
qed

theorem list_index_delete_witness:
  "\<exists>rs l r l'. run_ops (ListIndex_index (\<lambda>n. n)) [OInsert 1 None, OInsert 2 (Some [7])] NewListIndex = Some (rs, l) \<and>
     ListIndex_Delete 1 l = (r, l') \<and> r = Inr () \<and> ListIndex_Get 1 l' = Inl KeyNotFound"
proof -
  obtain rs l where R: "run_ops (ListIndex_index (\<lambda>n. n)) [OInsert 1 None, OInsert 2 (Some [7])] NewListIndex =
      Some (rs, l)"
    using list_run by blast
  obtain r l' where D: "ListIndex_Delete 1 l = (r, l')" by (cases "ListIndex_Delete 1 l")
  show ?thesis using list_index_delete[OF R D, of 1] R D by (simp add: spec_final_def)
qed

section \<open>Deleting under an iterator\<close>

text \<open>What a slice of the old length sees after a Delete: the tail moved down and a cleared element.\<close>

lemma stale_view:
  assumes inv: "list_inv l" and k: "find_key k (view l (li_data l)) = Some i"
  shows "view (slice_delete i l) (li_data l) =
    take i (view l (li_data l)) @ drop (Suc i) (view l (li_data l)) @ [(0, None)]"
proof -
  let ?n = "ds_len (li_data l)" and ?xs = "li_mem l (ds_arr (li_data l))"
  have i: "i < ?n" "?n \<le> length ?xs" using find_key_Some[OF k] inv by (simp_all add: view_def list_inv_def)
  have "?n = i + (?n - Suc i) + 1" using i by simp
  then have "take ?n (take i ?xs @ drop (Suc i) (take ?n ?xs) @ (0, None) # drop ?n ?xs) =
      take i ?xs @ drop (Suc i) (take ?n ?xs) @ [(0, None)]"
    using i by (simp add: min_absorb2)
  then show ?thesis using i by (simp add: view_def slice_delete_def store_def Let_def min_absorb1)
qed

text \<open>The iterator after \<open>n\<close> calls of Next.\<close>

definition advanced :: "nat \<Rightarrow> list_index \<Rightarrow> list_iter \<Rightarrow> list_iter" where
  "advanced n l it = ((\<lambda>it. snd (ListIterator_Next it l)) ^^ n) it"

lemma next_match_ge: "cur \<le> next_match xs a b cur"
proof (induction xs a b cur rule: next_match.induct)
  case (1 xs a b cur)
  show ?case
  proof (cases "cur < int (length xs) \<and> \<not> in_range a b (xs ! nat cur)")
    case True
    then have "cur + 1 \<le> next_match xs a b (cur + 1)" using 1 by (simp add: in_range_def)
    then show ?thesis using True by (subst next_match.simps) (auto simp: in_range_def)
  qed (subst next_match.simps, auto simp: in_range_def)
qed

lemma advanced_range:
  "lt_data (advanced n l (ListIndex_Range a b l)) = li_data l \<and>
   lt_start (advanced n l (ListIndex_Range a b l)) = a \<and> lt_end (advanced n l (ListIndex_Range a b l)) = b \<and>
   -1 \<le> lt_cur (advanced n l (ListIndex_Range a b l))"
proof (induction n)
  case (Suc n)
  let ?it = "advanced n l (ListIndex_Range a b l)"
  have "lt_cur ?it + 1 \<le> next_match (view l (li_data l)) a b (lt_cur ?it + 1)" by (rule next_match_ge)
  moreover have "advanced (Suc n) l (ListIndex_Range a b l) = snd (ListIterator_Next ?it l)"
    by (simp add: advanced_def)
  ultimately show ?case using Suc by (auto simp: ListIterator_Next_def Let_def)
qed (simp add: advanced_def ListIndex_Range_def)

text \<open>
  C32. An iterator of the list index does not survive a Delete: it keeps the old length of the slice,
  whose elements Delete moves in place. Take any list, a range iterator on it after any number of
  calls of Next, of which \<open>c\<close> elements of the slice are behind it and more are ahead, and a key at
  index \<open>i\<close> that is deleted now. If the key is behind the iterator, the element right ahead is
  skipped, whatever it is; otherwise the rest is as it should be. In both cases the scan ends with
  the key 0, if the range has it, though no such key is in the list. A new iterator sees the list as
  it is, without the key.
\<close>

theorem list_iterator_after_delete:
  assumes "run_ops (ListIndex_index extra) ops NewListIndex = Some (rs, l)" "xs = view l (li_data l)"
    "find_key k xs = Some i" "it = advanced n l (ListIndex_Range a b l)" "c = nat (lt_cur it + 1)" "c < length xs"
  shows "\<exists>l' it1 it2. ListIndex_Delete k l = (Inr (), l') \<and>
    scan ListIndex_iterator it l' =
      Some (filter (in_range a b) ((if i < c then drop (Suc c) xs else drop c (take i xs) @ drop (Suc i) xs) @
        [(0, None)]), it1, l') \<and>
    scan ListIndex_iterator (ListIndex_Range a b l') l' =
      Some (filter (in_range a b) (take i xs @ drop (Suc i) xs), it2, l')"
proof -
  let ?l = "slice_delete i l"
  have inv: "list_inv l" using list_run[of extra ops] assms(1) by (auto simp: list_holds_def)
  note k = assms(3)[unfolded assms(2)]
  have i: "i < length xs" using find_key_Some[OF assms(3)] by simp
  note A = advanced_range[of n l a b, folded assms(4)]
  have "drop c (take i xs @ drop (Suc i) xs @ [(0, None)]) =
      (if i < c then drop (Suc c) xs else drop c (take i xs) @ drop (Suc i) xs) @ [(0, None)]"
    using i assms(6) by (auto simp: min_absorb2)
  then have "list_pending it ?l (filter (in_range a b)
      ((if i < c then drop (Suc c) xs else drop c (take i xs) @ drop (Suc i) xs) @ [(0, None)]))"
    unfolding list_pending_def assms(5)[symmetric] using A stale_view[OF inv k] assms(2) by simp
  from lic.scan_pending[OF this] obtain it1 where 1: "scan ListIndex_iterator it ?l =
      Some (filter (in_range a b) ((if i < c then drop (Suc c) xs else drop c (take i xs) @ drop (Suc i) xs) @
        [(0, None)]), it1, ?l)" by blast
  have "list_pending (ListIndex_Range a b ?l) ?l (filter (in_range a b) (take i xs @ drop (Suc i) xs))"
    using Delete_view(2)[OF inv k] assms(2) by (simp add: list_pending_def ListIndex_Range_def)
  from lic.scan_pending[OF this] obtain it2 where "scan ListIndex_iterator (ListIndex_Range a b ?l) ?l =
      Some (filter (in_range a b) (take i xs @ drop (Suc i) xs), it2, ?l)" by blast
  then show ?thesis using 1 k by (auto simp: ListIndex_Delete_def)
qed

text \<open>With the keys 1, 2 and 3 and the iterator on 1 when 1 is deleted, the scan misses 2 and yields 0.\<close>

theorem list_iterator_after_delete_witness:
  "\<exists>rs l l' it1 it2. run_ops (ListIndex_index (\<lambda>n. n))
      [OInsert 1 (Some []), OInsert 2 (Some []), OInsert 3 (Some [])] NewListIndex = Some (rs, l) \<and>
    ListIndex_Delete 1 l = (Inr (), l') \<and>
    scan ListIndex_iterator (advanced 1 l (ListIndex_Range 0 9 l)) l' =
      Some ([(3, Some []), (0, None)], it1, l') \<and>
    scan ListIndex_iterator (ListIndex_Range 0 9 l') l' = Some ([(2, Some []), (3, Some [])], it2, l')"
proof -
  let ?ops = "[OInsert 1 (Some []), OInsert 2 (Some []), OInsert 3 (Some [])]"
  obtain rs l where R: "run_ops (ListIndex_index (\<lambda>n. n)) ?ops NewListIndex = Some (rs, l)"
    using list_run by blast
  have v: "view l (li_data l) = [(1, Some []), (2, Some []), (3, Some [])]"
    using R by (auto simp: ListIndex_index_def ListIndex_Insert_def NewListIndex_def view_def append_data_def
        store_def Let_def)
  have c: "lt_cur (advanced (Suc 0) l (ListIndex_Range 0 9 l)) = 0"
    by (simp add: advanced_def ListIterator_Next_def ListIndex_Range_def v next_match.simps)
  show ?thesis
    using list_iterator_after_delete[OF R refl, of 1 0 _ 1 0 9] R by (simp add: v c in_range_def numeral_2_eq_2)
qed

end
