(* ===== verification/Lsm.thy ===== *)
theory Lsm
  imports Index Format
begin

text \<open>
  The LSM index (src/dbms/index/lsm/lsm.go): a wrapper that keeps entries in a Pebble database
  under big-endian encoded keys. Pebble itself is a third-party package: its calls are the
  fields of a parameter, and the locale \<open>pebble_store\<close> states the documented behaviour that
  the wrapper relies on: a map from byte strings to byte strings, and iterators that visit the
  keys of a half-open interval in the order of \<open>bytes.Compare\<close>, on the content at the time of
  their creation.
\<close>

section \<open>Big-endian keys\<close>

definition encodeKey :: "key \<Rightarrow> byte list" where
  "encodeKey k = be_put 8 (key_bits k)"

definition encodeKeyExclusive :: "key \<Rightarrow> byte list" where
  "encodeKeyExclusive k = encodeKey (k + 1)"

definition decodeKey :: "byte list \<Rightarrow> key" where
  "decodeKey b = bits_key (be_get b)"

text \<open>The order of \<open>bytes.Compare\<close>.\<close>

fun bytes_less :: "byte list \<Rightarrow> byte list \<Rightarrow> bool" where
  "bytes_less [] [] = False"
| "bytes_less [] (b # bs) = True"
| "bytes_less (a # as) [] = False"
| "bytes_less (a # as) (b # bs) = (a < b \<or> a = b \<and> bytes_less as bs)"

section \<open>The Pebble package\<close>

datatype get_result = PebbleNotFound | PebbleError go_error | PebbleValue "byte list"

record ('db, 'it) pebble =
  pb_Open :: "string \<Rightarrow> nat \<Rightarrow> go_error + 'db"
  pb_Set :: "byte list \<Rightarrow> gobytes \<Rightarrow> 'db \<Rightarrow> (go_error + unit) \<times> 'db"
  pb_Get :: "byte list \<Rightarrow> 'db \<Rightarrow> get_result"
  pb_Delete :: "byte list \<Rightarrow> 'db \<Rightarrow> (go_error + unit) \<times> 'db"
  pb_Close :: "'db \<Rightarrow> (go_error + unit) \<times> 'db"
  pb_NumFiles :: "'db \<Rightarrow> nat list"
  pb_NewIter :: "byte list \<Rightarrow> byte list \<Rightarrow> 'db \<Rightarrow> go_error + 'it"
  pb_First :: "'it \<Rightarrow> 'it"
  pb_Valid :: "'it \<Rightarrow> bool"
  pb_Next :: "'it \<Rightarrow> bool \<times> 'it"
  pb_Key :: "'it \<Rightarrow> byte list"
  pb_Value :: "'it \<Rightarrow> byte list"
  pb_IterClose :: "'it \<Rightarrow> go_error + unit"

section \<open>The wrapper\<close>

definition LSM_Open :: "('db, 'it) pebble \<Rightarrow> string \<Rightarrow> 64 word \<Rightarrow> go_error + 'db" where
  "LSM_Open P dir memSize =
     (let targetSize = memSize * 1024 * 1024 in
      case pb_Open P dir (unat targetSize) of
        Inl e \<Rightarrow> Inl (Wrapped ''lsm: open'' e)
      | Inr db \<Rightarrow> Inr db)"

definition LSM_Close :: "('db, 'it) pebble \<Rightarrow> 'db \<Rightarrow> (go_error + unit) \<times> 'db" where
  "LSM_Close P db = pb_Close P db"

definition LSM_Insert :: "('db, 'it) pebble \<Rightarrow> key \<Rightarrow> gobytes \<Rightarrow> 'db \<Rightarrow> (go_error + unit) \<times> 'db" where
  "LSM_Insert P key value db = pb_Set P (encodeKey key) value db"

definition LSM_Get :: "('db, 'it) pebble \<Rightarrow> key \<Rightarrow> 'db \<Rightarrow> go_error + gobytes" where
  "LSM_Get P key db =
     (case pb_Get P (encodeKey key) db of
        PebbleNotFound \<Rightarrow> Inr None
      | PebbleError e \<Rightarrow> Inl (Wrapped ''lsm: get'' e)
      | PebbleValue val \<Rightarrow> Inr (Some val))"

definition LSM_Delete :: "('db, 'it) pebble \<Rightarrow> key \<Rightarrow> 'db \<Rightarrow> (go_error + unit) \<times> 'db" where
  "LSM_Delete P key db =
     (case pb_Delete P (encodeKey key) db of
        (Inl e, db') \<Rightarrow> (Inl (Wrapped ''lsm: delete'' e), db')
      | (Inr _, db') \<Rightarrow> (Inr (), db'))"

record 'it lsm_iter =
  ri_iter :: 'it
  ri_first :: bool
  ri_key :: key
  ri_val :: gobytes
  ri_err :: "go_error option"

definition LSM_Range :: "('db, 'it) pebble \<Rightarrow> key \<Rightarrow> key \<Rightarrow> 'db \<Rightarrow> go_error + 'it lsm_iter" where
  "LSM_Range P start end_key db =
     (case pb_NewIter P (encodeKey start) (encodeKeyExclusive end_key) db of
        Inl e \<Rightarrow> Inl (Wrapped ''lsm: range'' e)
      | Inr iter \<Rightarrow> Inr \<lparr>ri_iter = pb_First P iter, ri_first = True, ri_key = 0, ri_val = None,
                        ri_err = None\<rparr>)"

definition LSM_Next :: "('db, 'it) pebble \<Rightarrow> 'it lsm_iter \<Rightarrow> bool \<times> 'it lsm_iter" where
  "LSM_Next P it =
     (let (valid, it1) =
        (if ri_first it then (pb_Valid P (ri_iter it), it\<lparr>ri_first := False\<rparr>)
         else (case pb_Next P (ri_iter it) of (b, i) \<Rightarrow> (b, it\<lparr>ri_iter := i\<rparr>))) in
      if \<not> valid then (False, it1)
      else
        let k = pb_Key P (ri_iter it1) in
        if length k \<noteq> 8 then (False, it1\<lparr>ri_err := Some (BadKeyLength (length k))\<rparr>)
        else (True, it1\<lparr>ri_key := decodeKey k, ri_val := Some (pb_Value P (ri_iter it1))\<rparr>))"

definition LSM_Key :: "'it lsm_iter \<Rightarrow> key" where "LSM_Key it = ri_key it"
definition LSM_Value :: "'it lsm_iter \<Rightarrow> gobytes" where "LSM_Value it = ri_val it"
definition LSM_Error :: "'it lsm_iter \<Rightarrow> go_error option" where "LSM_Error it = ri_err it"

definition LSM_IterClose :: "('db, 'it) pebble \<Rightarrow> 'it lsm_iter \<Rightarrow> go_error + unit" where
  "LSM_IterClose P it = pb_IterClose P (ri_iter it)"

text \<open>Levels prints the levels that hold files, one after the other.\<close>

definition LSM_Levels :: "('db, 'it) pebble \<Rightarrow> 'db \<Rightarrow> string" where
  "LSM_Levels P db =
     concat (map (\<lambda>(i, n). if n > 0 then ''L'' @ show_nat i @ '': '' @ show_nat n @ '' files'' else [])
       (enumerate 0 (pb_NumFiles P db)))"

definition LSM_iterator :: "('db, 'it) pebble \<Rightarrow> ('it lsm_iter, 'db) Iterator" where
  "LSM_iterator P = \<lparr>iter_Next = (\<lambda>it db. Some (LSM_Next P it, db)),
     iter_Key = (\<lambda>it _. Some (LSM_Key it)), iter_Value = (\<lambda>it _. Some (LSM_Value it)),
     iter_Error = LSM_Error, iter_Close = (\<lambda>it db. Some (LSM_IterClose P it, db))\<rparr>"

definition LSM_index :: "('db, 'it) pebble \<Rightarrow> ('it lsm_iter, 'db) Index" where
  "LSM_index P = \<lparr>ix_Insert = (\<lambda>k v db. Some (LSM_Insert P k v db)),
     ix_Get = (\<lambda>k db. Some (LSM_Get P k db, db)),
     ix_Delete = (\<lambda>k db. Some (LSM_Delete P k db)),
     ix_Range = (\<lambda>a b db. Some (LSM_Range P a b db, db)),
     ix_Close = (\<lambda>db. Some (LSM_Close P db)), ix_Iter = LSM_iterator P\<rparr>"

section \<open>The encoding\<close>

lemma le_put_Suc: "le_put (Suc n) x = le_put n x @ [word_of_nat (x div 256 ^ n)]"
  by (induction n arbitrary: x) (simp_all add: div_mult2_eq)

lemma be_put_simps [simp]:
  "be_put 0 x = []" "be_put (Suc n) x = word_of_nat (x div 256 ^ n) # be_put n x"
  by (simp_all add: be_put_def le_put_Suc del: le_put.simps(2))

lemma be_put_mod: "be_put n (x mod 256 ^ n) = be_put n x"
proof -
  have "be_put n (x mod 256 ^ m) = be_put n x" if "n \<le> m" for m
    using that
  proof (induction n)
    case (Suc n)
    then obtain d where d: "m = Suc n + d" using le_Suc_ex by blast
    have "(x mod 256 ^ m) div 256 ^ n mod 256 = x div 256 ^ n mod (256 :: nat)"
    proof -
      have "(256 :: nat) ^ m = 256 ^ n * (256 * 256 ^ d)" unfolding d by (simp add: power_add)
      then have "(x mod 256 ^ m) div 256 ^ n = x div 256 ^ n mod (256 * 256 ^ d)"
        by (simp add: mod_mult2_eq)
      then show ?thesis by (simp add: mod_mod_cancel)
    qed
    then have "(word_of_nat ((x mod 256 ^ m) div 256 ^ n) :: byte) = word_of_nat (x div 256 ^ n)"
      by (simp add: word_of_nat_eq_iff take_bit_eq_mod)
    then show ?case using Suc by simp
  qed simp
  then show ?thesis by simp
qed

lemma less_div_mod: "x div q < y div q \<or> x div q = y div q \<and> x mod q < y mod q \<longleftrightarrow> x < (y :: nat)"
proof -
  have "x < y" if "x div q < y div q" using that by (metis div_le_mono linorder_not_le)
  moreover have "\<not> x < y" if "y div q < x div q"
    using that by (metis div_le_mono linorder_not_le order.strict_implies_order)
  moreover have "x < y \<longleftrightarrow> x mod q < y mod q" if "x div q = y div q"
    using that by (metis add_less_cancel_left mult_div_mod_eq)
  ultimately show ?thesis by (meson linorder_neqE_nat)
qed

lemma bytes_less_be_put:
  "x < 256 ^ n \<Longrightarrow> y < 256 ^ n \<Longrightarrow> bytes_less (be_put n x) (be_put n y) \<longleftrightarrow> x < y"
proof (induction n arbitrary: x y)
  case (Suc n)
  let ?a = "x div 256 ^ n" and ?b = "y div 256 ^ n"
  have ab: "?a < 256" "?b < 256" using Suc.prems by (simp_all add: less_mult_imp_div_less)
  have w: "(word_of_nat ?a :: byte) < word_of_nat ?b \<longleftrightarrow> ?a < ?b"
    "(word_of_nat ?a :: byte) = word_of_nat ?b \<longleftrightarrow> ?a = ?b"
    using ab by (simp_all add: word_less_nat_alt unat_of_nat word_unat_eq_iff)
  have "bytes_less (be_put n (x mod 256 ^ n)) (be_put n (y mod 256 ^ n)) \<longleftrightarrow> x mod 256 ^ n < y mod 256 ^ n"
    by (rule Suc.IH) simp_all
  then have "bytes_less (be_put (Suc n) x) (be_put (Suc n) y) \<longleftrightarrow>
      ?a < ?b \<or> ?a = ?b \<and> x mod 256 ^ n < y mod 256 ^ n"
    by (simp add: w be_put_mod)
  also have "\<dots> \<longleftrightarrow> x < y" by (rule less_div_mod)
  finally show ?case .
qed simp

lemma sint_succ_nonneg: "0 \<le> sint (b :: key) \<Longrightarrow> 0 \<le> sint (b + 1) \<Longrightarrow> sint (b + 1) = sint b + 1"
proof -
  assume b: "0 \<le> sint b" "0 \<le> sint (b + 1)"
  have e: "sint (b + 1) = signed_take_bit 63 (sint b + 1)"
    using sint_word_add[of b 1] by simp
  have l: "sint b < 2 ^ 63" using sint_lt[of b] by simp
  have "sint b + 1 \<noteq> 2 ^ 63"
  proof
    assume "sint b + 1 = 2 ^ 63"
    then have "sint (b + 1) = signed_take_bit 63 (2 ^ 63 :: int)" using e by simp
    then show False using b(2) by simp
  qed
  then have "sint b + 1 < 2 ^ 63" using l by linarith
  then show ?thesis using e b(1) by (simp add: signed_take_bit_int_eq_self)
qed

lemma decode_encode [simp]: "decodeKey (encodeKey k) = k"
proof -
  have "key_bits k mod 256 ^ 8 = key_bits k" using key_bits_less[of k] by simp
  then show ?thesis by (simp add: decodeKey_def encodeKey_def be_get_put)
qed

lemma length_encodeKey [simp]: "length (encodeKey k) = 8"
  by (simp add: encodeKey_def)

lemma encodeKey_inject [simp]: "encodeKey a = encodeKey b \<longleftrightarrow> a = b"
  by (metis decode_encode)

lemma bytes_less_encode: "bytes_less (encodeKey a) (encodeKey b) \<longleftrightarrow> key_bits a < key_bits b"
  unfolding encodeKey_def by (rule bytes_less_be_put) (use key_bits_less in simp_all)

lemma key_bits_nonneg: "0 \<le> sint k \<Longrightarrow> int (key_bits k) = sint k"
proof -
  assume "0 \<le> sint k"
  moreover have "sint k < 2 ^ 63" using sint_lt[of k] by simp
  ultimately have "uint k = sint k" unfolding uint_sint by (simp add: take_bit_int_eq_self)
  then show ?thesis by (simp add: key_bits_def)
qed

lemma encode_order:
  "0 \<le> sint a \<Longrightarrow> 0 \<le> sint b \<Longrightarrow> bytes_less (encodeKey a) (encodeKey b) \<longleftrightarrow> sint a < sint b"
  unfolding bytes_less_encode using key_bits_nonneg[of a] key_bits_nonneg[of b] by linarith

lemma bytes_less_asym: "bytes_less a b \<Longrightarrow> \<not> bytes_less b a"
  by (induction a b rule: bytes_less.induct) auto

lemma sorted_wrt_unique:
  assumes "\<And>a b. R a b \<Longrightarrow> \<not> R b a"
  shows "sorted_wrt R xs \<Longrightarrow> sorted_wrt R ys \<Longrightarrow> set xs = set ys \<Longrightarrow> xs = ys"
proof (induction xs arbitrary: ys)
  case (Cons x xs)
  then obtain y ys' where ys: "ys = y # ys'" by (cases ys) auto
  have xy: "x = y"
  proof (rule ccontr)
    assume ne: "x \<noteq> y"
    then have "x \<in> set ys'" "y \<in> set xs" using Cons.prems(3) ys by auto
    then have "R y x" "R x y" using Cons.prems(1,2) ys by auto
    then show False using assms by blast
  qed
  have "x \<notin> set xs" "y \<notin> set ys'" using Cons.prems(1,2) ys assms by auto
  then have "set xs = set ys'" using Cons.prems(3) ys xy by auto
  then show ?case using Cons.IH[of ys'] Cons.prems(1,2) ys xy by simp
qed simp

section \<open>What the wrapper relies on\<close>

definition entry_less :: "byte list \<times> byte list \<Rightarrow> byte list \<times> byte list \<Rightarrow> bool" where
  "entry_less x y \<longleftrightarrow> bytes_less (fst x) (fst y)"

text \<open>
  \<open>rest it\<close> are the entries from the position of an iterator on. The benchmark opens every
  database in a directory of its own, which Pebble then creates.
\<close>

locale pebble_store =
  fixes P :: "('db, 'it) pebble"
    and content :: "'db \<Rightarrow> byte list \<Rightarrow> byte list option"
    and rest :: "'it \<Rightarrow> (byte list \<times> byte list) list"
  assumes popen_law: "\<exists>db. pb_Open P dir n = Inr db \<and> content db = Map.empty"
    and set_law: "\<exists>db'. pb_Set P k v db = (Inr (), db') \<and> content db' = (content db)(k \<mapsto> gbytes v)"
    and pget_law: "pb_Get P k db =
        (case content db k of None \<Rightarrow> PebbleNotFound | Some w \<Rightarrow> PebbleValue w)"
    and delete_law: "\<exists>db'. pb_Delete P k db = (Inr (), db') \<and> content db' = (content db)(k := None)"
    and iter_law: "\<exists>it. pb_NewIter P lo hi db = Inr it \<and>
        sorted_wrt entry_less (rest (pb_First P it)) \<and>
        set (rest (pb_First P it)) =
          {(k, v). content db k = Some v \<and> \<not> bytes_less k lo \<and> bytes_less k hi}"
    and valid_law: "pb_Valid P it = (rest it \<noteq> [])"
    and next_law: "rest it = x # xs \<Longrightarrow> \<exists>it'. pb_Next P it = (xs \<noteq> [], it') \<and> rest it' = xs"
    and entry_law: "rest it = x # xs \<Longrightarrow> pb_Key P it = fst x \<and> pb_Value P it = snd x"
begin

definition encode_entry :: "key \<times> gobytes \<Rightarrow> byte list \<times> byte list" where
  "encode_entry e = (encodeKey (fst e), gbytes (snd e))"

definition proper :: "key \<times> gobytes \<Rightarrow> bool" where
  "proper e \<longleftrightarrow> 0 \<le> sint (fst e) \<and> snd e \<noteq> None"

definition lsm_holds :: "'db \<Rightarrow> (key \<times> gobytes) list \<Rightarrow> bool" where
  "lsm_holds db es \<longleftrightarrow> sorted_entries es \<and> (\<forall>e \<in> set es. proper e) \<and>
     content db = map_of (map encode_entry es)"

definition lsm_pending :: "'it lsm_iter \<Rightarrow> 'db \<Rightarrow> (key \<times> gobytes) list \<Rightarrow> bool" where
  "lsm_pending it db rem \<longleftrightarrow> ri_err it = None \<and> sorted_entries rem \<and> (\<forall>e \<in> set rem. proper e) \<and>
     (if ri_first it then rest (ri_iter it) = map encode_entry rem
      else \<exists>x. rest (ri_iter it) = x # map encode_entry rem)"

lemma map_of_encoded: "map_of (map encode_entry es) (encodeKey k) = map_option gbytes (map_of es k)"
  by (induction es) (auto simp: encode_entry_def)

lemma map_of_encoded_other:
  "b \<notin> range encodeKey \<Longrightarrow> map_of (map encode_entry es) b = None"
  by (induction es) (auto simp: encode_entry_def)

lemma lsm_next:
  assumes "lsm_pending it db rem"
  shows "\<exists>it'. LSM_Next P it = (rem \<noteq> [], it') \<and> ri_err it' = None \<and>
    (case rem of [] \<Rightarrow> True
     | x # xs \<Rightarrow> ri_key it' = fst x \<and> ri_val it' = snd x \<and> lsm_pending it' db xs)"
proof -
  have I: "ri_err it = None" "sorted_entries rem" "\<forall>e \<in> set rem. proper e"
    using assms by (simp_all add: lsm_pending_def)
  obtain i it1 where S: "(if ri_first it then (pb_Valid P (ri_iter it), it\<lparr>ri_first := False\<rparr>)
         else (case pb_Next P (ri_iter it) of (b, i) \<Rightarrow> (b, it\<lparr>ri_iter := i\<rparr>))) = (rem \<noteq> [], it1)"
    "ri_iter it1 = i" "rest i = map encode_entry rem" "ri_err it1 = None" "\<not> ri_first it1"
  proof (cases "ri_first it")
    case True
    then show thesis using that[of "it\<lparr>ri_first := False\<rparr>" "ri_iter it"] assms valid_law[of "ri_iter it"]
      by (simp add: lsm_pending_def)
  next
    case False
    then obtain x where x: "rest (ri_iter it) = x # map encode_entry rem"
      using assms by (auto simp: lsm_pending_def)
    obtain i' where "pb_Next P (ri_iter it) = (map encode_entry rem \<noteq> [], i')" "rest i' = map encode_entry rem"
      using next_law[OF x] by blast
    then show thesis using that[of "it\<lparr>ri_iter := i'\<rparr>" i'] False I(1) by simp
  qed
  show ?thesis
  proof (cases rem)
    case Nil
    have "LSM_Next P it = (False, it1)" unfolding LSM_Next_def S(1) using Nil by (simp add: Let_def)
    then show ?thesis using S(4) Nil by simp
  next
    case (Cons x xs)
    have e: "pb_Key P i = encodeKey (fst x)" "pb_Value P i = gbytes (snd x)"
      using entry_law[of i "encode_entry x" "map encode_entry xs"] S(3) Cons by (simp_all add: encode_entry_def)
    let ?it = "it1\<lparr>ri_key := fst x, ri_val := Some (gbytes (snd x))\<rparr>"
    have "LSM_Next P it = (True, ?it)"
      unfolding LSM_Next_def S(1) using e S(2) Cons by (simp add: Let_def)
    moreover have "Some (gbytes (snd x)) = snd x" using I(3) Cons by (auto simp: proper_def)
    moreover have "lsm_pending ?it db xs"
      using S(2-5) I(2,3) Cons by (simp add: lsm_pending_def)
    ultimately show ?thesis using S(4) Cons by simp
  qed
qed

lemma lsm_get:
  assumes "lsm_holds db es"
  shows "LSM_Get P k db = (case map_of es k of None \<Rightarrow> Inr None | Some w \<Rightarrow> Inr w)"
proof -
  have c: "content db (encodeKey k) = map_option gbytes (map_of es k)"
    using assms map_of_encoded by (simp add: lsm_holds_def)
  show ?thesis
  proof (cases "map_of es k")
    case None
    then show ?thesis using c by (simp add: LSM_Get_def pget_law)
  next
    case (Some w)
    then have "proper (k, w)" using assms map_of_SomeD by (fastforce simp: lsm_holds_def)
    then have "Some (gbytes w) = w" by (auto simp: proper_def)
    then obtain bs where "w = Some bs" by (metis option.distinct(1) option.exhaust)
    then show ?thesis using c Some by (simp add: LSM_Get_def pget_law)
  qed
qed

lemma lsm_insert:
  assumes h: "lsm_holds db es" and k: "0 \<le> sint k"
  shows "\<exists>db'. LSM_Insert P k v db = (Inr (), db') \<and> lsm_holds db' (ins_entry k (Some (gbytes v)) es)"
proof -
  let ?es = "ins_entry k (Some (gbytes v)) es"
  obtain db' where S: "pb_Set P (encodeKey k) v db = (Inr (), db')"
    "content db' = (content db)(encodeKey k \<mapsto> gbytes v)"
    using set_law by blast
  have I: "sorted_entries ?es" "map_of ?es = (map_of es)(k \<mapsto> Some (gbytes v))"
    using ins_entry_spec[of es k "Some (gbytes v)"] h by (simp_all add: lsm_holds_def)
  have "\<forall>e \<in> set ?es. proper e"
    using set_ins_entry[of k "Some (gbytes v)" es] h k by (auto simp: lsm_holds_def proper_def)
  moreover have "content db' b = map_of (map encode_entry ?es) b" for b
  proof (cases "b \<in> range encodeKey")
    case True
    then obtain j where j: "b = encodeKey j" by blast
    have "content db b = map_option gbytes (map_of es j)"
      using h j map_of_encoded by (simp add: lsm_holds_def)
    then show ?thesis using S(2) I(2) j map_of_encoded[of ?es j] by simp
  next
    case False
    then show ?thesis
      using S(2) h map_of_encoded_other[OF False] by (auto simp: lsm_holds_def)
  qed
  ultimately show ?thesis using S(1) I(1) by (auto simp: LSM_Insert_def lsm_holds_def)
qed

lemma sorted_encoded:
  "sorted_entries es \<Longrightarrow> \<forall>e \<in> set es. proper e \<Longrightarrow> sorted_wrt entry_less (map encode_entry es)"
  by (induction es) (auto simp: entry_less_def encode_entry_def encode_order proper_def)

lemma lsm_range:
  assumes h: "lsm_holds db es" and ab: "0 \<le> sint a" "0 \<le> sint b" "0 \<le> sint (b + 1)"
  shows "\<exists>it. LSM_Range P a b db = Inr it \<and> lsm_pending it db (range_entries a b es)"
proof -
  obtain it where I: "pb_NewIter P (encodeKey a) (encodeKeyExclusive b) db = Inr it"
    "sorted_wrt entry_less (rest (pb_First P it))"
    "set (rest (pb_First P it)) = {(k, v). content db k = Some v \<and> \<not> bytes_less k (encodeKey a) \<and>
       bytes_less k (encodeKeyExclusive b)}"
    using iter_law by blast
  let ?r = "range_entries a b es"
  have R: "sorted_entries ?r" "\<forall>e \<in> set ?r. proper e"
    using h range_entries_sorted by (auto simp: lsm_holds_def range_entries_def)
  have b1: "sint (b + 1) = sint b + 1" using ab by (simp add: sint_succ_nonneg)
  have d: "distinct (map fst (map encode_entry es))"
    using sorted_entries_distinct[of es] h
    by (auto simp: lsm_holds_def encode_entry_def distinct_map inj_on_def comp_def)
  have c: "content db k = Some v \<longleftrightarrow> (k, v) \<in> set (map encode_entry es)" for k v
    using h map_of_eq_Some_iff[OF d] by (simp add: lsm_holds_def)
  have ord: "\<not> bytes_less (encodeKey (fst e)) (encodeKey a) \<and>
      bytes_less (encodeKey (fst e)) (encodeKeyExclusive b) \<longleftrightarrow> e \<in> set ?r" if e: "e \<in> set es" for e
  proof -
    have "0 \<le> sint (fst e)" using e h by (simp add: lsm_holds_def proper_def)
    then show ?thesis
      using ab b1 e by (simp add: encodeKeyExclusive_def encode_order not_less range_entries_def)
  qed
  have "set (rest (pb_First P it)) = set (map encode_entry ?r)"
  proof (intro equalityI subsetI)
    fix x assume "x \<in> set (rest (pb_First P it))"
    then obtain k v where x: "x = (k, v)" "content db k = Some v" "\<not> bytes_less k (encodeKey a)"
      "bytes_less k (encodeKeyExclusive b)"
      unfolding I(3) by blast
    obtain e where e: "e \<in> set es" "(k, v) = encode_entry e" using x(2) unfolding c by auto
    then have "e \<in> set ?r" using ord[OF e(1)] x(3,4) by (simp add: encode_entry_def)
    then show "x \<in> set (map encode_entry ?r)" using x(1) e(2) by simp
  next
    fix x assume "x \<in> set (map encode_entry ?r)"
    then obtain e where e: "e \<in> set ?r" "x = encode_entry e" by auto
    then have m: "e \<in> set es" by (simp add: range_entries_def)
    have "content db (fst x) = Some (snd x)" unfolding c using e m by auto
    then show "x \<in> set (rest (pb_First P it))"
      unfolding I(3) using ord[OF m] e by (auto simp: encode_entry_def)
  qed
  then have eq: "rest (pb_First P it) = map encode_entry ?r"
    using sorted_wrt_unique[of entry_less] I(2) sorted_encoded[OF R] bytes_less_asym
    unfolding entry_less_def by metis
  then show ?thesis using I(1) R by (simp add: LSM_Range_def lsm_pending_def)
qed

lemma LSM_index_simps [simp]:
  "ix_Insert (LSM_index P) k v db = Some (LSM_Insert P k v db)"
  "ix_Get (LSM_index P) k db = Some (LSM_Get P k db, db)"
  "ix_Range (LSM_index P) a b db = Some (LSM_Range P a b db, db)"
  "ix_Iter (LSM_index P) = LSM_iterator P"
  by (simp_all add: LSM_index_def)

end

section \<open>The contract\<close>

text \<open>
  Keys must not be negative: their encodings would come after those of the others. The end of
  a range must not be the largest key, whose successor wraps around.
\<close>

definition lsm_key :: "key \<Rightarrow> bool" where
  "lsm_key k \<longleftrightarrow> 0 \<le> sint k"

definition lsm_bounds :: "key \<Rightarrow> key \<Rightarrow> bool" where
  "lsm_bounds a b \<longleftrightarrow> 0 \<le> sint a \<and> 0 \<le> sint b \<and> 0 \<le> sint (b + 1)"

definition lsm_stored :: "gobytes \<Rightarrow> gobytes" where
  "lsm_stored v = Some (gbytes v)"

sublocale pebble_store \<subseteq> lsc: range_cursor "LSM_iterator P" lsm_pending "(=)"
proof (unfold_locales, goal_cases)
  case (1 it s)
  then show ?case using lsm_next[OF 1] by (auto simp: LSM_iterator_def LSM_Error_def)
next
  case (2 it s x xs)
  then show ?case using lsm_next[OF 2] by (auto simp: LSM_iterator_def LSM_Key_def LSM_Value_def)
qed simp

sublocale pebble_store \<subseteq> lsi: ordered_index "LSM_index P" lsm_pending "(=)" lsm_holds lsm_key lsm_bounds
    "\<lambda>_. True" lsm_stored "Inr None" limit for limit
proof (unfold_locales, goal_cases)
  case (1 it s)
  then show ?case using lsc.next_end by simp
next
  case (2 it s x xs)
  then show ?case using lsc.next_entry by simp
next
  case (6 s es k v)
  then show ?case using lsm_insert[of s es k v] by (auto simp: lsm_key_def lsm_stored_def)
next
  case (7 s es k)
  then show ?case using lsm_get by simp
next
  case (8 s es a b)
  then show ?case using lsm_range[of s es a b] by (fastforce simp: lsm_bounds_def)
qed (auto simp: lsm_holds_def lsm_pending_def)

section \<open>A store that behaves as documented\<close>

text \<open>
  An association list with the newest binding first; an iterator is the list of entries from
  its position on. It shows that the laws can hold together.
\<close>

type_synonym mem_db = "(byte list \<times> byte list) list"

fun mem_ins :: "byte list \<times> byte list \<Rightarrow> mem_db \<Rightarrow> mem_db" where
  "mem_ins x [] = [x]"
| "mem_ins x (y # ys) =
     (if bytes_less (fst x) (fst y) then x # y # ys
      else if fst x = fst y then x # ys
      else y # mem_ins x ys)"

definition mem_sort :: "mem_db \<Rightarrow> mem_db" where
  "mem_sort db = foldr mem_ins db []"

definition mem_pebble :: "(mem_db, mem_db) pebble" where
  "mem_pebble = \<lparr>pb_Open = (\<lambda>_ _. Inr []),
     pb_Set = (\<lambda>k v db. (Inr (), (k, gbytes v) # db)),
     pb_Get = (\<lambda>k db. case map_of db k of None \<Rightarrow> PebbleNotFound | Some v \<Rightarrow> PebbleValue v),
     pb_Delete = (\<lambda>k db. (Inr (), filter (\<lambda>e. fst e \<noteq> k) db)),
     pb_Close = (\<lambda>db. (Inr (), db)), pb_NumFiles = (\<lambda>_. []),
     pb_NewIter = (\<lambda>lo hi db.
       Inr (filter (\<lambda>e. \<not> bytes_less (fst e) lo \<and> bytes_less (fst e) hi) (mem_sort db))),
     pb_First = (\<lambda>it. it), pb_Valid = (\<lambda>it. it \<noteq> []),
     pb_Next = (\<lambda>it. (tl it \<noteq> [], tl it)),
     pb_Key = (\<lambda>it. fst (hd it)), pb_Value = (\<lambda>it. snd (hd it)),
     pb_IterClose = (\<lambda>_. Inr ())\<rparr>"

lemma bytes_less_trans: "bytes_less a b \<Longrightarrow> bytes_less b c \<Longrightarrow> bytes_less a c"
proof (induction a b arbitrary: c rule: bytes_less.induct)
  case (4 a as b bs)
  then show ?case by (cases c) auto
next
  case (2 b bs)
  then show ?case by (cases c) auto
qed simp_all

lemma bytes_less_total: "a \<noteq> b \<Longrightarrow> \<not> bytes_less a b \<Longrightarrow> bytes_less b a"
  by (induction a b rule: bytes_less.induct) auto

lemma set_mem_ins: "set (mem_ins x ys) \<subseteq> insert x (set ys)"
  by (induction ys) auto

lemma mem_ins_sorted:
  "sorted_wrt entry_less ys \<Longrightarrow>
     sorted_wrt entry_less (mem_ins x ys) \<and> map_of (mem_ins x ys) = (map_of ys)(fst x \<mapsto> snd x)"
proof (induction ys)
  case (Cons y ys)
  consider "bytes_less (fst x) (fst y)" | "\<not> bytes_less (fst x) (fst y)" "fst x = fst y"
    | "\<not> bytes_less (fst x) (fst y)" "fst x \<noteq> fst y" "bytes_less (fst y) (fst x)"
    using bytes_less_total by blast
  then show ?case
  proof cases
    case 1
    then have "\<forall>z \<in> set ys. bytes_less (fst x) (fst z)"
      using Cons.prems bytes_less_trans by (auto simp: entry_less_def)
    then show ?thesis using 1 Cons.prems by (cases x) (auto simp: entry_less_def)
  next
    case 2
    then show ?thesis using Cons.prems by (cases x; cases y) (auto simp: entry_less_def)
  next
    case 3
    have "\<forall>z \<in> set (mem_ins x ys). bytes_less (fst y) (fst z)"
      using Cons.prems 3(3) set_mem_ins[of x ys] by (auto simp: entry_less_def)
    then show ?thesis using Cons 3 by (cases x; cases y) (auto simp: entry_less_def fun_eq_iff)
  qed
qed simp

lemma mem_sort_spec: "sorted_wrt entry_less (mem_sort db) \<and> map_of (mem_sort db) = map_of db"
proof (induction db)
  case (Cons x db)
  then show ?case using mem_ins_sorted[of "mem_sort db" x] by (cases x) (simp add: mem_sort_def)
qed (simp add: mem_sort_def)

lemma entry_less_distinct: "sorted_wrt entry_less xs \<Longrightarrow> distinct (map fst xs)"
proof (induction xs)
  case (Cons x xs)
  have "\<not> bytes_less (fst x) (fst x)" using bytes_less_asym by blast
  then have "fst x \<notin> fst ` set xs" using Cons.prems by (auto simp: entry_less_def)
  then show ?case using Cons by simp
qed simp

interpretation mem: pebble_store mem_pebble map_of "\<lambda>it. it"
proof (unfold_locales, goal_cases)
  case (4 k db)
  have "map_of (filter (\<lambda>e. fst e \<noteq> k) db) = (map_of db)(k := None)"
    by (induction db) (auto simp: fun_eq_iff)
  then show ?case by (simp add: mem_pebble_def)
next
  case (5 lo hi db)
  have s: "sorted_wrt entry_less (mem_sort db)" "map_of (mem_sort db) = map_of db"
    using mem_sort_spec by auto
  have "(k, v) \<in> set (mem_sort db) \<longleftrightarrow> map_of db k = Some v" for k v
    using map_of_eq_Some_iff[OF entry_less_distinct[OF s(1)]] s(2) by metis
  then show ?case using s(1) by (auto simp: mem_pebble_def sorted_wrt_filter)
qed (auto simp: mem_pebble_def)

section \<open>Properties\<close>

context pebble_store
begin

lemma lsm_run:
  assumes "content db = Map.empty" "\<forall>op \<in> set ops. op_allowed lsm_key lsm_bounds (\<lambda>_. True) op"
  shows "\<exists>db'. run_ops (LSM_index P) ops db = Some (spec_run lsm_stored (Inr None) ops [], db') \<and>
    lsm_holds db' (spec_final lsm_stored ops [])"
proof -
  have h: "lsm_holds db []" using assms(1) by (simp add: lsm_holds_def)
  show ?thesis using lsi.run_ops_exact[OF h assms(2), of "inserts ops"] by simp
qed

end

lemma key_bits_neg: "sint k < 0 \<Longrightarrow> int (key_bits k) = sint k + 2 ^ 64"
proof -
  assume "sint k < 0"
  moreover have "- (2 ^ 63) \<le> sint k" using sint_ge[of k] by simp
  ultimately have "take_bit 64 (sint k + 2 ^ 64) = sint k + 2 ^ 64"
    by (intro take_bit_int_eq_self) simp_all
  then have "take_bit 64 (sint k) = sint k + 2 ^ 64"
    by (metis take_bit_add take_bit_of_0 add.right_neutral take_bit_length_eq take_bit_take_bit
        take_bit_eq_mod mod_add_self2)
  then have "uint k = sint k + 2 ^ 64" unfolding uint_sint by simp
  then show ?thesis by (simp add: key_bits_def)
qed

text \<open>
  C29. The key encoding: every key is encoded in eight bytes, from which decoding gives the key
  back. Among keys of the same sign the encodings have the signed order, but every negative key
  comes after every key that is not negative, so the encoding preserves the order exactly on the
  keys that are not negative, the keys the benchmark uses. The exclusive bound of a key encodes its
  successor, which wraps from the largest key to the smallest.
\<close>

theorem lsm_key_encoding:
  "(bytes_less (encodeKey a) (encodeKey b) \<longleftrightarrow>
      (if (0 \<le> sint a) = (0 \<le> sint b) then sint a < sint b else 0 \<le> sint a)) \<and>
   decodeKey (encodeKey a) = a \<and> length (encodeKey a) = 8 \<and>
   decodeKey (encodeKeyExclusive a) = a + 1 \<and> decodeKey (encodeKeyExclusive 0x7FFFFFFFFFFFFFFF) = - (2 ^ 63)"
proof -
  have k: "int (key_bits k) = (if 0 \<le> sint k then sint k else sint k + 2 ^ 64)"
      "- (2 ^ 63) \<le> sint k" "sint k < 2 ^ 63" for k
    using key_bits_nonneg[of k] key_bits_neg[of k] sint_ge[of k] sint_lt[of k] by auto
  have "bytes_less (encodeKey a) (encodeKey b) \<longleftrightarrow> int (key_bits a) < int (key_bits b)"
    by (simp add: bytes_less_encode)
  then have "bytes_less (encodeKey a) (encodeKey b) \<longleftrightarrow>
      (if (0 \<le> sint a) = (0 \<le> sint b) then sint a < sint b else 0 \<le> sint a)"
    using k[of a] k[of b] by auto
  then show ?thesis by (simp add: encodeKeyExclusive_def)
qed

text \<open>
  C28. On a Pebble database that behaves as documented and starts out empty, with keys that are
  not negative and range ends below the largest key, any sequence of inserts, lookups and range
  scans of the LSM index returns what a sorted list of entries returns.
\<close>

theorem lsm_refines:
  assumes "pebble_store P content rest" "content db = Map.empty"
    "\<forall>op \<in> set ops. op_allowed lsm_key lsm_bounds (\<lambda>_. True) op"
  shows "\<exists>db'. run_ops (LSM_index P) ops db = Some (spec_run lsm_stored (Inr None) ops [], db')"
  using pebble_store.lsm_run[OF assms] by blast

theorem lsm_refines_witness:
  "\<exists>db'. run_ops (LSM_index mem_pebble) [OInsert 7 None, OInsert 3 (Some [1]), OGet 3, OScan 0 9] [] =
    Some ([RInsert (Inr ()), RInsert (Inr ()), RGet (Inr (Some [1])),
      RScan (Inr ([(3, Some [1]), (7, Some [])], None))], db')"
  using lsm_refines[OF mem.pebble_store_axioms, of "[]"
      "[OInsert 7 None, OInsert 3 (Some [1]), OGet 3, OScan 0 9]"]
  by (simp add: lsm_key_def lsm_bounds_def lsm_stored_def range_entries_def)

end
