(* ===== verification/Dataset.thy ===== *)
theory Dataset
  imports Index
begin

text \<open>
  The benchmark's data (src/bench/dataset.go): shuffled keys 1 to n with values that start with
  their key, and random samples of the keys. The generator of \<open>math/rand\<close> is a parameter: a
  state, a number below a bound, a non-negative 63-bit number, and random bytes; \<open>rand_ok\<close>
  states what its documentation promises of them. Shuffle and Perm are modelled on top of it,
  as the exchanges that the package makes.
\<close>

section \<open>The generator\<close>

record 'r rand =
  rnd_New :: "64 word \<Rightarrow> 'r"
  rnd_Intn :: "nat \<Rightarrow> 'r \<Rightarrow> nat \<times> 'r"
  rnd_Int63 :: "'r \<Rightarrow> key \<times> 'r"
  rnd_Read :: "nat \<Rightarrow> 'r \<Rightarrow> byte list \<times> 'r"

definition rand_ok :: "'r rand \<Rightarrow> bool" where
  "rand_ok R \<longleftrightarrow> (\<forall>n r. 0 < n \<longrightarrow> fst (rnd_Intn R n r) < n) \<and>
     (\<forall>r. 0 \<le> sint (fst (rnd_Int63 R r))) \<and> (\<forall>n r. length (fst (rnd_Read R n r)) = n)"

definition swap :: "'a list \<Rightarrow> nat \<Rightarrow> nat \<Rightarrow> 'a list" where
  "swap xs i j = xs[i := xs ! j, j := xs ! i]"

fun shuffle :: "'r rand \<Rightarrow> nat \<Rightarrow> 'a list \<Rightarrow> 'r \<Rightarrow> 'a list \<times> 'r" where
  "shuffle R 0 xs r = (xs, r)"
| "shuffle R (Suc i) xs r =
     (let (j, r1) = rnd_Intn R (Suc (Suc i)) r in shuffle R i (swap xs (Suc i) j) r1)"

fun perm :: "'r rand \<Rightarrow> nat \<Rightarrow> 'r \<Rightarrow> nat list \<times> 'r" where
  "perm R 0 r = ([], r)"
| "perm R (Suc i) r =
     (let (m, r1) = perm R i r; (j, r2) = rnd_Intn R (Suc i) r1; m1 = m @ [0] in
      (m1[i := m1 ! j, j := i], r2))"

section \<open>The dataset\<close>

record 'r dataset =
  ds_Keys :: "key list"
  ds_Values :: "byte list list"
  ds_rng :: 'r

text \<open>A value shorter than eight bytes makes \<open>PutUint64\<close> panic.\<close>

fun make_values :: "'r rand \<Rightarrow> nat \<Rightarrow> key list \<Rightarrow> 'r \<Rightarrow> (byte list list \<times> 'r) option" where
  "make_values R valueSize [] r = Some ([], r)"
| "make_values R valueSize (k # ks) r =
     (if valueSize < 8 then None
      else do {
        let (bs, r1) = rnd_Read R (valueSize - 8) r;
        (vs, r2) \<leftarrow> make_values R valueSize ks r1;
        Some ((le_put 8 (key_bits k) @ bs) # vs, r2)
      })"

definition NewDataset :: "'r rand \<Rightarrow> nat \<Rightarrow> nat \<Rightarrow> 64 word \<Rightarrow> 'r dataset option" where
  "NewDataset R n valueSize seed = do {
     let (keys, r1) = shuffle R (n - 1) (map (\<lambda>i. word_of_nat (i + 1)) [0..<n]) (rnd_New R seed);
     (values, r2) \<leftarrow> make_values R valueSize keys r1;
     Some \<lparr>ds_Keys = keys, ds_Values = values, ds_rng = r2\<rparr>
   }"

definition SortedKeys :: "'r dataset \<Rightarrow> key list" where
  "SortedKeys d = sort_key sint (ds_Keys d)"

definition RandomKeys :: "'r rand \<Rightarrow> nat \<Rightarrow> 'r dataset \<Rightarrow> (key list \<times> 'r dataset) option" where
  "RandomKeys R m d = do {
     let (p, r1) = perm R (length (ds_Keys d)) (ds_rng d);
     out \<leftarrow> mapM (\<lambda>i. if i < length p then Some (ds_Keys d ! (p ! i)) else None) [0..<m];
     Some (out, d\<lparr>ds_rng := r1\<rparr>)
   }"

section \<open>Shuffling\<close>

lemma mset_swap_at: "i < length xs \<Longrightarrow> j < length xs \<Longrightarrow> mset (swap xs i j) = mset xs"
  unfolding swap_def by (rule mset_swap)

lemma length_swap [simp]: "length (swap xs i j) = length xs"
  by (simp add: swap_def)

lemma shuffle_mset:
  "rand_ok R \<Longrightarrow> i < length xs \<or> i = 0 \<Longrightarrow> mset (fst (shuffle R i xs r)) = mset xs"
proof (induction R i xs r rule: shuffle.induct)
  case (2 R i xs r)
  obtain j r1 where j: "rnd_Intn R (Suc (Suc i)) r = (j, r1)" by fastforce
  have "j < Suc (Suc i)" using 2(2) j unfolding rand_ok_def by (metis fst_conv zero_less_Suc)
  then have "j < length xs" using 2(3) by simp
  moreover have "mset (fst (shuffle R i (swap xs (Suc i) j) r1)) = mset (swap xs (Suc i) j)"
    using 2(1)[OF j[symmetric] refl 2(2)] 2(3) by simp
  ultimately show ?case using j 2(3) mset_swap_at[of "Suc i" xs j] by simp
qed simp

lemma perm_mset: "rand_ok R \<Longrightarrow> mset (fst (perm R n r)) = mset [0..<n]"
proof (induction n arbitrary: r)
  case (Suc i)
  obtain m r1 where m: "perm R i r = (m, r1)" by fastforce
  obtain j r2 where j: "rnd_Intn R (Suc i) r1 = (j, r2)" by fastforce
  have jl: "j < Suc i" using Suc.prems j unfolding rand_ok_def by (metis fst_conv zero_less_Suc)
  have mm: "mset m = mset [0..<i]" using Suc.IH[OF Suc.prems, of r] m by simp
  then have l: "length m = i" by (metis length_upt minus_nat.diff_0 size_mset)
  have "mset ((m @ [0])[i := (m @ [0]) ! j, j := i]) = add_mset i (mset m)"
  proof (cases "j = i")
    case True
    then show ?thesis using l by (simp add: list_update_append)
  next
    case False
    then have "j < length m" using jl l by simp
    then show ?thesis using l False by (simp add: list_update_append nth_append mset_update)
  qed
  then show ?case using m j mm by (simp add: Let_def)
qed simp

lemma perm_props:
  assumes "rand_ok R"
  shows "distinct (fst (perm R n r))" "set (fst (perm R n r)) = {0..<n}" "length (fst (perm R n r)) = n"
proof -
  note m = perm_mset[OF assms, of n r]
  show "distinct (fst (perm R n r))" using m by (metis distinct_upt mset_eq_imp_distinct_iff)
  show "set (fst (perm R n r)) = {0..<n}" using m by (metis atLeast_upt set_mset_mset set_upt)
  show "length (fst (perm R n r)) = n" using m by (metis length_upt minus_nat.diff_0 size_mset)
qed

section \<open>What the data look like\<close>

definition key_range :: "nat \<Rightarrow> key list" where
  "key_range n = map (\<lambda>i. word_of_nat (i + 1)) [0..<n]"

definition value_of :: "nat \<Rightarrow> key \<Rightarrow> byte list \<Rightarrow> bool" where
  "value_of valueSize k v \<longleftrightarrow> length v = valueSize \<and> take 8 v = le_put 8 (key_bits k)"

lemma make_values_spec:
  "rand_ok R \<Longrightarrow> 8 \<le> valueSize \<Longrightarrow>
   \<exists>vs r'. make_values R valueSize ks r = Some (vs, r') \<and> list_all2 (value_of valueSize) ks vs"
proof (induction ks arbitrary: r)
  case (Cons k ks)
  obtain bs r1 where b: "rnd_Read R (valueSize - 8) r = (bs, r1)" by fastforce
  have "length bs = valueSize - 8" using Cons.prems(1) b unfolding rand_ok_def by (metis fst_conv)
  then have v: "value_of valueSize k (le_put 8 (key_bits k) @ bs)"
    using Cons.prems(2) by (simp add: value_of_def del: le_put.simps)
  obtain vs r' where "make_values R valueSize ks r1 = Some (vs, r')" "list_all2 (value_of valueSize) ks vs"
    using Cons by blast
  then show ?case using b v Cons.prems(2) by (simp del: le_put.simps)
qed simp

lemma NewDataset_spec:
  assumes "rand_ok R" "8 \<le> valueSize"
  obtains d where "NewDataset R n valueSize seed = Some d" "mset (ds_Keys d) = mset (key_range n)"
    "list_all2 (value_of valueSize) (ds_Keys d) (ds_Values d)"
proof -
  obtain keys r1 where k: "shuffle R (n - 1) (key_range n) (rnd_New R seed) = (keys, r1)" by fastforce
  have m: "mset keys = mset (key_range n)"
  proof -
    have "n - 1 < length (key_range n) \<or> n - 1 = 0" by (auto simp: key_range_def)
    from shuffle_mset[OF assms(1) this, of "rnd_New R seed"] show ?thesis using k by simp
  qed
  obtain vs r2 where "make_values R valueSize keys r1 = Some (vs, r2)"
    "list_all2 (value_of valueSize) keys vs"
    using make_values_spec[OF assms, of keys r1] by blast
  then show thesis
    using that[of "\<lparr>ds_Keys = keys, ds_Values = vs, ds_rng = r2\<rparr>"] k m
    unfolding NewDataset_def key_range_def[symmetric] by simp
qed

text \<open>A sample takes the keys at the first positions of a permutation.\<close>

lemma RandomKeys_sample:
  assumes R: "rand_ok R" and m: "m \<le> length (ds_Keys d)"
  obtains ks d' where "RandomKeys R m d = Some (ks, d')" "length ks = m" "set ks \<subseteq> set (ds_Keys d)"
    "distinct (ds_Keys d) \<Longrightarrow> distinct ks" "ds_Keys d' = ds_Keys d" "ds_Values d' = ds_Values d"
proof -
  let ?n = "length (ds_Keys d)"
  obtain p r1 where p: "perm R ?n (ds_rng d) = (p, r1)" by fastforce
  note P = perm_props[OF R, of ?n "ds_rng d", unfolded p fst_conv]
  let ?ks = "map (\<lambda>i. ds_Keys d ! (p ! i)) [0..<m]"
  have "mapM (\<lambda>i. if i < length p then Some (ds_Keys d ! (p ! i)) else None) [0..<m] = Some ?ks"
    by (rule mapM_Some) (use P(3) m in simp)
  then have run: "RandomKeys R m d = Some (?ks, d\<lparr>ds_rng := r1\<rparr>)" using p by (simp add: RandomKeys_def)
  have pos: "p ! i < ?n" if "i < m" for i using P(2,3) m that nth_mem[of i p] by auto
  have "distinct ?ks" if "distinct (ds_Keys d)"
    using P(1,3) m pos that by (auto simp: distinct_map inj_on_def nth_eq_iff_index_eq)
  then show thesis using run pos by (intro that[OF run]) auto
qed

lemma sint_small: "i < 2 ^ 63 \<Longrightarrow> sint (word_of_nat i :: key) = int i"
proof -
  assume i: "i < 2 ^ 63"
  then have "int i < 2 ^ 63" by (metis of_nat_less_iff of_nat_numeral of_nat_power)
  then have "signed_take_bit 63 (int i) = int i"
    by (intro signed_take_bit_int_eq_self) simp_all
  moreover have "(word_of_nat i :: key) = word_of_int (int i)" by simp
  ultimately show ?thesis using sint_sbintrunc'[of "int i", where 'a = 64] by simp
qed

lemma key_range_sint: "n < 2 ^ 63 \<Longrightarrow> map sint (key_range n) = map (\<lambda>i. int i + 1) [0..<n]"
  using sint_small[of "Suc _"] by (auto simp: key_range_def simp del: of_nat_Suc)

lemma key_range_sorted: "n < 2 ^ 63 \<Longrightarrow> sorted_wrt (<) (map sint (key_range n))"
proof -
  assume "n < 2 ^ 63"
  moreover have "sorted_wrt (\<lambda>i j. int i + 1 < int j + 1) [0..<n]"
    by (rule sorted_wrt_mono_rel[OF _ sorted_wrt_upt]) simp
  ultimately show ?thesis by (simp only: key_range_sint sorted_wrt_map)
qed

lemma SortedKeys_range:
  assumes "mset (ds_Keys d) = mset (key_range n)" "n < 2 ^ 63"
  shows "SortedKeys d = key_range n"
proof -
  have "sorted (map sint (key_range n))"
    using key_range_sorted[OF assms(2)] strict_sorted_iff by blast
  moreover have "sorted (map sint (SortedKeys d))" by (simp add: SortedKeys_def)
  moreover have "mset (map sint (SortedKeys d)) = mset (map sint (key_range n))"
    using assms(1) by (simp add: SortedKeys_def)
  ultimately have "map sint (SortedKeys d) = map sint (key_range n)"
    using properties_for_sort by metis
  moreover have "inj (sint :: key \<Rightarrow> int)" using sint_inject by (auto intro: injI)
  ultimately show ?thesis using inj_map_eq_map by blast
qed

end
