(* ===== verification/Registry.thy ===== *)
theory Registry
  imports BTreeIndex BPTreeIndex Lsm
begin

text \<open>
  The registry of the benchmarked indexes (src/bench/benchmark.go) and the dynamic dispatch of
  the interface: a value of the interface type is one of the three implementations, and a call
  goes to the one it is. The dispatching index keeps the contract because each of them does.
\<close>

section \<open>Configuration\<close>

text \<open>The counts are natural numbers: a negative size panics when the data are made.\<close>

record config =
  Seed :: "64 word"
  OutDir :: string
  DataDir :: string
  CachePages :: int
  DatasetSize :: nat
  PointQueryCount :: nat
  WriteOpsTotal :: nat
  WriteOpsWindow :: nat
  MixedOpsTotal :: nat
  LogInterval :: nat
  ValueSize :: nat
  T2StartSize :: nat
  T2MaxSize :: nat
  CleanupData :: bool

datatype index_kind = KBTree nat | KBPTree nat | KLsm "64 word"

record index_def =
  def_Name :: string
  def_Kind :: index_kind

definition Indexes :: "index_def list" where
  "Indexes =
     [\<lparr>def_Name = ''btree_4k'', def_Kind = KBTree 4096\<rparr>,
      \<lparr>def_Name = ''btree_8k'', def_Kind = KBTree 8192\<rparr>,
      \<lparr>def_Name = ''btree_16k'', def_Kind = KBTree 16384\<rparr>,
      \<lparr>def_Name = ''bptree_4k'', def_Kind = KBPTree 4096\<rparr>,
      \<lparr>def_Name = ''bptree_8k'', def_Kind = KBPTree 8192\<rparr>,
      \<lparr>def_Name = ''bptree_16k'', def_Kind = KBPTree 16384\<rparr>,
      \<lparr>def_Name = ''lsm_pebble_16m'', def_Kind = KLsm 16\<rparr>,
      \<lparr>def_Name = ''lsm_pebble_32m'', def_Kind = KLsm 32\<rparr>,
      \<lparr>def_Name = ''lsm_pebble_64m'', def_Kind = KLsm 64\<rparr>]"

section \<open>Dynamic dispatch\<close>

datatype 'db index_state = StBTree tree | StBPTree tree | StLsm 'db

datatype 'it index_iter = ItBTree range_iter | ItBPTree bp_iter | ItLsm "'it lsm_iter"

text \<open>\<open>NewFunc\<close> of a definition, with the file it finds at its path.\<close>

definition NewFunc :: "('db, 'it) pebble \<Rightarrow> config \<Rightarrow> index_def \<Rightarrow> string \<Rightarrow> os_file \<Rightarrow>
    (go_error + 'db index_state) option" where
  "NewFunc P cfg d path f =
     (case def_Kind d of
        KBTree ps \<Rightarrow> map_option (map_sum fst StBTree) (BTree_Open f (CachePages cfg) ps)
      | KBPTree ps \<Rightarrow> map_option (map_sum fst StBPTree) (BPTree_Open f (CachePages cfg) ps)
      | KLsm m \<Rightarrow> Some (map_sum (\<lambda>e. e) StLsm (LSM_Open P path m)))"

definition lift :: "('t \<Rightarrow> 's) \<Rightarrow> ('a \<times> 't) option \<Rightarrow> ('a \<times> 's) option" where
  "lift st r = map_option (map_prod (\<lambda>x. x) st) r"

fun any_Insert :: "('db, 'it) pebble \<Rightarrow> key \<Rightarrow> gobytes \<Rightarrow> 'db index_state \<Rightarrow>
    ((go_error + unit) \<times> 'db index_state) option" where
  "any_Insert P k v (StBTree t) = lift StBTree (BTree_Insert k v t)"
| "any_Insert P k v (StBPTree t) = lift StBPTree (BPTree_Insert k v t)"
| "any_Insert P k v (StLsm db) = lift StLsm (Some (LSM_Insert P k v db))"

fun any_Get :: "('db, 'it) pebble \<Rightarrow> key \<Rightarrow> 'db index_state \<Rightarrow>
    ((go_error + gobytes) \<times> 'db index_state) option" where
  "any_Get P k (StBTree t) = lift StBTree (BTree_Get k t)"
| "any_Get P k (StBPTree t) = lift StBPTree (BPTree_Get k t)"
| "any_Get P k (StLsm db) = Some (LSM_Get P k db, StLsm db)"

fun any_Delete :: "('db, 'it) pebble \<Rightarrow> key \<Rightarrow> 'db index_state \<Rightarrow>
    ((go_error + unit) \<times> 'db index_state) option" where
  "any_Delete P k (StBTree t) = lift StBTree (BTree_Delete k t)"
| "any_Delete P k (StBPTree t) = lift StBPTree (BPTree_Delete k t)"
| "any_Delete P k (StLsm db) = lift StLsm (Some (LSM_Delete P k db))"

fun any_Close :: "('db, 'it) pebble \<Rightarrow> 'db index_state \<Rightarrow>
    ((go_error + unit) \<times> 'db index_state) option" where
  "any_Close P (StBTree t) = lift StBTree (BTree_Close t)"
| "any_Close P (StBPTree t) = lift StBPTree (BPTree_Close t)"
| "any_Close P (StLsm db) = lift StLsm (Some (LSM_Close P db))"

fun any_Range :: "('db, 'it) pebble \<Rightarrow> key \<Rightarrow> key \<Rightarrow> 'db index_state \<Rightarrow>
    ((go_error + 'it index_iter) \<times> 'db index_state) option" where
  "any_Range P a b (StBTree t) =
     map_option (map_prod (map_sum (\<lambda>e. e) ItBTree) StBTree) (BTree_Range a b t)"
| "any_Range P a b (StBPTree t) =
     map_option (map_prod (map_sum (\<lambda>e. e) ItBPTree) StBPTree) (BPTree_Range a b t)"
| "any_Range P a b (StLsm db) = Some (map_sum (\<lambda>e. e) ItLsm (LSM_Range P a b db), StLsm db)"

text \<open>An iterator belongs to the index that made it.\<close>

fun any_Next :: "('db, 'it) pebble \<Rightarrow> 'it index_iter \<Rightarrow> 'db index_state \<Rightarrow>
    ((bool \<times> 'it index_iter) \<times> 'db index_state) option" where
  "any_Next P (ItBTree it) (StBTree t) =
     map_option (map_prod (map_prod (\<lambda>b. b) ItBTree) StBTree) (BTree_Next it t)"
| "any_Next P (ItBPTree it) (StBPTree t) =
     map_option (map_prod (map_prod (\<lambda>b. b) ItBPTree) StBPTree) (BPTree_Next it t)"
| "any_Next P (ItLsm it) (StLsm db) =
     Some (map_prod (\<lambda>b. b) ItLsm (LSM_Next P it), StLsm db)"
| "any_Next P _ _ = None"

fun any_Key :: "'it index_iter \<Rightarrow> key" where
  "any_Key (ItBTree it) = BTree_Key it"
| "any_Key (ItBPTree it) = BPTree_Key it"
| "any_Key (ItLsm it) = LSM_Key it"

fun any_Value :: "'it index_iter \<Rightarrow> 'db index_state \<Rightarrow> gobytes option" where
  "any_Value (ItBTree it) _ = Some (BTree_Value it)"
| "any_Value (ItBPTree it) (StBPTree t) = Some (BPTree_Value it t)"
| "any_Value (ItLsm it) _ = Some (LSM_Value it)"
| "any_Value _ _ = None"

fun any_Error :: "'it index_iter \<Rightarrow> go_error option" where
  "any_Error (ItBTree it) = BTree_Error it"
| "any_Error (ItBPTree it) = BPTree_Error it"
| "any_Error (ItLsm it) = LSM_Error it"

fun any_IterClose :: "('db, 'it) pebble \<Rightarrow> 'it index_iter \<Rightarrow> 'db index_state \<Rightarrow>
    ((go_error + unit) \<times> 'db index_state) option" where
  "any_IterClose P (ItLsm it) s = Some (LSM_IterClose P it, s)"
| "any_IterClose P _ s = Some (Inr (), s)"

definition any_iterator :: "('db, 'it) pebble \<Rightarrow> ('it index_iter, 'db index_state) Iterator" where
  "any_iterator P = \<lparr>iter_Next = any_Next P, iter_Key = (\<lambda>it _. Some (any_Key it)),
     iter_Value = any_Value, iter_Error = any_Error, iter_Close = any_IterClose P\<rparr>"

definition any_index :: "('db, 'it) pebble \<Rightarrow> ('it index_iter, 'db index_state) Index" where
  "any_index P = \<lparr>ix_Insert = any_Insert P, ix_Get = any_Get P, ix_Delete = any_Delete P,
     ix_Range = any_Range P, ix_Close = any_Close P, ix_Iter = any_iterator P\<rparr>"

text \<open>The optional methods that the harness looks for: only the trees have them.\<close>

fun any_sync :: "int \<Rightarrow> 'db index_state \<Rightarrow> 'db index_state" where
  "any_sync n (StBTree t) = StBTree (Tree_SetSyncInterval n t)"
| "any_sync n (StBPTree t) = StBPTree (Tree_SetSyncInterval n t)"
| "any_sync n (StLsm db) = StLsm db"

fun any_height :: "'db index_state \<Rightarrow> (nat option \<times> 'db index_state) option" where
  "any_height (StBTree t) = lift StBTree (map_option (map_prod Some (\<lambda>t. t)) (Height t))"
| "any_height (StBPTree t) = lift StBPTree (map_option (map_prod Some (\<lambda>t. t)) (Height t))"
| "any_height (StLsm db) = Some (None, StLsm db)"

fun any_leaves :: "'db index_state \<Rightarrow> (nat option \<times> 'db index_state) option" where
  "any_leaves (StBTree t) = lift StBTree (map_option (map_prod Some (\<lambda>t. t)) (CountLeaves BTreeAcc t))"
| "any_leaves (StBPTree t) = lift StBPTree (map_option (map_prod Some (\<lambda>t. t)) (CountLeaves BPTreeAcc t))"
| "any_leaves (StLsm db) = Some (None, StLsm db)"

lemma any_index_simps [simp]:
  "ix_Insert (any_index P) = any_Insert P" "ix_Get (any_index P) = any_Get P"
  "ix_Delete (any_index P) = any_Delete P" "ix_Range (any_index P) = any_Range P"
  "ix_Close (any_index P) = any_Close P" "ix_Iter (any_index P) = any_iterator P"
  by (simp_all add: any_index_def)

lemma any_iterator_simps [simp]:
  "iter_Next (any_iterator P) = any_Next P" "iter_Key (any_iterator P) it s = Some (any_Key it)"
  "iter_Value (any_iterator P) = any_Value" "iter_Error (any_iterator P) = any_Error"
  by (simp_all add: any_iterator_def)

section \<open>The dispatching index keeps the contract\<close>

fun same_state :: "'db index_state \<Rightarrow> 'db index_state \<Rightarrow> bool" where
  "same_state (StBTree t) (StBTree t') = same_tree t t'"
| "same_state (StBPTree t) (StBPTree t') = same_tree t t'"
| "same_state (StLsm db) (StLsm db') = (db = db')"
| "same_state _ _ = False"

lemma same_state_trans: "same_state s s1 \<Longrightarrow> same_state s1 s2 \<Longrightarrow> same_state s s2"
  by (cases s; cases s1; cases s2) (auto intro: same_tree_trans)

context pebble_store
begin

fun any_pending :: "nat \<Rightarrow> 'it index_iter \<Rightarrow> 'db index_state \<Rightarrow> (key \<times> gobytes) list \<Rightarrow> bool" where
  "any_pending l (ItBTree it) (StBTree t) rem = (\<exists>ps. btree_pending l ps it t rem)"
| "any_pending l (ItBPTree it) (StBPTree t) rem = (\<exists>ps. bp_pending l ps it t rem)"
| "any_pending l (ItLsm it) (StLsm db) rem = lsm_pending it db rem"
| "any_pending l _ _ rem = False"

fun any_holds :: "nat \<Rightarrow> 'db index_state \<Rightarrow> (key \<times> gobytes) list \<Rightarrow> bool" where
  "any_holds l (StBTree t) es = (\<exists>ps. btt.holds l ps t es)"
| "any_holds l (StBPTree t) es = (\<exists>ps. bpt.holds l ps t es)"
| "any_holds l (StLsm db) es = lsm_holds db es"

lemma any_pending_cases:
  assumes "any_pending l it s rem"
  obtains (btree) i t ps where "it = ItBTree i" "s = StBTree t" "btree_pending l ps i t rem"
    | (bptree) i t ps where "it = ItBPTree i" "s = StBPTree t" "bp_pending l ps i t rem"
    | (lsm) i db where "it = ItLsm i" "s = StLsm db" "lsm_pending i db rem"
  using assms by (cases it; cases s) auto

lemma any_next:
  assumes "any_pending l it s rem"
  shows "\<exists>it' s'. any_Next P it s = Some ((rem \<noteq> [], it'), s') \<and> same_state s s' \<and>
    any_Error it' = None \<and>
    (case rem of [] \<Rightarrow> True
     | x # xs \<Rightarrow> any_Key it' = fst x \<and> any_Value it' s' = Some (snd x) \<and> any_pending l it' s' xs)"
  using assms
proof (cases rule: any_pending_cases)
  case (btree i t ps)
  show ?thesis using btree_next[OF btree(3)] btree(1,2)
    by (cases rem) (fastforce simp: BTree_Error_def BTree_Key_def BTree_Value_def)+
next
  case (bptree i t ps)
  show ?thesis using bptree_next[OF bptree(3)] bptree(1,2)
    by (cases rem) (fastforce simp: BPTree_Error_def BPTree_Key_def)+
next
  case (lsm i db)
  show ?thesis using lsm_next[OF lsm(3)] lsm(1,2)
    by (cases rem) (fastforce simp: LSM_Error_def LSM_Key_def LSM_Value_def)+
qed

end

sublocale pebble_store \<subseteq> anyc: range_cursor "any_iterator P" "any_pending l" same_state for l
proof (unfold_locales, goal_cases)
  case (1 it s)
  show ?case using any_next[OF 1] by auto
next
  case (2 it s x xs)
  show ?case using any_next[OF 2] by auto
next
  case (3 s s1 s2)
  then show ?case by (rule same_state_trans)
qed

sublocale pebble_store \<subseteq> anyi: ordered_index "any_index P" "any_pending l" same_state "any_holds l"
    lsm_key lsm_bounds "\<lambda>v. glen v = l" trimmed "Inr None" entry_limit for l
proof (unfold_locales, goal_cases)
  case (1 it s)
  then show ?case using anyc.next_end by simp
next
  case (2 it s x xs)
  then show ?case using anyc.next_entry by simp
next
  case (3 s s1 s2)
  then show ?case by (rule same_state_trans)
next
  case (4 s es)
  then show ?case
    using btt.holds_sorted bpt.holds_sorted by (cases s) (auto simp: lsm_holds_def)
next
  case (5 s es s')
  then show ?case
    by (cases s; cases s') (auto intro: bti.holds_same bpi.holds_same)
next
  case (6 s es k v)
  have st: "lsm_stored = trimmed" by (simp add: fun_eq_iff lsm_stored_def trimmed_def)
  show ?case
  proof (cases s)
    case (StBTree t)
    then obtain ps where h: "btt.holds l ps t es" using 6(1) by auto
    show ?thesis using bti.insert_law[OF h _ 6(3,4), of k] StBTree by (auto simp: lift_def)
  next
    case (StBPTree t)
    then obtain ps where h: "bpt.holds l ps t es" using 6(1) by auto
    show ?thesis using bpi.insert_law[OF h _ 6(3,4), of k] StBPTree by (auto simp: lift_def)
  next
    case (StLsm db)
    then show ?thesis using lsm_insert[of db es k v] 6
      by (fastforce simp: lift_def lsm_key_def trimmed_def)
  qed
next
  case (7 s es k)
  show ?case
  proof (cases s)
    case (StBTree t)
    then obtain ps where h: "btt.holds l ps t es" using 7(1) by auto
    show ?thesis using bti.get_law[OF h, of k] StBTree by (auto simp: lift_def)
  next
    case (StBPTree t)
    then obtain ps where h: "bpt.holds l ps t es" using 7(1) by auto
    show ?thesis using bpi.get_law[OF h, of k] StBPTree by (auto simp: lift_def)
  next
    case (StLsm db)
    then show ?thesis using lsm_get[of db es k] 7 by simp
  qed
next
  case (8 s es a b)
  show ?case
  proof (cases s)
    case (StBTree t)
    then obtain ps where h: "btt.holds l ps t es" using 8(1) by auto
    show ?thesis using btree_range[OF h, of a b] StBTree by fastforce
  next
    case (StBPTree t)
    then obtain ps where h: "bpt.holds l ps t es" using 8(1) by auto
    show ?thesis using bptree_range[OF h, of a b] StBPTree by fastforce
  next
    case (StLsm db)
    then show ?thesis using lsm_range[of db es a b] 8 by (fastforce simp: lsm_bounds_def)
  qed
next
  case (9 it s rem)
  then show ?case
    using bti.pending_sorted bpi.pending_sorted by (cases it; cases s) (auto simp: lsm_pending_def)
qed

section \<open>Opening and the optional methods\<close>

text \<open>The configurations whose page size fits the values; LSM databases take any.\<close>

fun kind_fits :: "nat \<Rightarrow> index_kind \<Rightarrow> bool" where
  "kind_fits l (KBTree ps) = btree_geom l ps"
| "kind_fits l (KBPTree ps) = bptree_geom l ps"
| "kind_fits l (KLsm m) = True"

context pebble_store
begin

lemma any_open:
  assumes "kind_fits l (def_Kind d)" "empty_tree_file f"
  shows "\<exists>s. NewFunc P cfg d path f = Some (Inr s) \<and> any_holds l s []"
proof (cases "def_Kind d")
  case (KBTree ps)
  then have g: "empty_tree_file f \<and> btree_geom l ps" using assms by simp
  show ?thesis using btd.open_law[OF g, of "CachePages cfg"] KBTree by (auto simp: NewFunc_def)
next
  case (KBPTree ps)
  then have g: "empty_tree_file f \<and> bptree_geom l ps" using assms by simp
  show ?thesis using bpd.open_law[OF g, of "CachePages cfg"] KBPTree by (auto simp: NewFunc_def)
next
  case (KLsm m)
  obtain db where "pb_Open P path (unat (m * 1024 * 1024)) = Inr db" "content db = Map.empty"
    using popen_law by blast
  then show ?thesis using KLsm by (simp add: NewFunc_def LSM_Open_def Let_def lsm_holds_def)
qed

lemma any_sync_holds: "any_holds l s es \<Longrightarrow> any_holds l (any_sync n s) es"
  by (cases s) (auto intro: btt.holds_sync bpt.holds_sync)

lemma any_height_holds:
  "any_holds l s es \<Longrightarrow> \<exists>h s'. any_height s = Some (h, s') \<and> any_holds l s' es"
proof (cases s)
  case (StBTree t)
  assume "any_holds l s es"
  then obtain ps where h: "btt.holds l ps t es" using StBTree by auto
  show ?thesis using btt.holds_height[OF h] StBTree by (auto simp: lift_def)
next
  case (StBPTree t)
  assume "any_holds l s es"
  then obtain ps where h: "bpt.holds l ps t es" using StBPTree by auto
  show ?thesis using bpt.holds_height[OF h] StBPTree by (auto simp: lift_def)
qed simp

lemma any_leaves_holds:
  "any_holds l s es \<Longrightarrow> \<exists>h s'. any_leaves s = Some (h, s') \<and> any_holds l s' es"
proof (cases s)
  case (StBTree t)
  assume "any_holds l s es"
  then obtain ps where h: "btt.holds l ps t es" using StBTree by auto
  show ?thesis using btt.holds_leaves[OF h] StBTree by (auto simp: lift_def)
next
  case (StBPTree t)
  assume "any_holds l s es"
  then obtain ps where h: "bpt.holds l ps t es" using StBPTree by auto
  show ?thesis using bpt.holds_leaves[OF h] StBPTree by (auto simp: lift_def)
qed simp

end

text \<open>
  The default configuration is safe: with the default value size of 128 bytes every benchmarked
  page size fits the values of both trees.
\<close>

lemma Indexes_fit: "\<forall>d \<in> set Indexes. kind_fits 128 (def_Kind d)"
  by (simp add: Indexes_def btree_geom_def bptree_geom_def node_geom_def)

end
