(* ===== verification/Stats.thy ===== *)
theory Stats
  imports Prelude Format "HOL-Library.Signed_Division" "HOL-Library.Multiset"
begin

text \<open>
  The statistics of the benchmark runs and the rows of their CSV files (src/bench/tests.go):
  \<open>avg\<close> and \<open>pct\<close> on 64-bit response times, the results of T1, T2, T3 and of the mixed
  workloads. Clock readings are inputs: a \<open>clock\<close> gives the response time of the i-th operation
  on an index, the duration of its i-th interval, and the text of a rate, which is a floating
  point division that is not modelled.
\<close>

type_synonym int64 = "64 word"

record clock =
  clk_Op :: "nat \<Rightarrow> int64"
  clk_Total :: "nat \<Rightarrow> int64"
  clk_Rate :: "nat \<Rightarrow> int64 \<Rightarrow> string"

section \<open>Averages and percentiles\<close>

text \<open>Indexing a slice: an index outside it panics.\<close>

definition elem_at :: "'a list \<Rightarrow> int \<Rightarrow> 'a option" where
  "elem_at xs i = (if 0 \<le> i \<and> i < int (length xs) then Some (xs ! nat i) else None)"

text \<open>An empty list divides by zero in \<open>avg\<close> and is indexed at -1 in \<open>pct\<close>: both panic.\<close>

definition avg :: "int64 list \<Rightarrow> int64 option" where
  "avg responetimes =
     (let sum = fold (\<lambda>v sum. sum + v) responetimes 0 in
      if responetimes = [] then None
      else Some (word_of_int (sint sum sdiv int (length responetimes))))"

definition pct :: "int64 list \<Rightarrow> nat \<Rightarrow> int64 option" where
  "pct responetimes p =
     (let n = int (length responetimes);
          i = (int p * n) div 100;
          j = (if i \<ge> n then n - 1 else i) in
      elem_at responetimes j)"

section \<open>Results\<close>

record T1Result =
  r1_Index :: string
  r1_NDataset :: nat
  r1_NQueries :: nat
  r1_MinNs :: int64
  r1_Q1Ns :: int64
  r1_P50Ns :: int64
  r1_Q3Ns :: int64
  r1_MaxNs :: int64
  r1_AvgNs :: int64
  r1_P95Ns :: int64
  r1_P99Ns :: int64
  r1_OpsPerSec :: string
  r1_TotalMs :: int64

record T2Result =
  r2_Index :: string
  r2_RangeSize :: nat
  r2_KeysRead :: nat
  r2_TotalMs :: int64
  r2_OpsPerSec :: string

record T3Result =
  r3_Index :: string
  r3_OpCount :: nat
  r3_OpsPerSec :: string
  r3_CumulativeOps :: nat

record MixedSummaryResult =
  rm_Index :: string
  rm_OpType :: string
  rm_Count :: nat
  rm_MinNs :: int64
  rm_P50Ns :: int64
  rm_P95Ns :: int64
  rm_P99Ns :: int64
  rm_AvgNs :: int64
  rm_OpsPerSec :: string

text \<open>\<open>Milliseconds\<close> and \<open>Microseconds\<close> of a duration in nanoseconds truncate towards zero.\<close>

definition Milliseconds :: "int64 \<Rightarrow> int64" where
  "Milliseconds d = word_of_int (sint d sdiv 1000000)"

definition Microseconds :: "int64 \<Rightarrow> int64" where
  "Microseconds d = word_of_int (sint d sdiv 1000)"

definition t1_result :: "clock \<Rightarrow> string \<Rightarrow> nat \<Rightarrow> nat \<Rightarrow> int64 list \<Rightarrow> T1Result option" where
  "t1_result clk name nDataset nQueries ns = do {
     let responetimes = sort_key sint ns;
     minNs \<leftarrow> elem_at responetimes 0;
     q1 \<leftarrow> pct responetimes 25;
     p50 \<leftarrow> pct responetimes 50;
     q3 \<leftarrow> pct responetimes 75;
     maxNs \<leftarrow> elem_at responetimes (int (length responetimes) - 1);
     a \<leftarrow> avg responetimes;
     p95 \<leftarrow> pct responetimes 95;
     p99 \<leftarrow> pct responetimes 99;
     Some \<lparr>r1_Index = name, r1_NDataset = nDataset, r1_NQueries = nQueries, r1_MinNs = minNs,
       r1_Q1Ns = q1, r1_P50Ns = p50, r1_Q3Ns = q3, r1_MaxNs = maxNs, r1_AvgNs = a, r1_P95Ns = p95,
       r1_P99Ns = p99, r1_OpsPerSec = clk_Rate clk nQueries (clk_Total clk 0),
       r1_TotalMs = Milliseconds (clk_Total clk 0)\<rparr>
   }"

text \<open>\<open>processStats\<close>: no row for a type without operations.\<close>

definition processStats :: "clock \<Rightarrow> string \<Rightarrow> int64 list \<Rightarrow> string \<Rightarrow> MixedSummaryResult list option" where
  "processStats clk name ns opType =
     (if ns = [] then Some []
      else do {
        let ns = sort_key sint ns;
        minNs \<leftarrow> elem_at ns 0;
        p50 \<leftarrow> pct ns 50;
        p95 \<leftarrow> pct ns 95;
        p99 \<leftarrow> pct ns 99;
        a \<leftarrow> avg ns;
        Some [\<lparr>rm_Index = name, rm_OpType = opType, rm_Count = length ns, rm_MinNs = minNs,
          rm_P50Ns = p50, rm_P95Ns = p95, rm_P99Ns = p99, rm_AvgNs = a,
          rm_OpsPerSec = clk_Rate clk (length ns) (clk_Total clk 0)\<rparr>]
      })"

section \<open>CSV rows\<close>

text \<open>A record is a list of fields; quoting and line ends belong to \<open>encoding/csv\<close>.\<close>

abbreviation FormatInt :: "int64 \<Rightarrow> string" where
  "FormatInt w \<equiv> show_int (sint w)"

definition t1Header :: "string list" where
  "t1Header = [''index'', ''n_dataset'', ''n_queries'', ''min_ns'', ''q1_ns'', ''p50_ns'', ''q3_ns'',
     ''max_ns'', ''avg_ns'', ''p95_ns'', ''p99_ns'', ''ops_per_sec'', ''total_ms'']"

definition t1_row :: "T1Result \<Rightarrow> string list" where
  "t1_row r = [r1_Index r, show_nat (r1_NDataset r), show_nat (r1_NQueries r),
     FormatInt (r1_MinNs r), FormatInt (r1_Q1Ns r), FormatInt (r1_P50Ns r), FormatInt (r1_Q3Ns r),
     FormatInt (r1_MaxNs r), FormatInt (r1_AvgNs r), FormatInt (r1_P95Ns r), FormatInt (r1_P99Ns r),
     r1_OpsPerSec r, FormatInt (r1_TotalMs r)]"

definition t2Header :: "string list" where
  "t2Header = [''index'', ''range_size'', ''keys_read'', ''total_ms'', ''ops_per_sec'']"

definition t2_row :: "T2Result \<Rightarrow> string list" where
  "t2_row r = [r2_Index r, show_nat (r2_RangeSize r), show_nat (r2_KeysRead r),
     FormatInt (r2_TotalMs r), r2_OpsPerSec r]"

definition t3Header :: "string list" where
  "t3Header = [''index'', ''op_count'', ''ops_per_sec'', ''cumulative_ops'']"

definition t3_row :: "T3Result \<Rightarrow> string list" where
  "t3_row r = [r3_Index r, show_nat (r3_OpCount r), r3_OpsPerSec r, show_nat (r3_CumulativeOps r)]"

definition mixedSummaryHeader :: "string list" where
  "mixedSummaryHeader = [''index'', ''op_type'', ''count'', ''min_ns'', ''p50_ns'', ''p95_ns'',
     ''p99_ns'', ''avg_ns'', ''ops_per_sec'']"

definition mixed_summary_row :: "MixedSummaryResult \<Rightarrow> string list" where
  "mixed_summary_row r = [rm_Index r, rm_OpType r, show_nat (rm_Count r), FormatInt (rm_MinNs r),
     FormatInt (rm_P50Ns r), FormatInt (rm_P95Ns r), FormatInt (rm_P99Ns r), FormatInt (rm_AvgNs r),
     rm_OpsPerSec r]"

definition mixedHeader :: "string list" where
  "mixedHeader = [''index'', ''op_count'', ''responetime_ns'', ''type'']"

section \<open>What the statistics mean\<close>

lemma elem_at_simps [simp]:
  "i < length xs \<Longrightarrow> elem_at xs (int i) = Some (xs ! i)" "xs \<noteq> [] \<Longrightarrow> elem_at xs 0 = Some (xs ! 0)"
  "elem_at [] j = None"
  by (simp_all add: elem_at_def)

lemma elem_at_last [simp]:
  "xs \<noteq> [] \<Longrightarrow> elem_at xs (int (length xs) - 1) = Some (xs ! (length xs - 1))"
  by (cases xs) (simp_all add: elem_at_def)

definition pct_pos :: "nat \<Rightarrow> nat \<Rightarrow> nat" where
  "pct_pos n p = min (p * n div 100) (n - 1)"

lemma pct_spec: "ts \<noteq> [] \<Longrightarrow> pct ts p = Some (ts ! pct_pos (length ts) p)"
proof -
  assume "ts \<noteq> []"
  then have l: "0 < length ts" by simp
  have i: "(int p * int (length ts)) div 100 = int (p * length ts div 100)" by (simp add: zdiv_int)
  show ?thesis
  proof (cases "p * length ts div 100 < length ts")
    case True
    then have "pct_pos (length ts) p = p * length ts div 100" by (simp add: pct_pos_def)
    moreover have "\<not> int (length ts) \<le> int (p * length ts div 100)" using True by linarith
    ultimately show ?thesis using True unfolding pct_def Let_def i by simp
  next
    case False
    then have "pct_pos (length ts) p = length ts - 1" by (simp add: pct_pos_def)
    moreover have "int (length ts) \<le> int (p * length ts div 100)" using False by linarith
    ultimately show ?thesis using l unfolding pct_def Let_def i by simp
  qed
qed

lemma pct_empty: "pct [] p = None"
  by (simp add: pct_def)

lemma pct_pos_less: "0 < n \<Longrightarrow> pct_pos n p < n"
  by (simp add: pct_pos_def)

lemma pct_pos_mono: "p \<le> q \<Longrightarrow> pct_pos n p \<le> pct_pos n q"
  unfolding pct_pos_def by (intro min.mono div_le_mono mult_le_mono1 order_refl)

lemma sum_words:
  "(\<forall>t \<in> set ts. 0 \<le> sint t) \<Longrightarrow> 0 \<le> sint a \<Longrightarrow> sint a + sum_list (map sint ts) < 2 ^ 63 \<Longrightarrow>
   sint (fold (\<lambda>v sum. sum + v) ts (a :: int64)) = sint a + sum_list (map sint ts)"
proof (induction ts arbitrary: a)
  case (Cons t ts)
  have nn: "0 \<le> sum_list (map sint ts)" using Cons.prems(1) by (intro sum_list_nonneg) auto
  have t: "0 \<le> sint t" "sint a + sint t < 2 ^ 63" using Cons.prems nn by simp_all
  have "sint (a + t) = signed_take_bit 63 (sint a + sint t)" using sint_word_add[of a t] by simp
  also have "\<dots> = sint a + sint t"
    using t Cons.prems(2) by (intro signed_take_bit_int_eq_self) simp_all
  finally have s: "sint (a + t) = sint a + sint t" .
  show ?case using Cons.IH[of "a + t"] Cons.prems t unfolding s by simp
qed simp

lemma sum_list_bounds:
  fixes xs :: "int list"
  assumes "\<forall>x \<in> set xs. lo \<le> x \<and> x \<le> hi"
  shows "lo * int (length xs) \<le> sum_list xs \<and> sum_list xs \<le> hi * int (length xs)"
  using assms by (induction xs) (auto simp: algebra_simps)

text \<open>Without overflow the average is the rounded mean, between the smallest and largest time.\<close>

lemma avg_spec:
  assumes ts: "ts \<noteq> []" "\<forall>t \<in> set ts. lo \<le> sint t \<and> sint t \<le> hi" "0 \<le> lo"
    and sum: "sum_list (map sint ts) < 2 ^ 63"
  shows "\<exists>a. avg ts = Some a \<and> sint a = sum_list (map sint ts) div int (length ts) \<and>
    lo \<le> sint a \<and> sint a \<le> hi"
proof -
  let ?S = "sum_list (map sint ts)" and ?n = "int (length ts)"
  have nn: "\<forall>t \<in> set ts. 0 \<le> sint t" using ts(2,3) by fastforce
  have n: "0 < ?n" using ts(1) by simp
  have S: "sint (fold (\<lambda>v sum. sum + v) ts (0 :: int64)) = ?S"
    using sum_words[OF nn, of 0] sum by simp
  have S0: "0 \<le> ?S" using nn by (intro sum_list_nonneg) auto
  have q: "?S sdiv ?n = ?S div ?n" using S0 n by (simp add: signed_divide_int_def sgn_if)
  have b: "lo * ?n \<le> ?S" "?S \<le> hi * ?n" using sum_list_bounds[of "map sint ts" lo hi] ts(2) by auto
  have d: "lo \<le> ?S div ?n" "?S div ?n \<le> hi"
    using zdiv_mono1[OF b(1) n] zdiv_mono1[OF b(2) n] n by simp_all
  have "?S div ?n \<le> ?S" using S0 n by (metis div_by_1 zdiv_mono2 zero_less_one int_one_le_iff_zero_less)
  then have "?S div ?n < 2 ^ 63" "0 \<le> ?S div ?n" using sum d(1) ts(3) by linarith+
  then have "signed_take_bit 63 (?S div ?n) = ?S div ?n" by (intro signed_take_bit_int_eq_self) simp_all
  then have "sint (word_of_int (?S div ?n) :: int64) = ?S div ?n"
    using sint_sbintrunc'[of "?S div ?n", where 'a = 64] by simp
  then show ?thesis using ts(1) S q d by (simp add: avg_def)
qed

section \<open>Summaries\<close>

lemma sorted_pick:
  assumes "ns \<noteq> []" "i < length ns"
  shows "sort_key sint ns ! i \<in> set ns"
  using assms by (metis length_sort nth_mem set_sort)

lemma sorted_pick_mono:
  "i \<le> j \<Longrightarrow> j < length ns \<Longrightarrow> sint (sort_key sint ns ! i) \<le> sint (sort_key sint (ns :: int64 list) ! j)"
  using sorted_nth_mono[of "map sint (sort_key sint ns)" i j] by simp

lemma sort_key_empty: "sort_key sint (ns :: int64 list) = [] \<longleftrightarrow> ns = []"
  by (metis length_0_conv length_sort)

lemma sorted_ends:
  assumes "t \<in> set (ns :: int64 list)"
  shows "sint (sort_key sint ns ! 0) \<le> sint t" "sint t \<le> sint (sort_key sint ns ! (length ns - 1))"
proof -
  obtain k where k: "k < length ns" "sort_key sint ns ! k = t"
    using assms by (metis in_set_conv_nth length_sort set_sort)
  show "sint (sort_key sint ns ! 0) \<le> sint t" "sint t \<le> sint (sort_key sint ns ! (length ns - 1))"
    using sorted_pick_mono[of 0 k ns] sorted_pick_mono[of k "length ns - 1" ns] k by simp_all
qed

lemma sum_list_sort: "sum_list (map sint (sort_key sint (ns :: int64 list))) = sum_list (map sint ns)"
  by (metis mset_map mset_sort sum_mset_sum_list)

lemma avg_sorted:
  assumes ns: "ns \<noteq> []" "\<forall>t \<in> set ns. 0 \<le> sint t" "sum_list (map sint ns) < 2 ^ 63"
  shows "\<exists>a. avg (sort_key sint ns) = Some a \<and>
    sint a = sum_list (map sint ns) div int (length ns) \<and>
    sint (sort_key sint ns ! 0) \<le> sint a \<and> sint a \<le> sint (sort_key sint ns ! (length ns - 1))"
proof -
  have "0 \<le> sint (sort_key sint ns ! 0)" using ns sorted_pick[of ns 0] by auto
  moreover have "\<forall>t \<in> set (sort_key sint ns). sint (sort_key sint ns ! 0) \<le> sint t \<and>
      sint t \<le> sint (sort_key sint ns ! (length ns - 1))"
    using sorted_ends by simp
  ultimately show ?thesis
    using avg_spec[of "sort_key sint ns"] ns(1,3) by (simp add: sum_list_sort sort_key_empty)
qed

text \<open>\<open>in_order\<close>: every number is at most the next one.\<close>

abbreviation in_order :: "int64 list \<Rightarrow> bool" where
  "in_order vs \<equiv> sorted (map sint vs)"

lemma sorted_picks:
  assumes "sorted is" "\<forall>i \<in> set is. i < length ns"
  shows "in_order (map (\<lambda>i. sort_key sint ns ! i) is)"
  using assms by (induction "is") (auto intro: sorted_pick_mono)

lemma pct_picks: "(ns :: int64 list) \<noteq> [] \<Longrightarrow>
  pct (sort_key sint ns) p = Some (sort_key sint ns ! pct_pos (length ns) p)"
  using pct_spec[of "sort_key sint ns" p] by (simp add: sort_key_empty)

lemma t1_result_spec:
  assumes ns: "ns \<noteq> []"
  obtains r where "t1_result clk name n q ns = Some r" "r1_Index r = name" "r1_NDataset r = n"
    "r1_NQueries r = q"
    "in_order [r1_MinNs r, r1_Q1Ns r, r1_P50Ns r, r1_Q3Ns r, r1_P95Ns r, r1_P99Ns r, r1_MaxNs r]"
    "\<forall>t \<in> set ns. sint (r1_MinNs r) \<le> sint t \<and> sint t \<le> sint (r1_MaxNs r)"
    "avg (sort_key sint ns) = Some (r1_AvgNs r)"
    "r1_MinNs r = sort_key sint ns ! 0" "r1_MaxNs r = sort_key sint ns ! (length ns - 1)"
proof -
  let ?s = "sort_key sint ns" and ?n = "length ns"
  obtain a where a: "avg ?s = Some a" using ns by (auto simp: avg_def Let_def sort_key_empty)
  let ?is = "[0, pct_pos ?n 25, pct_pos ?n 50, pct_pos ?n 75, pct_pos ?n 95, pct_pos ?n 99, ?n - 1]"
  have "pct_pos ?n p \<le> ?n - 1" for p by (simp add: pct_pos_def)
  then have "sorted ?is" by (simp add: pct_pos_mono)
  moreover have "\<forall>i \<in> set ?is. i < ?n" using ns by (simp add: pct_pos_less)
  ultimately have o: "in_order (map (\<lambda>i. ?s ! i) ?is)" by (rule sorted_picks)
  have last: "elem_at ?s (int (length ?s) - 1) = Some (?s ! (?n - 1))"
    using elem_at_last[of ?s] ns by (simp add: sort_key_empty)
  have first: "elem_at ?s 0 = Some (?s ! 0)" using ns by (simp add: sort_key_empty)
  have ends: "\<forall>t \<in> set ns. sint (?s ! 0) \<le> sint t \<and> sint t \<le> sint (?s ! (?n - 1))"
    using sorted_ends by blast
  have run: "t1_result clk name n q ns = Some \<lparr>r1_Index = name, r1_NDataset = n, r1_NQueries = q,
      r1_MinNs = ?s ! 0, r1_Q1Ns = ?s ! pct_pos ?n 25, r1_P50Ns = ?s ! pct_pos ?n 50,
      r1_Q3Ns = ?s ! pct_pos ?n 75, r1_MaxNs = ?s ! (?n - 1), r1_AvgNs = a,
      r1_P95Ns = ?s ! pct_pos ?n 95, r1_P99Ns = ?s ! pct_pos ?n 99,
      r1_OpsPerSec = clk_Rate clk q (clk_Total clk 0),
      r1_TotalMs = Milliseconds (clk_Total clk 0)\<rparr>"
    by (simp only: t1_result_def Let_def first last pct_picks[OF ns] a bind.simps)
  show thesis using o ends a by (intro that[OF run]) simp_all
qed

lemma processStats_spec:
  obtains rows where "processStats clk name ns t = Some rows"
    "map (\<lambda>r. (rm_Index r, rm_OpType r, rm_Count r)) rows =
       (if ns = [] then [] else [(name, t, length ns)])"
    "\<forall>r \<in> set rows. in_order [rm_MinNs r, rm_P50Ns r, rm_P95Ns r, rm_P99Ns r]"
proof (cases "ns = []")
  case True
  then show thesis using that[of "[]"] by (simp add: processStats_def)
next
  case False
  let ?s = "sort_key sint ns" and ?n = "length ns"
  obtain a where a: "avg ?s = Some a" using False by (auto simp: avg_def Let_def sort_key_empty)
  let ?is = "[0, pct_pos ?n 50, pct_pos ?n 95, pct_pos ?n 99]"
  have "sorted ?is" by (simp add: pct_pos_mono)
  moreover have "\<forall>i \<in> set ?is. i < ?n" using False by (simp add: pct_pos_less)
  ultimately have o: "in_order (map (\<lambda>i. ?s ! i) ?is)" by (rule sorted_picks)
  have first: "elem_at ?s 0 = Some (?s ! 0)" using False by (simp add: sort_key_empty)
  have run: "processStats clk name ns t = Some [\<lparr>rm_Index = name, rm_OpType = t, rm_Count = length ?s,
      rm_MinNs = ?s ! 0, rm_P50Ns = ?s ! pct_pos ?n 50, rm_P95Ns = ?s ! pct_pos ?n 95,
      rm_P99Ns = ?s ! pct_pos ?n 99, rm_AvgNs = a,
      rm_OpsPerSec = clk_Rate clk (length ?s) (clk_Total clk 0)\<rparr>]"
    using False by (simp only: processStats_def Let_def first pct_picks[OF False] a bind.simps if_False)
  show thesis using o False by (intro that[OF run]) simp_all
qed

section \<open>Properties\<close>

text \<open>
  C34. Percentiles are percentiles: on a sorted non-empty list of response times \<open>pct\<close> returns, for
  every p below 100, a value of the list with more than p per cent of the times at or below it
  and at most p per cent strictly below it.
\<close>

theorem pct_rank:
  assumes "sorted (map sint ts)" "ts \<noteq> []" "p < 100"
  shows "\<exists>v. pct ts p = Some v \<and> v \<in> set ts \<and>
    p * length ts < 100 * length (filter (\<lambda>t. sint t \<le> sint v) ts) \<and>
    100 * length (filter (\<lambda>t. sint t < sint v) ts) \<le> p * length ts"
proof -
  let ?n = "length ts" and ?i = "p * length ts div 100"
  have n: "0 < ?n" using assms(2) by simp
  have "p * ?n < 100 * ?n" using assms(3) n by simp
  then have i: "?i < ?n" by (simp add: less_mult_imp_div_less mult.commute)
  then have pos: "pct_pos ?n p = ?i" by (simp add: pct_pos_def)
  let ?v = "ts ! ?i"
  have mono: "sint (ts ! a) \<le> sint (ts ! b)" if "a \<le> b" "b < ?n" for a b
    using sorted_nth_mono[OF assms(1), of a b] that by simp
  have "card {0..?i} \<le> card {k. k < ?n \<and> sint (ts ! k) \<le> sint ?v}"
    using mono i by (intro card_mono) auto
  then have le: "?i + 1 \<le> length (filter (\<lambda>t. sint t \<le> sint ?v) ts)"
    by (simp add: length_filter_conv_card)
  have "card {k. k < ?n \<and> sint (ts ! k) < sint ?v} \<le> card {0..<?i}"
  proof (intro card_mono subsetI)
    fix k assume k: "k \<in> {k. k < ?n \<and> sint (ts ! k) < sint ?v}"
    show "k \<in> {0..<?i}" using mono[of ?i k] k by (cases "k < ?i") auto
  qed simp
  then have ge: "length (filter (\<lambda>t. sint t < sint ?v) ts) \<le> ?i"
    by (simp add: length_filter_conv_card)
  have "p * ?n < 100 * (?i + 1)" by presburger
  then have "p * ?n < 100 * length (filter (\<lambda>t. sint t \<le> sint ?v) ts)" using le by linarith
  moreover have "100 * ?i \<le> p * ?n" by presburger
  then have "100 * length (filter (\<lambda>t. sint t < sint ?v) ts) \<le> p * ?n" using ge by linarith
  ultimately show ?thesis using pct_spec[OF assms(2), of p] pos i by simp
qed

theorem pct_rank_witness:
  "\<exists>v. pct [3, 3, 8, 20] 50 = Some v \<and> v \<in> set [3, 3, 8, 20] \<and>
    50 * length [3, 3, 8, 20 :: int64] < 100 * length (filter (\<lambda>t. sint t \<le> sint v) [3, 3, 8, 20 :: int64]) \<and>
    100 * length (filter (\<lambda>t. sint t < sint v) [3, 3, 8, 20 :: int64]) \<le> 50 * length [3, 3, 8, 20 :: int64]"
  by (rule pct_rank[of "[3, 3, 8, 20]" 50]) simp_all

text \<open>
  C35. The summary of T1 is consistent: from any response times that are not negative and whose
  sum fits 64 bits, in any order, the row has minimum, quartiles, percentiles and maximum in
  order, every response time lies between its minimum and maximum, and its average is the
  rounded-down mean and lies between them too. Without any response time the run panics.
\<close>

theorem t1_summary_consistent:
  assumes "ns \<noteq> []" "\<forall>t \<in> set ns. 0 \<le> sint t" "sum_list (map sint ns) < 2 ^ 63"
  shows "t1_result clk name n q [] = None \<and> (\<exists>r. t1_result clk name n q ns = Some r \<and>
    in_order [r1_MinNs r, r1_Q1Ns r, r1_P50Ns r, r1_Q3Ns r, r1_P95Ns r, r1_P99Ns r, r1_MaxNs r] \<and>
    (\<forall>t \<in> set ns. in_order [r1_MinNs r, t, r1_MaxNs r]) \<and>
    in_order [r1_MinNs r, r1_AvgNs r, r1_MaxNs r] \<and>
    sint (r1_AvgNs r) = sum_list (map sint ns) div int (length ns))"
proof -
  obtain r where r: "t1_result clk name n q ns = Some r"
    "in_order [r1_MinNs r, r1_Q1Ns r, r1_P50Ns r, r1_Q3Ns r, r1_P95Ns r, r1_P99Ns r, r1_MaxNs r]"
    "\<forall>t \<in> set ns. sint (r1_MinNs r) \<le> sint t \<and> sint t \<le> sint (r1_MaxNs r)"
    "avg (sort_key sint ns) = Some (r1_AvgNs r)"
    "r1_MinNs r = sort_key sint ns ! 0" "r1_MaxNs r = sort_key sint ns ! (length ns - 1)"
    by (rule t1_result_spec[OF assms(1)])
  have "t1_result clk name n q [] = None" by (simp add: t1_result_def)
  then show ?thesis using r avg_sorted[OF assms] by auto
qed

theorem t1_summary_consistent_witness:
  "t1_result \<lparr>clk_Op = (\<lambda>_. 0), clk_Total = (\<lambda>_. 9), clk_Rate = (\<lambda>_ _. ''0.00'')\<rparr> ''btree_4k'' 3 3 [] = None \<and>
   (\<exists>r. t1_result \<lparr>clk_Op = (\<lambda>_. 0), clk_Total = (\<lambda>_. 9), clk_Rate = (\<lambda>_ _. ''0.00'')\<rparr> ''btree_4k'' 3 3
      [7, 2, 5] = Some r \<and>
    in_order [r1_MinNs r, r1_Q1Ns r, r1_P50Ns r, r1_Q3Ns r, r1_P95Ns r, r1_P99Ns r, r1_MaxNs r] \<and>
    (\<forall>t \<in> set [7, 2, 5]. in_order [r1_MinNs r, t, r1_MaxNs r]) \<and>
    in_order [r1_MinNs r, r1_AvgNs r, r1_MaxNs r] \<and>
    sint (r1_AvgNs r) = sum_list (map sint [7, 2, 5 :: int64]) div int (length [7, 2, 5 :: int64]))"
  by (rule t1_summary_consistent) simp_all

end
