(* ===== verification/Harness.thy ===== *)
theory Harness
  imports Registry Dataset Stats
begin

text \<open>
  The benchmark runs of src/bench/tests.go: filling an index, the point queries of T1, the range
  scans of T2, the insertions of T3 and the mixed workload of T4 and T5: what a run asks of the
  index, what it counts and which rows it writes. Clock readings are inputs; console output, the
  deletion of data files and failures of the result files are left out. The operations take the index as a method table and its optional
  SetSyncInterval as a function, which does nothing for an index that lacks it.
\<close>

section \<open>Filling an index\<close>

fun insert_all :: "('i, 's) Index \<Rightarrow> (key \<times> gobytes) list \<Rightarrow> 's \<Rightarrow> ((go_error + unit) \<times> 's) option" where
  "insert_all ix [] s = Some (Inr (), s)"
| "insert_all ix ((k, v) # rest) s = do {
     (r, s1) \<leftarrow> ix_Insert ix k v s;
     (case r of
        Inl e \<Rightarrow> Some (Inl (Wrapped (''insert key '' @ show_int (sint k)) e), s1)
      | Inr _ \<Rightarrow> insert_all ix rest s1)
   }"

definition sorted_indices :: "'r dataset \<Rightarrow> nat list" where
  "sorted_indices ds = sort_key (\<lambda>i. sint (ds_Keys ds ! i)) [0..<length (ds_Keys ds)]"

definition fillIndex :: "('i, 's) Index \<Rightarrow> (int \<Rightarrow> 's \<Rightarrow> 's) \<Rightarrow> 'r dataset \<Rightarrow> 's \<Rightarrow>
    ((go_error + unit) \<times> 's) option" where
  "fillIndex ix sync ds s = do {
     kvs \<leftarrow> mapM (\<lambda>i. if i < length (ds_Values ds) then Some (ds_Keys ds ! i, Some (ds_Values ds ! i)) else None)
       (sorted_indices ds);
     insert_all ix kvs (sync 0 s)
   }"

section \<open>T1: point queries\<close>

datatype query_outcome = QueryFound | QueryMissing | QueryError go_error

fun point_queries :: "('i, 's) Index \<Rightarrow> key list \<Rightarrow> 's \<Rightarrow> (query_outcome list \<times> 's) option" where
  "point_queries ix [] s = Some ([], s)"
| "point_queries ix (k # ks) s = do {
     (r, s1) \<leftarrow> ix_Get ix k s;
     (qs, s2) \<leftarrow> point_queries ix ks s1;
     Some ((case r of Inl e \<Rightarrow> QueryError e
            | Inr val \<Rightarrow> if val = None then QueryMissing else QueryFound) # qs, s2)
   }"

text \<open>The run on one index: the optional report on the tree, the queries, and Close.\<close>

definition t1_index :: "('i, 's) Index \<Rightarrow> (int \<Rightarrow> 's \<Rightarrow> 's) \<Rightarrow> ('s \<Rightarrow> (nat option \<times> 's) option) \<Rightarrow>
    clock \<Rightarrow> string \<Rightarrow> config \<Rightarrow> 'r dataset \<Rightarrow> key list \<Rightarrow> 's \<Rightarrow>
    ((go_error + query_outcome list \<times> T1Result) \<times> 's) option" where
  "t1_index ix sync height clk name cfg ds queryKeys s = do {
     (r, s1) \<leftarrow> fillIndex ix sync ds s;
     (case r of
        Inl e \<Rightarrow> do { (_, s2) \<leftarrow> ix_Close ix s1; Some (Inl e, s2) }
      | Inr _ \<Rightarrow> do {
          (_, s2) \<leftarrow> height s1;
          (qs, s3) \<leftarrow> point_queries ix queryKeys s2;
          (_, s4) \<leftarrow> ix_Close ix s3;
          row \<leftarrow> t1_result clk name (DatasetSize cfg) (PointQueryCount cfg)
            (map (clk_Op clk) [0..<length qs]);
          Some (Inr (qs, row), s4)
        })
   }"

text \<open>
  The whole test: one dataset and one set of query keys for all indexes; an index that does not
  open or fill is skipped. Every index finds a file of its own at its path.
\<close>

definition RunBenchmarkT1 :: "('db, 'it) pebble \<Rightarrow> 'r rand \<Rightarrow> (string \<Rightarrow> clock) \<Rightarrow> index_def list \<Rightarrow>
    config \<Rightarrow> (string \<Rightarrow> os_file) \<Rightarrow>
    (string \<times> (go_error + query_outcome list \<times> T1Result)) list option" where
  "RunBenchmarkT1 P R clk indices cfg files = do {
     ds0 \<leftarrow> NewDataset R (DatasetSize cfg) (ValueSize cfg) (Seed cfg);
     (queryKeys, ds) \<leftarrow> RandomKeys R (PointQueryCount cfg) ds0;
     mapM (\<lambda>d. do {
         let path = DataDir cfg @ ''/'' @ def_Name d @ ''_t1'';
         o1 \<leftarrow> NewFunc P cfg d path (files path);
         (case o1 of
            Inl e \<Rightarrow> Some (def_Name d, Inl e)
          | Inr s \<Rightarrow> do {
              (r, _) \<leftarrow> t1_index (any_index P) any_sync any_height (clk (def_Name d)) (def_Name d) cfg
                ds queryKeys s;
              Some (def_Name d, r)
            })
       }) indices
   }"

text \<open>The file of results: the header and a row for every index that was not skipped.\<close>

fun row_of :: "('a \<Rightarrow> string list list) \<Rightarrow> string \<times> (go_error + 'a) \<Rightarrow> string list list" where
  "row_of f (_, Inl _) = []"
| "row_of f (_, Inr x) = f x"

definition t1_csv :: "(string \<times> (go_error + query_outcome list \<times> T1Result)) list \<Rightarrow> string list list" where
  "t1_csv rs = t1Header # concat (map (row_of (\<lambda>(_, row). [t1_row row])) rs)"

section \<open>T2: range scans\<close>

text \<open>The sizes double from the first one; the loop \<open>s *= 2\<close> does not end for size 0.\<close>

partial_function (option) t2_sizes :: "nat \<Rightarrow> nat \<Rightarrow> nat \<Rightarrow> nat list option" where
  "t2_sizes maxSize n s =
     (if s \<le> maxSize \<and> s \<le> n then do { rest \<leftarrow> t2_sizes maxSize n (s * 2); Some (s # rest) }
      else Some [])"

declare t2_sizes.simps [code]

text \<open>One scan: \<open>None\<close> is a panic; a Range error skips the size, as \<open>continue\<close> does.\<close>

definition t2_scan :: "('i, 's) Index \<Rightarrow> clock \<Rightarrow> string \<Rightarrow> nat \<Rightarrow> key list \<Rightarrow> nat \<Rightarrow> 's \<Rightarrow>
    (T2Result option \<times> 's) option" where
  "t2_scan ix clk name j sortedKeys width s = do {
     let mid = (length sortedKeys - width) div 2;
     startKey \<leftarrow> elem_at sortedKeys (int mid);
     endKey \<leftarrow> elem_at sortedKeys (int mid + int width - 1);
     (r, s1) \<leftarrow> ix_Range ix startKey endKey s;
     (case r of
        Inl e \<Rightarrow> Some (None, s1)
      | Inr it \<Rightarrow> do {
          (xs, it1, s2) \<leftarrow> scan (ix_Iter ix) it s1;
          (_, s3) \<leftarrow> iter_Close (ix_Iter ix) it1 s2;
          let keysRead = length xs;
          Some (Some \<lparr>r2_Index = name, r2_RangeSize = width, r2_KeysRead = keysRead,
            r2_TotalMs = Microseconds (clk_Total clk j),
            r2_OpsPerSec = clk_Rate clk keysRead (clk_Total clk j)\<rparr>, s3)
        })
   }"

fun t2_scans :: "('i, 's) Index \<Rightarrow> clock \<Rightarrow> string \<Rightarrow> nat \<Rightarrow> key list \<Rightarrow> nat list \<Rightarrow> 's \<Rightarrow>
    (T2Result list \<times> 's) option" where
  "t2_scans ix clk name j sortedKeys [] s = Some ([], s)"
| "t2_scans ix clk name j sortedKeys (width # sizes) s = do {
     (row, s1) \<leftarrow> t2_scan ix clk name j sortedKeys width s;
     (rows, s2) \<leftarrow> t2_scans ix clk name (j + 1) sortedKeys sizes s1;
     Some ((case row of None \<Rightarrow> rows | Some x \<Rightarrow> x # rows), s2)
   }"

text \<open>The leaves are counted before the height when the index has both methods.\<close>

definition t2_index :: "('i, 's) Index \<Rightarrow> (int \<Rightarrow> 's \<Rightarrow> 's) \<Rightarrow> ('s \<Rightarrow> (nat option \<times> 's) option) \<Rightarrow>
    ('s \<Rightarrow> (nat option \<times> 's) option) \<Rightarrow> clock \<Rightarrow> string \<Rightarrow> config \<Rightarrow> 'r dataset \<Rightarrow> 's \<Rightarrow>
    ((go_error + T2Result list) \<times> 's) option" where
  "t2_index ix sync height count_leaves clk name cfg ds s = do {
     let sortedKeys = SortedKeys ds;
     (r, s1) \<leftarrow> fillIndex ix sync ds s;
     (case r of
        Inl e \<Rightarrow> do { (_, s2) \<leftarrow> ix_Close ix s1; Some (Inl e, s2) }
      | Inr _ \<Rightarrow> do {
          (_, s2) \<leftarrow> count_leaves s1;
          (_, s3) \<leftarrow> height s2;
          sizes \<leftarrow> t2_sizes (T2MaxSize cfg) (length sortedKeys) (T2StartSize cfg);
          (rows, s4) \<leftarrow> t2_scans ix clk name 0 sortedKeys sizes s3;
          (_, s5) \<leftarrow> ix_Close ix s4;
          Some (Inr rows, s5)
        })
   }"

definition RunBenchmarkT2 :: "('db, 'it) pebble \<Rightarrow> 'r rand \<Rightarrow> (string \<Rightarrow> clock) \<Rightarrow> index_def list \<Rightarrow>
    config \<Rightarrow> (string \<Rightarrow> os_file) \<Rightarrow> (string \<times> (go_error + T2Result list)) list option" where
  "RunBenchmarkT2 P R clk indices cfg files = do {
     ds \<leftarrow> NewDataset R (DatasetSize cfg) (ValueSize cfg) (Seed cfg);
     mapM (\<lambda>d. do {
         let path = DataDir cfg @ ''/'' @ def_Name d @ ''_t2'';
         o1 \<leftarrow> NewFunc P cfg d path (files path);
         (case o1 of
            Inl e \<Rightarrow> Some (def_Name d, Inl e)
          | Inr s \<Rightarrow> do {
              (r, _) \<leftarrow> t2_index (any_index P) any_sync any_height any_leaves (clk (def_Name d))
                (def_Name d) cfg ds s;
              Some (def_Name d, r)
            })
       }) indices
   }"

definition t2_csv :: "(string \<times> (go_error + T2Result list)) list \<Rightarrow> string list list" where
  "t2_csv rs = t2Header # concat (map (row_of (map t2_row)) rs)"

section \<open>T3: write throughput\<close>

text \<open>
  \<open>windowOps\<close> counts the insertions since the last row; a row holds the number of insertions so
  far. An error ends the loop.
\<close>

fun t3_loop :: "('i, 's) Index \<Rightarrow> 'r rand \<Rightarrow> clock \<Rightarrow> string \<Rightarrow> config \<Rightarrow> nat \<Rightarrow> nat \<Rightarrow> nat \<Rightarrow> 'r \<Rightarrow> 's \<Rightarrow>
    (T3Result list \<times> 'r \<times> 's) option" where
  "t3_loop ix R clk name cfg 0 i windowOps r s = Some ([], r, s)"
| "t3_loop ix R clk name cfg (Suc todo) i windowOps r s = do {
     let (key, r1) = rnd_Int63 R r;
     let (val, r2) = rnd_Read R (ValueSize cfg) r1;
     (e, s1) \<leftarrow> ix_Insert ix key (Some val) s;
     (case e of
        Inl _ \<Rightarrow> Some ([], r2, s1)
      | Inr _ \<Rightarrow>
          if windowOps + 1 \<ge> WriteOpsWindow cfg then do {
            (rows, x) \<leftarrow> t3_loop ix R clk name cfg todo (i + 1) 0 r2 s1;
            Some (\<lparr>r3_Index = name, r3_OpCount = i + 1,
              r3_OpsPerSec = clk_Rate clk (windowOps + 1) (clk_Total clk i),
              r3_CumulativeOps = i + 1\<rparr> # rows, x)
          } else t3_loop ix R clk name cfg todo (i + 1) (windowOps + 1) r2 s1)
   }"

definition t3_index :: "('i, 's) Index \<Rightarrow> (int \<Rightarrow> 's \<Rightarrow> 's) \<Rightarrow> 'r rand \<Rightarrow> clock \<Rightarrow> string \<Rightarrow> config \<Rightarrow>
    'r \<Rightarrow> 's \<Rightarrow> (T3Result list \<times> 'r \<times> 's) option" where
  "t3_index ix sync R clk name cfg r s = do {
     (rows, r1, s1) \<leftarrow> t3_loop ix R clk name cfg (WriteOpsTotal cfg) 0 0 r (sync 500 s);
     (_, s2) \<leftarrow> ix_Close ix s1;
     Some (rows, r1, s2)
   }"

text \<open>One generator serves all indexes, so each goes on with the keys after those of the last.\<close>

fun t3_run :: "('db, 'it) pebble \<Rightarrow> 'r rand \<Rightarrow> (string \<Rightarrow> clock) \<Rightarrow> config \<Rightarrow> (string \<Rightarrow> os_file) \<Rightarrow>
    index_def list \<Rightarrow> 'r \<Rightarrow> (string \<times> T3Result list) list option" where
  "t3_run P R clk cfg files [] r = Some []"
| "t3_run P R clk cfg files (d # defs) r = do {
     let path = DataDir cfg @ ''/'' @ def_Name d @ ''_t3'';
     o1 \<leftarrow> NewFunc P cfg d path (files path);
     (case o1 of
        Inl e \<Rightarrow> t3_run P R clk cfg files defs r
      | Inr s \<Rightarrow> do {
          (rows, r1, _) \<leftarrow> t3_index (any_index P) any_sync R (clk (def_Name d)) (def_Name d) cfg r s;
          rest \<leftarrow> t3_run P R clk cfg files defs r1;
          Some ((def_Name d, rows) # rest)
        })
   }"

definition RunBenchmarkT3 :: "('db, 'it) pebble \<Rightarrow> 'r rand \<Rightarrow> (string \<Rightarrow> clock) \<Rightarrow> index_def list \<Rightarrow>
    config \<Rightarrow> (string \<Rightarrow> os_file) \<Rightarrow> (string \<times> T3Result list) list option" where
  "RunBenchmarkT3 P R clk indices cfg files = t3_run P R clk cfg files indices (rnd_New R (Seed cfg))"

definition t3_csv :: "(string \<times> T3Result list) list \<Rightarrow> string list list" where
  "t3_csv rs = t3Header # concat (map (\<lambda>(_, rows). map t3_row rows) rs)"

section \<open>T4 and T5: mixed workloads\<close>

datatype op_type = ReadOp1 | WriteOp1

text \<open>
  One operation draws a number below 100: below the read percentage it looks up a random key of
  the dataset, otherwise it inserts a random key. Every \<open>LogInterval\<close>-th operation is logged;
  an interval of 0 is a division by zero. A dataset without keys has none to draw.
\<close>

definition mixed_op :: "('i, 's) Index \<Rightarrow> 'r rand \<Rightarrow> config \<Rightarrow> nat \<Rightarrow> key list \<Rightarrow> 'r \<Rightarrow> 's \<Rightarrow>
    (op_type \<times> 'r \<times> 's) option" where
  "mixed_op ix R cfg readPercent keys r s =
     (let (decision, r1) = rnd_Intn R 100 r in
      if decision < readPercent then
        if keys = [] then None
        else do {
          let (j, r2) = rnd_Intn R (length keys) r1;
          (_, s1) \<leftarrow> ix_Get ix (keys ! j) s;
          Some (ReadOp1, r2, s1)
        }
      else do {
        let (newKey, r2) = rnd_Int63 R r1;
        let (val, r3) = rnd_Read R (ValueSize cfg) r2;
        (_, s1) \<leftarrow> ix_Insert ix newKey (Some val) s;
        Some (WriteOp1, r3, s1)
      })"

text \<open>
  The loop returns the response times with their types, in order, and the logged operations.
\<close>

fun mixed_loop :: "('i, 's) Index \<Rightarrow> 'r rand \<Rightarrow> clock \<Rightarrow> config \<Rightarrow> nat \<Rightarrow> key list \<Rightarrow> nat \<Rightarrow> nat \<Rightarrow> 'r \<Rightarrow> 's \<Rightarrow>
    ((op_type \<times> int64) list \<times> (nat \<times> int64 \<times> op_type) list \<times> 's) option" where
  "mixed_loop ix R clk cfg readPercent keys 0 i r s = Some ([], [], s)"
| "mixed_loop ix R clk cfg readPercent keys (Suc todo) i r s = do {
     (t, r1, s1) \<leftarrow> mixed_op ix R cfg readPercent keys r s;
     let responetime = clk_Op clk i;
     row \<leftarrow> (if LogInterval cfg = 0 then None
       else Some (if i mod LogInterval cfg = 0 then [(i, responetime, t)] else []));
     (ts, rows, s2) \<leftarrow> mixed_loop ix R clk cfg readPercent keys todo (i + 1) r1 s1;
     Some ((t, responetime) # ts, row @ rows, s2)
   }"

record mixed_result =
  mr_Times :: "(op_type \<times> int64) list"
  mr_Log :: "(nat \<times> int64 \<times> op_type) list"
  mr_Summary :: "MixedSummaryResult list"

definition times_of :: "op_type \<Rightarrow> (op_type \<times> int64) list \<Rightarrow> int64 list" where
  "times_of t ts = map snd (filter (\<lambda>x. fst x = t) ts)"

definition mixed_index :: "('i, 's) Index \<Rightarrow> (int \<Rightarrow> 's \<Rightarrow> 's) \<Rightarrow> 'r rand \<Rightarrow> clock \<Rightarrow> string \<Rightarrow> config \<Rightarrow>
    nat \<Rightarrow> 's \<Rightarrow> ((go_error + mixed_result) \<times> 's) option" where
  "mixed_index ix sync R clk name cfg readPercent s = do {
     ds \<leftarrow> NewDataset R (DatasetSize cfg) (ValueSize cfg) (Seed cfg);
     (e, s1) \<leftarrow> fillIndex ix sync ds s;
     (case e of
        Inl x \<Rightarrow> do { (_, s2) \<leftarrow> ix_Close ix s1; Some (Inl x, s2) }
      | Inr _ \<Rightarrow> do {
          (ts, rows, s2) \<leftarrow> mixed_loop ix R clk cfg readPercent (ds_Keys ds) (MixedOpsTotal cfg) 0
            (rnd_New R (Seed cfg + 2)) (sync 500 s1);
          (_, s3) \<leftarrow> ix_Close ix s2;
          reads \<leftarrow> processStats clk name (times_of ReadOp1 ts) ''read'';
          writes \<leftarrow> processStats clk name (times_of WriteOp1 ts) ''write'';
          Some (Inr \<lparr>mr_Times = ts, mr_Log = rows, mr_Summary = reads @ writes\<rparr>, s3)
        })
   }"

definition RunMixedWorkload :: "('db, 'it) pebble \<Rightarrow> 'r rand \<Rightarrow> (string \<Rightarrow> clock) \<Rightarrow> index_def list \<Rightarrow>
    config \<Rightarrow> nat \<Rightarrow> string \<Rightarrow> (string \<Rightarrow> os_file) \<Rightarrow>
    (string \<times> (go_error + mixed_result)) list option" where
  "RunMixedWorkload P R clk indices cfg readPercent testLabel files =
     mapM (\<lambda>d. do {
         let path = DataDir cfg @ ''/'' @ def_Name d @ ''_'' @ testLabel;
         o1 \<leftarrow> NewFunc P cfg d path (files path);
         (case o1 of
            Inl e \<Rightarrow> Some (def_Name d, Inl e)
          | Inr s \<Rightarrow> do {
              (r, _) \<leftarrow> mixed_index (any_index P) any_sync R (clk (def_Name d)) (def_Name d) cfg
                readPercent s;
              Some (def_Name d, r)
            })
       }) indices"

text \<open>The log and the summary file.\<close>

fun type_name :: "op_type \<Rightarrow> string" where
  "type_name ReadOp1 = ''read''"
| "type_name WriteOp1 = ''write''"

definition mixed_row :: "string \<Rightarrow> nat \<times> int64 \<times> op_type \<Rightarrow> string list" where
  "mixed_row name row = (case row of (i, responetime, t) \<Rightarrow>
     [name, show_nat i, FormatInt responetime, type_name t])"

definition mixed_csv :: "(string \<times> (go_error + mixed_result)) list \<Rightarrow> string list list" where
  "mixed_csv rs = mixedHeader # concat (map (\<lambda>r. row_of (\<lambda>x. map (mixed_row (fst r)) (mr_Log x)) r) rs)"

definition mixed_summary_csv :: "(string \<times> (go_error + mixed_result)) list \<Rightarrow> string list list" where
  "mixed_summary_csv rs =
     mixedSummaryHeader # concat (map (row_of (\<lambda>x. map mixed_summary_row (mr_Summary x))) rs)"

definition RunBenchmarkT4 :: "('db, 'it) pebble \<Rightarrow> 'r rand \<Rightarrow> (string \<Rightarrow> clock) \<Rightarrow> index_def list \<Rightarrow>
    config \<Rightarrow> (string \<Rightarrow> os_file) \<Rightarrow> (string \<times> (go_error + mixed_result)) list option" where
  "RunBenchmarkT4 P R clk indices cfg = RunMixedWorkload P R clk indices cfg 95 ''T4''"

definition RunBenchmarkT5 :: "('db, 'it) pebble \<Rightarrow> 'r rand \<Rightarrow> (string \<Rightarrow> clock) \<Rightarrow> index_def list \<Rightarrow>
    config \<Rightarrow> (string \<Rightarrow> os_file) \<Rightarrow> (string \<times> (go_error + mixed_result)) list option" where
  "RunBenchmarkT5 P R clk indices cfg = RunMixedWorkload P R clk indices cfg 5 ''T5''"

text \<open>Each test has clock readings of its own.\<close>

definition RunBenchmarks :: "('db, 'it) pebble \<Rightarrow> 'r rand \<Rightarrow> (string \<Rightarrow> string \<Rightarrow> clock) \<Rightarrow> config \<Rightarrow>
    (string \<Rightarrow> os_file) \<Rightarrow> ((string \<times> (go_error + mixed_result)) list \<times>
     (string \<times> (go_error + mixed_result)) list) option" where
  "RunBenchmarks P R clk cfg files = do {
     r4 \<leftarrow> RunBenchmarkT4 P R (clk ''T4'') Indexes cfg files;
     r5 \<leftarrow> RunBenchmarkT5 P R (clk ''T5'') Indexes cfg files;
     Some (r4, r5)
   }"

end
