(* ===== verification/HarnessSpec.thy ===== *)
theory HarnessSpec
  imports Harness
begin

text \<open>
  The benchmark runs do what they are meant to measure: on indexes that keep the contract, every
  point query of T1 finds its key, every scan of T2 reads as many keys as its size says, and
  T3, T4 and T5 run all their operations and log the rows they should.
\<close>

section \<open>Loops\<close>

lemma mapM_all2:
  "(\<And>x. x \<in> set xs \<Longrightarrow> \<exists>y. f x = Some y \<and> Q x y) \<Longrightarrow> \<exists>ys. mapM f xs = Some ys \<and> list_all2 Q xs ys"
proof (induction xs)
  case (Cons x xs)
  obtain y where "f x = Some y" "Q x y" using Cons.prems[of x] by auto
  moreover obtain ys where "mapM f xs = Some ys" "list_all2 Q xs ys" using Cons by auto
  ultimately show ?case by simp
qed simp

lemma ins_entry_last:
  "\<forall>e \<in> set es. sint (fst e) < sint k \<Longrightarrow> ins_entry k v es = es @ [(k, v)]"
  by (induction es) (auto simp: not_less)

lemma fold_ins_ascending:
  "sorted_entries (es @ xs) \<Longrightarrow> fold (\<lambda>e. ins_entry (fst e) (snd e)) xs es = es @ xs"
proof (induction xs arbitrary: es)
  case (Cons x xs)
  have "ins_entry (fst x) (snd x) es = es @ [x]"
    using ins_entry_last[of es "fst x" "snd x"] Cons.prems by (simp add: sorted_entries_append)
  then show ?case using Cons.IH[of "es @ [x]"] Cons.prems by simp
qed simp

section \<open>The dataset in order\<close>

definition dataset_ok :: "nat \<Rightarrow> nat \<Rightarrow> 'r dataset \<Rightarrow> bool" where
  "dataset_ok n l ds \<longleftrightarrow> mset (ds_Keys ds) = mset (key_range n) \<and>
     list_all2 (value_of l) (ds_Keys ds) (ds_Values ds)"

definition dataset_entries :: "'r dataset \<Rightarrow> (key \<times> gobytes) list" where
  "dataset_entries ds = map (\<lambda>i. (ds_Keys ds ! i, Some (ds_Values ds ! i))) (sorted_indices ds)"

lemma sorted_indices_props:
  "sorted (map (\<lambda>i. sint (ds_Keys ds ! i)) (sorted_indices ds))"
  "mset (sorted_indices ds) = mset [0..<length (ds_Keys ds)]"
  by (simp_all add: sorted_indices_def)

lemma dataset_entries_keys:
  assumes ok: "dataset_ok n l ds" and n: "n < 2 ^ 63"
  shows "map fst (dataset_entries ds) = key_range n"
proof -
  let ?k = "\<lambda>i. ds_Keys ds ! i"
  have f: "map fst (dataset_entries ds) = map ?k (sorted_indices ds)"
    by (simp add: dataset_entries_def comp_def)
  have "mset (map ?k (sorted_indices ds)) = mset (map ?k [0..<length (ds_Keys ds)])"
    using sorted_indices_props(2)[of ds] by (simp only: mset_map)
  then have m: "mset (map fst (dataset_entries ds)) = mset (key_range n)"
    using ok unfolding f map_nth by (simp add: dataset_ok_def)
  have "sorted (map sint (map fst (dataset_entries ds)))"
    using sorted_indices_props(1)[of ds] unfolding f by (simp add: comp_def)
  moreover have "sorted (map sint (key_range n))"
    using key_range_sorted[OF n] strict_sorted_iff by blast
  moreover have "mset (map sint (map fst (dataset_entries ds))) = mset (map sint (key_range n))"
    using m by (simp only: mset_map)
  ultimately have "map sint (map fst (dataset_entries ds)) = map sint (key_range n)"
    using properties_for_sort by metis
  moreover have "inj (sint :: key \<Rightarrow> int)" using sint_inject by (auto intro: injI)
  ultimately show ?thesis using inj_map_eq_map by blast
qed

lemma dataset_entries_sorted:
  assumes "dataset_ok n l ds" "n < 2 ^ 63"
  shows "sorted_entries (dataset_entries ds)"
proof -
  have "map (\<lambda>e. sint (fst e)) (dataset_entries ds) = map sint (key_range n)"
    using arg_cong[OF dataset_entries_keys[OF assms], of "map sint"] by (simp add: comp_def)
  then show ?thesis using key_range_sorted[OF assms(2)] by (simp add: sorted_entries_def)
qed

lemma dataset_values:
  assumes ok: "dataset_ok n l ds" and e: "e \<in> set (dataset_entries ds)"
  shows "glen (snd e) = l" "snd e \<noteq> None"
proof -
  have "set (sorted_indices ds) = {0..<length (ds_Keys ds)}"
    using sorted_indices_props(2)[of ds] by (metis atLeast_upt set_mset_mset set_upt)
  then obtain i where i: "i < length (ds_Keys ds)" "e = (ds_Keys ds ! i, Some (ds_Values ds ! i))"
    using e by (auto simp: dataset_entries_def)
  have "value_of l (ds_Keys ds ! i) (ds_Values ds ! i)"
    using ok i(1) by (auto simp: dataset_ok_def list_all2_conv_all_nth)
  then show "glen (snd e) = l" "snd e \<noteq> None" using i(2) by (simp_all add: value_of_def)
qed

lemma key_range_props:
  "length (key_range n) = n"
  "n < 2 ^ 63 \<Longrightarrow> k \<in> set (key_range n) \<Longrightarrow> 0 < sint k \<and> sint k \<le> int n"
  "n < 2 ^ 63 \<Longrightarrow> i < n \<Longrightarrow> sint (key_range n ! i) = int i + 1"
proof -
  show "length (key_range n) = n" by (simp add: key_range_def)
  show nth: "n < 2 ^ 63 \<Longrightarrow> i < n \<Longrightarrow> sint (key_range n ! i) = int i + 1" for i
    using arg_cong[OF key_range_sint, of n "\<lambda>xs. xs ! i"] by (simp add: key_range_def)
  show "n < 2 ^ 63 \<Longrightarrow> k \<in> set (key_range n) \<Longrightarrow> 0 < sint k \<and> sint k \<le> int n"
    using nth by (auto simp: in_set_conv_nth key_range_def)
qed

section \<open>What the runs should write\<close>

text \<open>T2: every scan reads as many keys as its size. T3: the insertions so far, in each row.\<close>

definition t2_rows_ok :: "string \<Rightarrow> nat list \<Rightarrow> T2Result list \<Rightarrow> bool" where
  "t2_rows_ok name ws rows \<longleftrightarrow>
     map (\<lambda>r. (r2_Index r, r2_RangeSize r, r2_KeysRead r)) rows = map (\<lambda>w. (name, w, w)) ws"

definition t3_rows_ok :: "string \<Rightarrow> nat list \<Rightarrow> T3Result list \<Rightarrow> bool" where
  "t3_rows_ok name js rows \<longleftrightarrow>
     map (\<lambda>r. (r3_Index r, r3_OpCount r, r3_CumulativeOps r)) rows = map (\<lambda>j. (name, j, j)) js"

text \<open>
  The insertions that T3 means to perform on an index when the generator is at \<open>r\<close>, and the
  generators it starts with on one index after the other.
\<close>

fun t3_plan :: "'r rand \<Rightarrow> config \<Rightarrow> nat \<Rightarrow> 'r \<Rightarrow> index_op list \<times> 'r" where
  "t3_plan R cfg 0 r = ([], r)"
| "t3_plan R cfg (Suc todo) r =
     (let (key, r1) = rnd_Int63 R r; (val, r2) = rnd_Read R (ValueSize cfg) r1;
        (ops, r3) = t3_plan R cfg todo r2
      in (OInsert key (Some val) # ops, r3))"

fun t3_starts :: "'r rand \<Rightarrow> config \<Rightarrow> nat \<Rightarrow> 'r \<Rightarrow> 'r list" where
  "t3_starts R cfg 0 r = []"
| "t3_starts R cfg (Suc n) r = r # t3_starts R cfg n (snd (t3_plan R cfg (WriteOpsTotal cfg) r))"

lemma inserts_t3_plan: "inserts (fst (t3_plan R cfg n r)) = n"
  by (induction n arbitrary: r) (simp_all add: case_prod_beta Let_def)

text \<open>The log of a mixed workload that starts with operation i: the operations js, as they were.\<close>

definition log_ok :: "(op_type \<times> int64) list \<Rightarrow> nat \<Rightarrow> nat list \<Rightarrow> (nat \<times> int64 \<times> op_type) list \<Rightarrow> bool" where
  "log_ok ts i js rows \<longleftrightarrow>
     rows = map (\<lambda>j. (j, snd (ts ! (j - i)), fst (ts ! (j - i)))) js"

lemma log_ok_Cons:
  assumes "log_ok ts (Suc i) js rows" "\<forall>j \<in> set js. i < j"
  shows "log_ok (t # ts) i js rows"
proof -
  have "j - i = Suc (j - Suc i)" if "j \<in> set js" for j using assms(2) that by auto
  then show ?thesis using assms(1) by (simp add: log_ok_def)
qed

text \<open>
  The types of the operations of a mixed workload: they depend on the generator alone, so that
  all indexes are measured on the same sequence.
\<close>

definition planned_op :: "'r rand \<Rightarrow> config \<Rightarrow> nat \<Rightarrow> key list \<Rightarrow> 'r \<Rightarrow> op_type \<times> 'r" where
  "planned_op R cfg readPercent keys r =
     (let (decision, r1) = rnd_Intn R 100 r in
      if decision < readPercent then (ReadOp1, snd (rnd_Intn R (length keys) r1))
      else (WriteOp1, snd (rnd_Read R (ValueSize cfg) (snd (rnd_Int63 R r1)))))"

fun plan :: "'r rand \<Rightarrow> config \<Rightarrow> nat \<Rightarrow> key list \<Rightarrow> nat \<Rightarrow> 'r \<Rightarrow> op_type list" where
  "plan R cfg readPercent keys 0 r = []"
| "plan R cfg readPercent keys (Suc todo) r =
     (let (t, r1) = planned_op R cfg readPercent keys r in t # plan R cfg readPercent keys todo r1)"

definition workload :: "'r rand \<Rightarrow> config \<Rightarrow> nat \<Rightarrow> op_type list" where
  "workload R cfg readPercent =
     (case NewDataset R (DatasetSize cfg) (ValueSize cfg) (Seed cfg) of None \<Rightarrow> []
      | Some ds \<Rightarrow> plan R cfg readPercent (ds_Keys ds) (MixedOpsTotal cfg) (rnd_New R (Seed cfg + 2)))"

lemma length_plan: "length (plan R cfg p keys n r) = n"
  by (induction n arbitrary: r) (simp_all add: case_prod_beta)

text \<open>
  What a mixed run writes for the workload \<open>ops\<close>: the logged operations with their types and
  response times, and one summary row for every type that occurred.
\<close>

definition mixed_ok :: "clock \<Rightarrow> string \<Rightarrow> config \<Rightarrow> op_type list \<Rightarrow> mixed_result \<Rightarrow> bool" where
  "mixed_ok clk name cfg ops m \<longleftrightarrow>
     mr_Times m = zip ops (map (clk_Op clk) [0..<MixedOpsTotal cfg]) \<and>
     log_ok (mr_Times m) 0 (filter (\<lambda>j. j mod LogInterval cfg = 0) [0..<MixedOpsTotal cfg]) (mr_Log m) \<and>
     map (\<lambda>r. (rm_Index r, rm_OpType r, rm_Count r)) (mr_Summary m) =
       concat (map (\<lambda>t. let n = length (filter (\<lambda>x. x = t) ops) in
         if n = 0 then [] else [(name, type_name t, n)]) [ReadOp1, WriteOp1])"

section \<open>Filling, querying and scanning an index\<close>

context ordered_index
begin

lemma insert_all_spec:
  "holds s es \<Longrightarrow> \<forall>e \<in> set kvs. okk (fst e) \<and> okv (snd e) \<Longrightarrow> length es + length kvs \<le> limit \<Longrightarrow>
   \<exists>s'. insert_all ix kvs s = Some (Inr (), s') \<and>
     holds s' (fold (\<lambda>e. ins_entry (fst e) (snd e)) (map (\<lambda>e. (fst e, stored (snd e))) kvs) es)"
proof (induction kvs arbitrary: s es)
  case (Cons x kvs)
  obtain k v where x: "x = (k, v)" by (cases x)
  have l: "okk k" "okv v" "length es < limit" using Cons.prems x by simp_all
  obtain s1 where I: "ix_Insert ix k v s = Some (Inr (), s1)" "holds s1 (ins_entry k (stored v) es)"
    using insert_law[OF Cons.prems(1) l] by blast
  have "length (ins_entry k (stored v) es) + length kvs \<le> limit"
    using length_ins_entry[of k "stored v" es] Cons.prems(3) by simp
  then show ?case using Cons.IH[OF I(2)] Cons.prems(2) I(1) x by simp
qed simp

lemma fill_spec:
  assumes h: "holds s []" and sync: "\<And>s es n. holds s es \<Longrightarrow> holds (sync n s) es"
    and ds: "dataset_ok n l ds" and n: "n < 2 ^ 63" "n \<le> limit"
    and okk: "\<And>k. 0 \<le> sint k \<Longrightarrow> okk k" and okv: "\<And>v. glen v = l \<Longrightarrow> okv v"
  shows "\<exists>s'. fillIndex ix sync ds s = Some (Inr (), s') \<and>
    holds s' (map (\<lambda>e. (fst e, stored (snd e))) (dataset_entries ds))"
proof -
  let ?es = "dataset_entries ds"
  have "mapM (\<lambda>i. if i < length (ds_Values ds) then Some (ds_Keys ds ! i, Some (ds_Values ds ! i)) else None)
      (sorted_indices ds) = Some ?es"
    unfolding dataset_entries_def
  proof (rule mapM_Some, rule ballI)
    fix i assume "i \<in> set (sorted_indices ds)"
    then have "i < length (ds_Keys ds)"
      using sorted_indices_props(2)[of ds] by (metis atLeastLessThan_iff atLeast_upt set_mset_mset set_upt)
    then show "(if i < length (ds_Values ds) then Some (ds_Keys ds ! i, Some (ds_Values ds ! i)) else None) =
        Some (ds_Keys ds ! i, Some (ds_Values ds ! i))"
      using ds list_all2_lengthD[of "value_of l" "ds_Keys ds" "ds_Values ds"] by (simp add: dataset_ok_def)
  qed
  moreover have "\<forall>e \<in> set ?es. okk (fst e) \<and> okv (snd e)"
  proof
    fix e assume e: "e \<in> set ?es"
    have "fst e \<in> set (key_range n)" using dataset_entries_keys[OF ds n(1)] e by (metis imageI list.set_map)
    then have "0 \<le> sint (fst e)" using key_range_props(2)[OF n(1)] by fastforce
    then show "okk (fst e) \<and> okv (snd e)" using okk okv dataset_values(1)[OF ds e] by blast
  qed
  moreover have "length ?es = n"
    using arg_cong[OF dataset_entries_keys[OF ds n(1)], of length] key_range_props(1)[of n] by simp
  moreover have "sorted_entries ([] @ map (\<lambda>e. (fst e, stored (snd e))) ?es)"
    using dataset_entries_sorted[OF ds n(1)] by (simp add: sorted_entries_def comp_def)
  ultimately show ?thesis
    using insert_all_spec[OF sync[OF h], of ?es 0]
      fold_ins_ascending[of "[]" "map (\<lambda>e. (fst e, stored (snd e))) ?es"] n(2)
    by (simp add: fillIndex_def)
qed

lemma point_queries_found:
  "holds s es \<Longrightarrow> \<forall>k \<in> set ks. okk k \<and> (\<exists>v. map_of es k = Some (Some v)) \<Longrightarrow>
   \<exists>s'. point_queries ix ks s = Some (replicate (length ks) QueryFound, s') \<and> holds s' es"
proof (induction ks arbitrary: s)
  case (Cons k ks)
  then obtain v where k: "okk k" "map_of es k = Some (Some v)" by auto
  obtain s1 where "ix_Get ix k s = Some (Inr (Some v), s1)" "holds s1 es"
    using get_law[OF Cons.prems(1) k(1)] k(2) by auto
  then show ?case using Cons.IH[of s1] Cons.prems(2) by auto
qed simp

lemma scan_law:
  assumes h: "holds s es" and ab: "okr a b"
  shows "\<exists>it s1 it' s2. ix_Range ix a b s = Some (Inr it, s1) \<and>
    scan (ix_Iter ix) it s1 = Some (range_entries a b es, it', s2) \<and> holds s2 es"
proof -
  obtain it s1 rem where R: "ix_Range ix a b s = Some (Inr it, s1)" "holds s1 es" "pending it s1 rem"
    "mset rem = mset (range_entries a b es)"
    using range_law[OF h ab] by blast
  have rem: "rem = range_entries a b es"
    using sorted_entries_mset[OF pending_sorted[OF R(3)] range_entries_sorted[OF holds_sorted[OF h]] R(4)] .
  obtain it' s2 where "scan (ix_Iter ix) it s1 = Some (rem, it', s2)" "same s1 s2"
    using scan_pending[OF R(3)] by blast
  then show ?thesis using R(1,2) holds_same rem by blast
qed

text \<open>A window of the sorted keys: the scan between its first and last key reads all of it.\<close>

lemma range_window:
  assumes es: "sorted_entries es" and i: "i + w \<le> length es" "0 < w"
  shows "length (range_entries (fst (es ! i)) (fst (es ! (i + w - 1))) es) = w"
proof -
  have mono: "sint (fst (es ! a)) < sint (fst (es ! b))" if "a < b" "b < length es" for a b
    using sorted_wrt_nth_less[OF es[unfolded sorted_entries_def] that(1)] that by simp
  have le: "sint (fst (es ! a)) \<le> sint (fst (es ! b)) \<longleftrightarrow> a \<le> b" if "a < length es" "b < length es" for a b
    using mono[of a b] mono[of b a] that by (cases a b rule: linorder_cases) auto
  have "length (range_entries (fst (es ! i)) (fst (es ! (i + w - 1))) es) =
      card {j. j < length es \<and> sint (fst (es ! i)) \<le> sint (fst (es ! j)) \<and>
        sint (fst (es ! j)) \<le> sint (fst (es ! (i + w - 1)))}"
    unfolding range_entries_def by (rule length_filter_conv_card)
  also have "{j. j < length es \<and> sint (fst (es ! i)) \<le> sint (fst (es ! j)) \<and>
        sint (fst (es ! j)) \<le> sint (fst (es ! (i + w - 1)))} = {i..<i + w}"
    using i le by auto
  finally show ?thesis by simp
qed

end

section \<open>The sizes of T2\<close>

lemma t2_sizes_spec:
  "0 < s \<Longrightarrow> \<exists>k. t2_sizes maxSize n s = Some (map (\<lambda>i. s * 2 ^ i) [0..<k]) \<and>
    (\<forall>i. i < k \<longleftrightarrow> s * 2 ^ i \<le> min maxSize n)"
proof (induction "Suc n - s" arbitrary: s rule: less_induct)
  case less
  show ?case
  proof (cases "s \<le> maxSize \<and> s \<le> n")
    case True
    have "Suc n - s * 2 < Suc n - s" "0 < s * 2" using True less.prems by auto
    from less.hyps[OF this] obtain k where
      k: "t2_sizes maxSize n (s * 2) = Some (map (\<lambda>i. s * 2 * 2 ^ i) [0..<k])"
      "\<And>i. i < k \<longleftrightarrow> s * 2 * 2 ^ i \<le> min maxSize n" by blast
    have "t2_sizes maxSize n s = Some (map (\<lambda>i. s * 2 ^ i) [0..<Suc k])"
      using True k(1) unfolding upt_conv_Cons[OF zero_less_Suc]
      by (subst t2_sizes.simps) (simp add: map_Suc_upt[symmetric] mult.assoc del: upt_Suc)
    moreover have "i < Suc k \<longleftrightarrow> s * 2 ^ i \<le> min maxSize n" for i
      using k(2)[of "i - 1"] True by (cases i) (simp_all add: mult.assoc)
    ultimately show ?thesis by blast
  next
    case False
    have "t2_sizes maxSize n s = Some (map (\<lambda>i. s * 2 ^ i) [0..<0])"
      using False by (subst t2_sizes.simps) auto
    moreover have "\<not> s * 2 ^ i \<le> min maxSize n" for i :: nat
    proof -
      have "s * 1 \<le> s * 2 ^ i" by (intro mult_le_mono2) simp
      then show ?thesis using False by (metis le_trans min.bounded_iff mult.right_neutral)
    qed
    ultimately show ?thesis by (intro exI[of _ 0]) simp
  qed
qed

lemma t2_sizes_ends:
  "0 < s \<Longrightarrow> \<exists>xs. t2_sizes maxSize n s = Some xs \<and> (\<forall>x \<in> set xs. 0 < x \<and> x \<le> n)"
  using t2_sizes_spec[of s maxSize n] by auto

lemma t2_sizes_zero: "t2_sizes maxSize n 0 = None"
proof -
  have "s \<noteq> 0" if "t2_sizes m k s = Some xs" for m k s xs
    by (rule t2_sizes.raw_induct[where P = "\<lambda>m k s xs. s \<noteq> 0", OF _ that])
      (auto split: if_splits bind_splits, fastforce)
  then show ?thesis by (metis option.exhaust)
qed

context ordered_index
begin

lemma t2_scan_spec:
  assumes h: "holds s es" and keys: "map fst es = ks" and w: "0 < w" "w \<le> length ks"
    and okr: "\<And>a b. a \<in> set ks \<Longrightarrow> b \<in> set ks \<Longrightarrow> okr a b"
    and close: "\<And>it s. \<exists>r. iter_Close (ix_Iter ix) it s = Some (r, s)"
  shows "\<exists>row s'. t2_scan ix clk name j ks w s = Some (Some row, s') \<and> t2_rows_ok name [w] [row] \<and>
    holds s' es"
proof -
  let ?m = "(length ks - w) div 2"
  have m: "?m + w \<le> length ks" using w by linarith
  then have b: "?m < length ks" "?m + w - 1 < length ks" using w by simp_all
  have l: "length es = length ks" using keys by auto
  have k: "ks ! i = fst (es ! i)" if "i < length ks" for i using keys that by auto
  have ab: "okr (ks ! ?m) (ks ! (?m + w - 1))" using okr b by simp
  obtain it s1 it' s2 where S: "ix_Range ix (ks ! ?m) (ks ! (?m + w - 1)) s = Some (Inr it, s1)"
    "scan (ix_Iter ix) it s1 = Some (range_entries (ks ! ?m) (ks ! (?m + w - 1)) es, it', s2)" "holds s2 es"
    using scan_law[OF h ab] by blast
  have n: "length (range_entries (ks ! ?m) (ks ! (?m + w - 1)) es) = w"
    unfolding k[OF b(1)] k[OF b(2)]
    by (rule range_window[OF holds_sorted[OF h]]) (use m l w in simp_all)
  obtain r where C: "iter_Close (ix_Iter ix) it' s2 = Some (r, s2)" using close by blast
  have i: "int ?m + int w - 1 = int (?m + w - 1)" using w by linarith
  have E: "elem_at ks (int ?m) = Some (ks ! ?m)"
    "elem_at ks (int ?m + int w - 1) = Some (ks ! (?m + w - 1))"
    by (rule elem_at_simps(1)[OF b(1)]) (unfold i, rule elem_at_simps(1)[OF b(2)])
  let ?row = "\<lparr>r2_Index = name, r2_RangeSize = w, r2_KeysRead = w,
    r2_TotalMs = Microseconds (clk_Total clk j), r2_OpsPerSec = clk_Rate clk w (clk_Total clk j)\<rparr>"
  have "t2_scan ix clk name j ks w s = Some (Some ?row, s2)"
    by (simp only: t2_scan_def Let_def E S(1,2) C n bind.simps sum.case prod.case)
  moreover have "t2_rows_ok name [w] [?row]" by (simp add: t2_rows_ok_def)
  ultimately show ?thesis using S(3) by blast
qed

lemma t2_scans_spec:
  assumes keys: "map fst es = ks" and okr: "\<And>a b. a \<in> set ks \<Longrightarrow> b \<in> set ks \<Longrightarrow> okr a b"
    and close: "\<And>it s. \<exists>r. iter_Close (ix_Iter ix) it s = Some (r, s)"
  shows "holds s es \<Longrightarrow> \<forall>w \<in> set ws. 0 < w \<and> w \<le> length ks \<Longrightarrow>
    \<exists>rows s'. t2_scans ix clk name j ks ws s = Some (rows, s') \<and> t2_rows_ok name ws rows \<and> holds s' es"
proof (induction ws arbitrary: s j)
  case (Cons w ws)
  obtain row s1 where 1: "t2_scan ix clk name j ks w s = Some (Some row, s1)"
    "t2_rows_ok name [w] [row]" "holds s1 es"
  proof -
    have "0 < w" "w \<le> length ks" using Cons.prems(2) by simp_all
    from t2_scan_spec[OF Cons.prems(1) keys this okr close, of clk name j] show thesis
      using that by blast
  qed
  obtain rows s2 where "t2_scans ix clk name (j + 1) ks ws s1 = Some (rows, s2)"
    "t2_rows_ok name ws rows" "holds s2 es"
  proof -
    have "\<forall>w \<in> set ws. 0 < w \<and> w \<le> length ks" using Cons.prems(2) by simp
    from Cons.IH[OF 1(3) this, of "j + 1"] show thesis using that by blast
  qed
  then show ?case using 1 by (auto simp: t2_rows_ok_def)
qed (simp add: t2_rows_ok_def)

text \<open>
  T3 performs the planned insertions, and writes a row after every \<open>window\<close> of them with the
  number so far.
\<close>

lemma t3_loop_rows:
  assumes R: "rand_ok R" and okk: "\<And>k. 0 \<le> sint k \<Longrightarrow> okk k"
    and okv: "\<And>v. glen v = ValueSize cfg \<Longrightarrow> okv v"
  defines "W \<equiv> max 1 (WriteOpsWindow cfg)"
  shows "holds s es \<Longrightarrow> length es + todo \<le> limit \<Longrightarrow> wo < W \<Longrightarrow>
    \<exists>rows s'. t3_loop ix R clk name cfg todo i wo r s = Some (rows, snd (t3_plan R cfg todo r), s') \<and>
      t3_rows_ok name (filter (\<lambda>j. (j - i + wo) mod W = 0) [i + 1..<i + 1 + todo]) rows \<and>
      holds s' (spec_final stored (fst (t3_plan R cfg todo r)) es)"
proof (induction todo arbitrary: i wo r s es)
  case (Suc todo)
  obtain key r1 where k: "rnd_Int63 R r = (key, r1)" by fastforce
  obtain v r2 where v: "rnd_Read R (ValueSize cfg) r1 = (v, r2)" by fastforce
  have kv: "okk key" "okv (Some v)" "length es < limit"
    using okk[of key] okv[of "Some v"] R k v Suc.prems(2) unfolding rand_ok_def
    by (metis fst_conv, metis fst_conv glen_simps(2), simp)
  let ?es = "ins_entry key (stored (Some v)) es"
  obtain s1 where I: "ix_Insert ix key (Some v) s = Some (Inr (), s1)" "holds s1 ?es"
    using insert_law[OF Suc.prems(1) kv] by blast
  let ?q = "t3_plan R cfg todo r2"
  have plan: "t3_plan R cfg (Suc todo) r = (OInsert key (Some v) # fst ?q, snd ?q)"
    using k v by (simp add: case_prod_beta)
  then have final: "spec_final stored (fst (t3_plan R cfg (Suc todo) r)) es = spec_final stored (fst ?q) ?es"
    "snd (t3_plan R cfg (Suc todo) r) = snd ?q"
    by (simp_all add: spec_final_def)
  have len: "length ?es + todo \<le> limit"
    using length_ins_entry[of key "stored (Some v)" es] Suc.prems(2) by simp
  let ?js = "\<lambda>i wo todo. filter (\<lambda>j. (j - i + wo) mod W = 0) [i + 1..<i + 1 + todo]"
  have range: "?js i wo (Suc todo) = (if (wo + 1) mod W = 0 then [i + 1] else []) @
      filter (\<lambda>j. (j - i + wo) mod W = 0) [(i + 1) + 1..<(i + 1) + 1 + todo]"
  proof -
    have u: "[i + 1..<i + 1 + Suc todo] = (i + 1) # [(i + 1) + 1..<(i + 1) + 1 + todo]"
      by (simp add: upt_conv_Cons)
    have e: "i + 1 - i + wo = wo + 1" by simp
    show ?thesis by (cases "(wo + 1) mod W = 0") (simp_all only: u e filter.simps append.simps if_True if_False simp_thms)
  qed
  have shift: "?js (i + 1) wo' todo = filter (\<lambda>j. (j - i + wo) mod W = 0) [(i + 1) + 1..<(i + 1) + 1 + todo]"
    if "wo' = wo + 1 \<or> wo' = 0 \<and> wo + 1 = W" for wo'
  proof (rule filter_cong[OF refl])
    fix j assume "j \<in> set [(i + 1) + 1..<(i + 1) + 1 + todo]"
    then have e: "j - i + wo = (j - (i + 1)) + (wo + 1)" by auto
    show "((j - (i + 1) + wo') mod W = 0) = ((j - i + wo) mod W = 0)"
      using that
    proof
      assume "wo' = wo + 1"
      then show ?thesis unfolding e by simp
    next
      assume "wo' = 0 \<and> wo + 1 = W"
      then have w: "wo' = 0" "wo + 1 = W" by simp_all
      show ?thesis unfolding e w by (simp only: add_0_right mod_add_self2)
    qed
  qed
  show ?case
  proof (cases "wo + 1 \<ge> WriteOpsWindow cfg")
    case True
    then have w: "wo + 1 = W" using Suc.prems(3) by (auto simp: W_def)
    have "0 < W" by (simp add: W_def)
    from Suc.IH[OF I(2) len this, of "i + 1" r2] obtain rows s' where
      L: "t3_loop ix R clk name cfg todo (i + 1) 0 r2 s1 = Some (rows, snd ?q, s')"
      "t3_rows_ok name (?js (i + 1) 0 todo) rows" "holds s' (spec_final stored (fst ?q) ?es)" by blast
    let ?row = "\<lparr>r3_Index = name, r3_OpCount = i + 1,
      r3_OpsPerSec = clk_Rate clk (wo + 1) (clk_Total clk i), r3_CumulativeOps = i + 1\<rparr>"
    have "t3_loop ix R clk name cfg (Suc todo) i wo r s = Some (?row # rows, snd ?q, s')"
      using k v I(1) True L(1) by simp
    moreover have "t3_rows_ok name (?js i wo (Suc todo)) (?row # rows)"
      using L(2) w unfolding range shift[of 0, OF disjI2, OF conjI[OF refl w]] by (simp add: t3_rows_ok_def)
    ultimately show ?thesis using L(3) unfolding final by blast
  next
    case False
    then have w: "wo + 1 < W" by (auto simp: W_def)
    from Suc.IH[OF I(2) len this, of "i + 1" r2] obtain rows s' where
      L: "t3_loop ix R clk name cfg todo (i + 1) (wo + 1) r2 s1 = Some (rows, snd ?q, s')"
      "t3_rows_ok name (?js (i + 1) (wo + 1) todo) rows" "holds s' (spec_final stored (fst ?q) ?es)" by blast
    have "t3_loop ix R clk name cfg (Suc todo) i wo r s = Some (rows, snd ?q, s')"
      using k v I(1) False L(1) by simp
    moreover have "t3_rows_ok name (?js i wo (Suc todo)) rows"
      using L(2) w unfolding range shift[of "wo + 1", OF disjI1, OF refl] by simp
    ultimately show ?thesis using L(3) unfolding final by blast
  qed
qed (auto simp: t3_rows_ok_def spec_final_def)

text \<open>The mixed workload never stops early, and logs the operations at multiples of the interval.\<close>

lemma mixed_op_spec:
  assumes R: "rand_ok R" and h: "holds s es" and room: "length es < limit"
    and okk: "\<And>k. 0 \<le> sint k \<Longrightarrow> okk k" and okv: "\<And>v. glen v = ValueSize cfg \<Longrightarrow> okv v"
    and keys: "keys \<noteq> []" "\<forall>k \<in> set keys. okk k"
  shows "\<exists>s' es'. mixed_op ix R cfg p keys r s =
      Some (fst (planned_op R cfg p keys r), snd (planned_op R cfg p keys r), s') \<and> holds s' es' \<and>
    length es' \<le> Suc (length es)"
proof -
  obtain d r1 where d: "rnd_Intn R 100 r = (d, r1)" by fastforce
  show ?thesis
  proof (cases "d < p")
    case True
    obtain j r2 where j: "rnd_Intn R (length keys) r1 = (j, r2)" by fastforce
    have "j < length keys" using R j keys(1) unfolding rand_ok_def by (metis fst_conv length_greater_0_conv)
    then have "okk (keys ! j)" using keys(2) by simp
    then obtain x s1 where "ix_Get ix (keys ! j) s = Some (x, s1)" "holds s1 es"
      using get_law[OF h] by blast
    then show ?thesis using d j True keys(1) by (auto simp: mixed_op_def planned_op_def)
  next
    case False
    obtain k r2 where k: "rnd_Int63 R r1 = (k, r2)" by fastforce
    obtain v r3 where v: "rnd_Read R (ValueSize cfg) r2 = (v, r3)" by fastforce
    have kv: "okk k" "okv (Some v)"
      using okk[of k] okv[of "Some v"] R k v unfolding rand_ok_def
      by (metis fst_conv, metis fst_conv glen_simps(2))
    obtain s1 where "ix_Insert ix k (Some v) s = Some (Inr (), s1)" "holds s1 (ins_entry k (stored (Some v)) es)"
      using insert_law[OF h kv room] by blast
    then show ?thesis using d k v False length_ins_entry[of k "stored (Some v)" es]
      by (auto simp: mixed_op_def planned_op_def Let_def)
  qed
qed

lemma mixed_loop_spec:
  assumes R: "rand_ok R" and okk: "\<And>k. 0 \<le> sint k \<Longrightarrow> okk k"
    and okv: "\<And>v. glen v = ValueSize cfg \<Longrightarrow> okv v"
    and keys: "keys \<noteq> []" "\<forall>k \<in> set keys. okk k" and log: "0 < LogInterval cfg"
  shows "holds s es \<Longrightarrow> length es + todo \<le> limit \<Longrightarrow>
    \<exists>ts rows s' es'. mixed_loop ix R clk cfg p keys todo i r s = Some (ts, rows, s') \<and>
      ts = zip (plan R cfg p keys todo r) (map (clk_Op clk) [i..<i + todo]) \<and>
      log_ok ts i (filter (\<lambda>j. j mod LogInterval cfg = 0) [i..<i + todo]) rows \<and> holds s' es'"
proof (induction todo arbitrary: i r s es)
  case (Suc todo)
  obtain t r1 where t: "planned_op R cfg p keys r = (t, r1)" by fastforce
  obtain s1 es1 where O: "mixed_op ix R cfg p keys r s = Some (t, r1, s1)" "holds s1 es1"
    "length es1 \<le> Suc (length es)"
  proof -
    have "length es < limit" using Suc.prems(2) by simp
    from mixed_op_spec[where cfg = cfg, OF R Suc.prems(1) this okk okv keys, of p r] show thesis
      using that t by auto
  qed
  let ?js = "\<lambda>i n. filter (\<lambda>j. j mod LogInterval cfg = 0) [i..<n]"
  obtain ts rows s' es' where L: "mixed_loop ix R clk cfg p keys todo (i + 1) r1 s1 = Some (ts, rows, s')"
    "ts = zip (plan R cfg p keys todo r1) (map (clk_Op clk) [i + 1..<i + 1 + todo])"
    "log_ok ts (i + 1) (?js (i + 1) (i + 1 + todo)) rows" "holds s' es'"
    using Suc.IH[OF O(2), of "i + 1" r1] O(3) Suc.prems(2) by auto
  let ?t = "(t, clk_Op clk i)"
  let ?row = "if i mod LogInterval cfg = 0 then [(i, clk_Op clk i, t)] else []"
  have run: "mixed_loop ix R clk cfg p keys (Suc todo) i r s = Some (?t # ts, ?row @ rows, s')"
    using O(1) L(1) log by (simp add: Let_def)
  have range: "[i..<i + Suc todo] = i # [i + 1..<i + 1 + todo]" by (simp add: upt_conv_Cons)
  have l: "log_ok (?t # ts) i (?js (i + 1) (i + 1 + todo)) rows"
    using L(3) by (intro log_ok_Cons) auto
  have "log_ok (?t # ts) i (?js i (i + Suc todo)) (?row @ rows)"
    using l unfolding range by (simp add: log_ok_def)
  moreover have "?t # ts = zip (plan R cfg p keys (Suc todo) r) (map (clk_Op clk) [i..<i + Suc todo])"
    using L(2) t unfolding range by simp
  ultimately show ?case using run L(4) by blast
qed (auto simp: log_ok_def)

end

section \<open>The runs on the registry's indexes\<close>

definition bench_ok :: "'r rand \<Rightarrow> index_def list \<Rightarrow> config \<Rightarrow> (string \<Rightarrow> os_file) \<Rightarrow> bool" where
  "bench_ok R indices cfg files \<longleftrightarrow> rand_ok R \<and> 8 \<le> ValueSize cfg \<and>
     (\<forall>d \<in> set indices. kind_fits (ValueSize cfg) (def_Kind d)) \<and> (\<forall>path. empty_tree_file (files path))"

text \<open>
  What T3 does on one index, starting at generator \<open>r\<close>: it opens the index, writes the rows of the
  full windows, and leaves the index, before it closes it, holding the planned insertions: any
  operations from then on answer like the entry list after them.
\<close>

definition t3_complete :: "('db, 'it) pebble \<Rightarrow> 'r rand \<Rightarrow> clock \<Rightarrow> config \<Rightarrow> (string \<Rightarrow> os_file) \<Rightarrow>
    index_op list \<Rightarrow> index_def \<Rightarrow> 'r \<Rightarrow> T3Result list \<Rightarrow> bool" where
  "t3_complete P R clk cfg files ops d r rows \<longleftrightarrow>
     (let path = DataDir cfg @ ''/'' @ def_Name d @ ''_t3''; (planned, r') = t3_plan R cfg (WriteOpsTotal cfg) r in
      t3_rows_ok (def_Name d) (filter (\<lambda>j. j mod max 1 (WriteOpsWindow cfg) = 0) [1..<WriteOpsTotal cfg + 1]) rows \<and>
      (\<exists>s s1 x s2 s3. NewFunc P cfg d path (files path) = Some (Inr s) \<and>
         t3_loop (any_index P) R clk (def_Name d) cfg (WriteOpsTotal cfg) 0 0 r (any_sync 500 s) = Some (rows, r', s1) \<and>
         any_Close P s1 = Some (x, s2) \<and>
         run_ops (any_index P) ops s1 = Some (spec_run trimmed (Inr None) ops (spec_final trimmed planned []), s3)))"

lemma entry_limit_63: "n \<le> entry_limit \<Longrightarrow> n < 2 ^ 63"
  by (simp add: entry_limit_def)

lemma NewDataset_ok:
  assumes "rand_ok R" "8 \<le> l"
  obtains ds where "NewDataset R n l seed = Some ds" "dataset_ok n l ds"
  using NewDataset_spec[OF assms, of n seed] by (auto simp: dataset_ok_def)

lemma RandomKeys_spec:
  assumes R: "rand_ok R" and ds: "dataset_ok n l ds" and m: "m \<le> n"
  obtains ks ds' where "RandomKeys R m ds = Some (ks, ds')" "dataset_ok n l ds'" "length ks = m"
    "set ks \<subseteq> set (key_range n)"
proof -
  have "length (ds_Keys ds) = n" "set (ds_Keys ds) = set (key_range n)"
    using ds key_range_props(1)[of n] by (metis dataset_ok_def size_mset, metis dataset_ok_def set_mset_mset)
  then have len: "m \<le> length (ds_Keys ds)" and keys: "set (ds_Keys ds) = set (key_range n)"
    using m by simp_all
  show thesis
  proof (rule RandomKeys_sample[OF R len])
    fix ks d'
    assume "RandomKeys R m ds = Some (ks, d')" "length ks = m" "set ks \<subseteq> set (ds_Keys ds)"
      "ds_Keys d' = ds_Keys ds" "ds_Values d' = ds_Values ds"
    then show thesis using that[of ks d'] ds keys by (simp add: dataset_ok_def)
  qed
qed

lemma dataset_lookup:
  assumes ds: "dataset_ok n l ds" and n: "n < 2 ^ 63" and k: "k \<in> set (key_range n)"
  shows "0 \<le> sint k \<and> (\<exists>v. map_of (map (\<lambda>e. (fst e, trimmed (snd e))) (dataset_entries ds)) k = Some (Some v))"
proof -
  let ?es = "map (\<lambda>e. (fst e, trimmed (snd e))) (dataset_entries ds)"
  have "map fst ?es = map fst (dataset_entries ds)" by (simp add: comp_def)
  then have "k \<in> set (map fst ?es)" using k dataset_entries_keys[OF ds n] by metis
  then have "map_of ?es k \<noteq> None"
    using list.set_map[of fst ?es] map_of_eq_None_iff[of ?es k] by argo
  then obtain w where w: "map_of ?es k = Some w" by blast
  from map_of_SomeD[OF this] have "\<exists>v. w = Some v" by (auto simp: trimmed_def)
  then show ?thesis using w key_range_props(2)[OF n k] by auto
qed

context pebble_store
begin

lemma any_close_ok: "any_holds l s es \<Longrightarrow> \<exists>r s'. any_Close P s = Some (r, s')"
proof (cases s)
  case (StBTree t)
  assume "any_holds l s es"
  then obtain ps where "btt.holds l ps t es" using StBTree by auto
  from btd.close_law[OF this] show ?thesis using StBTree by (auto simp: lift_def)
next
  case (StBPTree t)
  assume "any_holds l s es"
  then obtain ps where "bpt.holds l ps t es" using StBPTree by auto
  from bpd.close_law[OF this] show ?thesis using StBPTree by (auto simp: lift_def)
qed (auto simp: lift_def)

lemma any_iter_close: "\<exists>r. iter_Close (any_iterator P) it s = Some (r, s)"
  by (cases it) (simp_all add: any_iterator_def)

lemma any_fill:
  assumes h: "any_holds l s []" and ds: "dataset_ok n l ds" and n: "n \<le> entry_limit"
  shows "\<exists>s'. fillIndex (any_index P) any_sync ds s = Some (Inr (), s') \<and>
    any_holds l s' (map (\<lambda>e. (fst e, trimmed (snd e))) (dataset_entries ds))"
  by (rule anyi.fill_spec[OF h any_sync_holds ds entry_limit_63[OF n] n]) (simp_all add: lsm_key_def)

lemma t1_any:
  assumes h: "any_holds l s []" and ds: "dataset_ok n l ds" and n: "n \<le> entry_limit"
    and ks: "set ks \<subseteq> set (key_range n)" "ks \<noteq> []"
  shows "\<exists>row s'. t1_index (any_index P) any_sync any_height clk name cfg ds ks s =
    Some (Inr (replicate (length ks) QueryFound, row), s') \<and>
    t1_result clk name (DatasetSize cfg) (PointQueryCount cfg) (map (clk_Op clk) [0..<length ks]) = Some row"
proof -
  let ?es = "map (\<lambda>e. (fst e, trimmed (snd e))) (dataset_entries ds)"
  obtain s1 where F: "fillIndex (any_index P) any_sync ds s = Some (Inr (), s1)" "any_holds l s1 ?es"
    using any_fill[OF h ds n] by blast
  obtain x s2 where H: "any_height s1 = Some (x, s2)" "any_holds l s2 ?es"
    using any_height_holds[OF F(2)] by blast
  have "\<forall>k \<in> set ks. lsm_key k \<and> (\<exists>v. map_of ?es k = Some (Some v))"
    using dataset_lookup[OF ds entry_limit_63[OF n]] ks unfolding lsm_key_def by blast
  then obtain s3 where Q: "point_queries (any_index P) ks s2 = Some (replicate (length ks) QueryFound, s3)"
    "any_holds l s3 ?es"
    using anyi.point_queries_found[OF H(2)] by blast
  obtain r s4 where C: "any_Close P s3 = Some (r, s4)" using any_close_ok[OF Q(2)] by blast
  obtain row where T: "t1_result clk name (DatasetSize cfg) (PointQueryCount cfg)
      (map (clk_Op clk) [0..<length ks]) = Some row"
    by (rule t1_result_spec[of "map (clk_Op clk) [0..<length ks]"]) (use ks(2) in auto)
  then show ?thesis using F(1) H(1) Q(1) C by (simp add: t1_index_def)
qed

lemma t2_any:
  assumes h: "any_holds l s []" and ds: "dataset_ok n l ds" and n: "n \<le> entry_limit"
    and sizes: "t2_sizes (T2MaxSize cfg) n (T2StartSize cfg) = Some ws" "0 < T2StartSize cfg"
  shows "\<exists>rows s'. t2_index (any_index P) any_sync any_height any_leaves clk name cfg ds s =
    Some (Inr rows, s') \<and> t2_rows_ok name ws rows"
proof -
  let ?es = "map (\<lambda>e. (fst e, trimmed (snd e))) (dataset_entries ds)"
  obtain s1 where F: "fillIndex (any_index P) any_sync ds s = Some (Inr (), s1)" "any_holds l s1 ?es"
    using any_fill[OF h ds n] by blast
  obtain x s2 where L: "any_leaves s1 = Some (x, s2)" "any_holds l s2 ?es"
    using any_leaves_holds[OF F(2)] by blast
  obtain y s3 where H: "any_height s2 = Some (y, s3)" "any_holds l s3 ?es"
    using any_height_holds[OF L(2)] by blast
  have keys: "map fst ?es = key_range n"
    using dataset_entries_keys[OF ds entry_limit_63[OF n]] by (simp add: comp_def)
  have sk: "SortedKeys ds = key_range n" "length (key_range n) = n"
    using SortedKeys_range ds entry_limit_63[OF n] key_range_props(1) by (auto simp: dataset_ok_def)
  have okr: "lsm_bounds a b" if "a \<in> set (key_range n)" "b \<in> set (key_range n)" for a b
  proof -
    have "0 \<le> sint a" "0 \<le> sint b" "sint b < 2 ^ 63 - 1"
      using key_range_props(2)[OF entry_limit_63[OF n]] that n unfolding entry_limit_def by fastforce+
    moreover have "sint (b + 1) = signed_take_bit 63 (sint b + 1)" using sint_word_add[of b 1] by simp
    moreover have "signed_take_bit 63 (sint b + 1) = sint b + 1"
      using calculation(2,3) by (intro signed_take_bit_int_eq_self) simp_all
    ultimately show ?thesis by (simp add: lsm_bounds_def)
  qed
  have "\<forall>w \<in> set ws. 0 < w \<and> w \<le> length (key_range n)"
    using t2_sizes_ends[OF sizes(2), of "T2MaxSize cfg" n] sizes(1) sk(2) by auto
  then obtain rows s4 where S: "t2_scans (any_index P) clk name 0 (key_range n) ws s3 = Some (rows, s4)"
    "t2_rows_ok name ws rows" "any_holds l s4 ?es"
    using anyi.t2_scans_spec[OF keys okr _ H(2), of ws clk name 0] any_iter_close by auto
  obtain r s5 where "any_Close P s4 = Some (r, s5)" using any_close_ok[OF S(3)] by blast
  then show ?thesis using F(1) L(1) H(1) S(1,2) sizes(1) sk by (simp add: t2_index_def Let_def)
qed

lemma t3_any:
  assumes R: "rand_ok R" and h: "any_holds (ValueSize cfg) s []" and n: "WriteOpsTotal cfg \<le> entry_limit"
  shows "\<exists>rows s1 x s2.
    t3_loop (any_index P) R clk name cfg (WriteOpsTotal cfg) 0 0 r (any_sync 500 s) =
      Some (rows, snd (t3_plan R cfg (WriteOpsTotal cfg) r), s1) \<and>
    t3_rows_ok name (filter (\<lambda>j. j mod max 1 (WriteOpsWindow cfg) = 0) [1..<WriteOpsTotal cfg + 1]) rows \<and>
    any_holds (ValueSize cfg) s1 (spec_final trimmed (fst (t3_plan R cfg (WriteOpsTotal cfg) r)) []) \<and>
    any_Close P s1 = Some (x, s2)"
proof -
  have w: "0 < max 1 (WriteOpsWindow cfg)" and l: "length [] + WriteOpsTotal cfg \<le> entry_limit"
    using n by simp_all
  have okk: "\<And>k. 0 \<le> sint k \<Longrightarrow> lsm_key k" by (simp add: lsm_key_def)
  obtain rows s' where
    T: "t3_loop (any_index P) R clk name cfg (WriteOpsTotal cfg) 0 0 r (any_sync 500 s) =
      Some (rows, snd (t3_plan R cfg (WriteOpsTotal cfg) r), s')"
    "t3_rows_ok name (filter (\<lambda>j. (j - 0 + 0) mod max 1 (WriteOpsWindow cfg) = 0)
      [0 + 1..<0 + 1 + WriteOpsTotal cfg]) rows"
    "any_holds (ValueSize cfg) s' (spec_final trimmed (fst (t3_plan R cfg (WriteOpsTotal cfg) r)) [])"
    using anyi.t3_loop_rows[where cfg = cfg, OF R okk refl[THEN iffD2] any_sync_holds[OF h] l w,
        of clk name 0 r] by blast
  obtain x s'' where "any_Close P s' = Some (x, s'')" using any_close_ok[OF T(3)] by blast
  moreover have "[0 + 1..<0 + 1 + WriteOpsTotal cfg] = [1..<WriteOpsTotal cfg + 1]" by (simp add: add.commute)
  ultimately show ?thesis using T by (auto simp del: upt_Suc)
qed

lemma mixed_any:
  assumes R: "rand_ok R" and vs: "8 \<le> ValueSize cfg" and h: "any_holds (ValueSize cfg) s []"
    and n: "0 < DatasetSize cfg" "DatasetSize cfg + MixedOpsTotal cfg \<le> entry_limit" and log: "0 < LogInterval cfg"
  shows "\<exists>m s'. mixed_index (any_index P) any_sync R clk name cfg p s = Some (Inr m, s') \<and>
    mixed_ok clk name cfg (workload R cfg p) m"
proof -
  let ?n = "DatasetSize cfg" and ?l = "ValueSize cfg"
  obtain ds where D: "NewDataset R ?n ?l (Seed cfg) = Some ds" "dataset_ok ?n ?l ds"
    by (rule NewDataset_ok[OF R vs])
  let ?es = "map (\<lambda>e. (fst e, trimmed (snd e))) (dataset_entries ds)"
  have n1: "?n \<le> entry_limit" using n by simp
  obtain s1 where F: "fillIndex (any_index P) any_sync ds s = Some (Inr (), s1)" "any_holds ?l s1 ?es"
    using any_fill[OF h D(2) n1] by blast
  have kr: "set (ds_Keys ds) = set (key_range ?n)" "length (ds_Keys ds) = ?n" "length ?es = ?n"
    using D(2) dataset_entries_keys[OF D(2) entry_limit_63[OF n1]] key_range_props(1)[of ?n]
    by (metis dataset_ok_def set_mset_mset, metis dataset_ok_def size_mset, metis length_map)
  have keys: "ds_Keys ds \<noteq> []" "\<forall>k \<in> set (ds_Keys ds). lsm_key k"
    using kr(1,2) n(1) key_range_props(2)[OF entry_limit_63[OF n1]] by (auto simp: lsm_key_def less_imp_le)
  have room: "length ?es + MixedOpsTotal cfg \<le> entry_limit" using kr(3) n(2) by simp
  have okk: "\<And>k. 0 \<le> sint k \<Longrightarrow> lsm_key k" by (simp add: lsm_key_def)
  obtain ts rows s2 es2 where M: "mixed_loop (any_index P) R clk cfg p (ds_Keys ds) (MixedOpsTotal cfg) 0
      (rnd_New R (Seed cfg + 2)) (any_sync 500 s1) = Some (ts, rows, s2)"
    "ts = zip (plan R cfg p (ds_Keys ds) (MixedOpsTotal cfg) (rnd_New R (Seed cfg + 2)))
      (map (clk_Op clk) [0..<0 + MixedOpsTotal cfg])"
    "log_ok ts 0 (filter (\<lambda>j. j mod LogInterval cfg = 0) [0..<0 + MixedOpsTotal cfg]) rows"
    "any_holds ?l s2 es2"
    using anyi.mixed_loop_spec[OF R okk _ keys log any_sync_holds[OF F(2)] room] by blast
  obtain x s3 where C: "any_Close P s2 = Some (x, s3)" using any_close_ok[OF M(4)] by blast
  obtain rs where r: "processStats clk name (times_of ReadOp1 ts) ''read'' = Some rs"
    "map (\<lambda>r. (rm_Index r, rm_OpType r, rm_Count r)) rs =
      (if times_of ReadOp1 ts = [] then [] else [(name, ''read'', length (times_of ReadOp1 ts))])"
    by (rule processStats_spec)
  obtain ws where w: "processStats clk name (times_of WriteOp1 ts) ''write'' = Some ws"
    "map (\<lambda>r. (rm_Index r, rm_OpType r, rm_Count r)) ws =
      (if times_of WriteOp1 ts = [] then [] else [(name, ''write'', length (times_of WriteOp1 ts))])"
    by (rule processStats_spec)
  let ?ops = "workload R cfg p"
  have ts: "ts = zip ?ops (map (clk_Op clk) [0..<MixedOpsTotal cfg])" using M(2) D(1) by (simp add: workload_def)
  have n: "length (times_of t ts) = length (filter (\<lambda>x. x = t) ?ops)" for t
  proof -
    have "length ?ops = MixedOpsTotal cfg" using D(1) by (simp add: workload_def length_plan)
    then have "map fst ts = ?ops" using ts by simp
    then have "filter (\<lambda>x. x = t) ?ops = map fst (filter (\<lambda>x. fst x = t) ts)"
      by (metis (mono_tags, lifting) comp_apply filter_cong filter_map)
    then show ?thesis by (simp add: times_of_def)
  qed
  have e: "times_of t ts = [] \<longleftrightarrow> filter (\<lambda>x. x = t) ?ops = []" for t
    using n[of t] by (metis length_0_conv)
  have "mixed_index (any_index P) any_sync R clk name cfg p s =
      Some (Inr \<lparr>mr_Times = ts, mr_Log = rows, mr_Summary = rs @ ws\<rparr>, s3)"
    using D(1) F(1) M(1) C r(1) w(1) by (simp add: mixed_index_def)
  moreover have "mixed_ok clk name cfg ?ops \<lparr>mr_Times = ts, mr_Log = rows, mr_Summary = rs @ ws\<rparr>"
    using ts M(3) r(2) w(2) unfolding e n by (simp add: mixed_ok_def)
  ultimately show ?thesis by blast
qed

text \<open>The runs over a list of indexes.\<close>

lemma any_open_ok:
  assumes "bench_ok R indices cfg files" "d \<in> set indices"
  obtains s where "NewFunc P cfg d path (files path) = Some (Inr s)" "any_holds (ValueSize cfg) s []"
  using any_open[of "ValueSize cfg" d "files path" cfg path] assms by (auto simp: bench_ok_def)

lemma run_t1:
  assumes b: "bench_ok R indices cfg files"
    and n: "DatasetSize cfg \<le> entry_limit" "0 < PointQueryCount cfg" "PointQueryCount cfg \<le> DatasetSize cfg"
  shows "\<exists>rs. RunBenchmarkT1 P R clk indices cfg files = Some rs \<and>
    list_all2 (\<lambda>d (name, r). name = def_Name d \<and>
      (\<exists>row. r = Inr (replicate (PointQueryCount cfg) QueryFound, row) \<and>
        t1_result (clk name) name (DatasetSize cfg) (PointQueryCount cfg)
          (map (clk_Op (clk name)) [0..<PointQueryCount cfg]) = Some row)) indices rs"
proof -
  let ?n = "DatasetSize cfg" and ?l = "ValueSize cfg"
  have R: "rand_ok R" "8 \<le> ?l" using b by (simp_all add: bench_ok_def)
  obtain ds0 where D: "NewDataset R ?n ?l (Seed cfg) = Some ds0" "dataset_ok ?n ?l ds0"
    by (rule NewDataset_ok[OF R])
  obtain ks ds where K: "RandomKeys R (PointQueryCount cfg) ds0 = Some (ks, ds)" "dataset_ok ?n ?l ds"
    "length ks = PointQueryCount cfg" "set ks \<subseteq> set (key_range ?n)"
    by (rule RandomKeys_spec[OF R(1) D(2) n(3)])
  have ne: "ks \<noteq> []" using K(3) n(2) by auto
  show ?thesis
    unfolding RunBenchmarkT1_def D(1) K(1) bind.simps prod.case
  proof (rule mapM_all2, goal_cases)
    case (1 d)
    let ?path = "DataDir cfg @ ''/'' @ def_Name d @ ''_t1''"
    obtain s where O: "NewFunc P cfg d ?path (files ?path) = Some (Inr s)" "any_holds ?l s []"
      by (rule any_open_ok[OF b 1])
    show ?case
      using t1_any[OF O(2) K(2) n(1) K(4) ne, of "clk (def_Name d)" "def_Name d" cfg] O(1) K(3)
      by (auto simp: Let_def)
  qed
qed

lemma run_t2:
  assumes b: "bench_ok R indices cfg files" and n: "DatasetSize cfg \<le> entry_limit" "0 < T2StartSize cfg"
  shows "\<exists>rs ws. RunBenchmarkT2 P R clk indices cfg files = Some rs \<and>
    t2_sizes (T2MaxSize cfg) (DatasetSize cfg) (T2StartSize cfg) = Some ws \<and>
    list_all2 (\<lambda>d (name, r). name = def_Name d \<and> (\<exists>rows. r = Inr rows \<and> t2_rows_ok name ws rows)) indices rs"
proof -
  let ?n = "DatasetSize cfg" and ?l = "ValueSize cfg"
  have R: "rand_ok R" "8 \<le> ?l" using b by (simp_all add: bench_ok_def)
  obtain ds where D: "NewDataset R ?n ?l (Seed cfg) = Some ds" "dataset_ok ?n ?l ds"
    by (rule NewDataset_ok[OF R])
  obtain ws where W: "t2_sizes (T2MaxSize cfg) ?n (T2StartSize cfg) = Some ws"
    using t2_sizes_ends[OF n(2)] by blast
  have "\<exists>rs. RunBenchmarkT2 P R clk indices cfg files = Some rs \<and>
    list_all2 (\<lambda>d (name, r). name = def_Name d \<and> (\<exists>rows. r = Inr rows \<and> t2_rows_ok name ws rows)) indices rs"
    unfolding RunBenchmarkT2_def D(1) bind.simps
  proof (rule mapM_all2, goal_cases)
    case (1 d)
    let ?path = "DataDir cfg @ ''/'' @ def_Name d @ ''_t2''"
    obtain s where O: "NewFunc P cfg d ?path (files ?path) = Some (Inr s)" "any_holds ?l s []"
      by (rule any_open_ok[OF b 1])
    show ?case
      using t2_any[OF O(2) D(2) n(1) W n(2), of "clk (def_Name d)" "def_Name d"] O(1)
      by (auto simp: Let_def)
  qed
  then show ?thesis using W by blast
qed

lemma run_t3:
  assumes R: "rand_ok R" and ops: "\<forall>op \<in> set ops. op_allowed lsm_key lsm_bounds (\<lambda>v. glen v = ValueSize cfg) op"
    and n: "WriteOpsTotal cfg + inserts ops \<le> entry_limit"
  shows "bench_ok R indices cfg files \<Longrightarrow> \<exists>rs. t3_run P R clk cfg files indices r = Some rs \<and>
    list_all2 (\<lambda>(d, r) (name, rows). name = def_Name d \<and> t3_complete P R (clk name) cfg files ops d r rows)
      (zip indices (t3_starts R cfg (length indices) r)) rs"
proof (induction indices arbitrary: r)
  case (Cons d indices)
  let ?path = "DataDir cfg @ ''/'' @ def_Name d @ ''_t3''"
  let ?q = "t3_plan R cfg (WriteOpsTotal cfg) r"
  have b: "bench_ok R indices cfg files" using Cons.prems by (simp add: bench_ok_def)
  have W: "WriteOpsTotal cfg \<le> entry_limit" using n by simp
  obtain s where O: "NewFunc P cfg d ?path (files ?path) = Some (Inr s)" "any_holds (ValueSize cfg) s []"
    by (rule any_open_ok[OF Cons.prems list.set_intros(1)])
  obtain rows s1 x s2 where T: "t3_loop (any_index P) R (clk (def_Name d)) (def_Name d) cfg (WriteOpsTotal cfg) 0 0
      r (any_sync 500 s) = Some (rows, snd ?q, s1)"
    "t3_rows_ok (def_Name d) (filter (\<lambda>j. j mod max 1 (WriteOpsWindow cfg) = 0) [1..<WriteOpsTotal cfg + 1]) rows"
    "any_holds (ValueSize cfg) s1 (spec_final trimmed (fst ?q) [])" "any_Close P s1 = Some (x, s2)"
    using t3_any[OF R O(2) W] by blast
  have room: "length (spec_final trimmed (fst ?q) []) + inserts ops \<le> entry_limit"
    using length_spec_final[of trimmed "fst ?q" "[]"] n by (simp add: inserts_t3_plan)
  obtain s3 where "run_ops (any_index P) ops s1 =
      Some (spec_run trimmed (Inr None) ops (spec_final trimmed (fst ?q) []), s3)"
    using anyi.run_ops_exact[OF T(3) ops room] by blast
  then have D: "t3_complete P R (clk (def_Name d)) cfg files ops d r rows"
    unfolding t3_complete_def Let_def case_prod_beta using O(1) T(1,2,4) by blast
  obtain rs where L: "t3_run P R clk cfg files indices (snd ?q) = Some rs"
    "list_all2 (\<lambda>(d, r) (name, rows). name = def_Name d \<and> t3_complete P R (clk name) cfg files ops d r rows)
      (zip indices (t3_starts R cfg (length indices) (snd ?q))) rs"
    using Cons.IH[OF b] by blast
  have "t3_run P R clk cfg files (d # indices) r = Some ((def_Name d, rows) # rs)"
    using O(1) T(1,4) L(1) by (simp add: Let_def t3_index_def)
  then show ?case using D L(2) by simp
qed simp

lemma run_mixed:
  assumes b: "bench_ok R indices cfg files" and n: "0 < DatasetSize cfg"
    "DatasetSize cfg + MixedOpsTotal cfg \<le> entry_limit" and log: "0 < LogInterval cfg"
  shows "\<exists>rs. RunMixedWorkload P R clk indices cfg p label files = Some rs \<and>
    list_all2 (\<lambda>d (name, r). name = def_Name d \<and> (\<exists>m. r = Inr m \<and>
      mixed_ok (clk name) name cfg (workload R cfg p) m)) indices rs"
  unfolding RunMixedWorkload_def
proof (rule mapM_all2, goal_cases)
  case (1 d)
  have R: "rand_ok R" "8 \<le> ValueSize cfg" using b by (simp_all add: bench_ok_def)
  let ?path = "DataDir cfg @ ''/'' @ def_Name d @ ''_'' @ label"
  obtain s where O: "NewFunc P cfg d ?path (files ?path) = Some (Inr s)" "any_holds (ValueSize cfg) s []"
    by (rule any_open_ok[OF b 1])
  show ?case
    using mixed_any[OF R O(2) n log, of "clk (def_Name d)" "def_Name d" p] O(1) by (auto simp: Let_def)
qed

end

end
