(* ===== verification/Cleanup.thy ===== *)
theory Cleanup
  imports Registry "HOL-Library.Sublist"
begin

text \<open>
  The data files of the benchmark runs (cleanupIndexData in src/bench/tests.go). A file system is
  the set of the paths that exist; a directory exists together with its contents.
\<close>

section \<open>Removing data\<close>

definition below :: "string \<Rightarrow> string \<Rightarrow> bool" where
  "below dir p \<longleftrightarrow> prefix (dir @ ''/'') p"

text \<open>\<open>RemoveAll\<close> removes a path with everything below it, \<open>Remove\<close> a file or an empty directory;
  their errors are ignored.\<close>

definition os_RemoveAll :: "string \<Rightarrow> string set \<Rightarrow> string set" where
  "os_RemoveAll path fs = Set.filter (\<lambda>p. p \<noteq> path \<and> \<not> below path p) fs"

definition os_Remove :: "string \<Rightarrow> string set \<Rightarrow> string set" where
  "os_Remove path fs = (if \<exists>p \<in> fs. below path p then fs else fs - {path})"

definition cleanupIndexData :: "string \<Rightarrow> string set \<Rightarrow> string set" where
  "cleanupIndexData path fs = os_Remove (path @ ''.bpt'') (os_Remove (path @ ''.bt'') (os_RemoveAll path fs))"

section \<open>Where the indexes keep their data\<close>

text \<open>The trees add the suffix of their file to the path, Pebble makes a directory.\<close>

fun data_of :: "index_kind \<Rightarrow> string \<Rightarrow> string \<Rightarrow> bool" where
  "data_of (KBTree ps) path p = (p = path @ ''.bt'')"
| "data_of (KBPTree ps) path p = (p = path @ ''.bpt'')"
| "data_of (KLsm m) path p = (p = path \<or> below path p)"

definition run_labels :: "string list" where
  "run_labels = [''_t1'', ''_t2'', ''_t3'', ''_T4'', ''_T5'']"

definition data_path :: "string \<Rightarrow> index_def \<Rightarrow> string \<Rightarrow> string" where
  "data_path dir d label = dir @ ''/'' @ def_Name d @ label"

text \<open>A path and the suffixes that are put behind it share its stem.\<close>

definition stem :: "string \<Rightarrow> string" where
  "stem p = takeWhile (\<lambda>c. c \<noteq> CHR ''.'' \<and> c \<noteq> CHR ''/'') p"

lemma stem_append: "stem n = n \<Longrightarrow> x = [] \<or> hd x = CHR ''.'' \<or> hd x = CHR ''/'' \<Longrightarrow> stem (n @ x) = n"
  by (cases x) (auto simp: stem_def takeWhile_eq_all_conv takeWhile_append2)

definition touched :: "string \<Rightarrow> string \<Rightarrow> bool" where
  "touched path p \<longleftrightarrow> p \<in> {path, path @ ''.bt'', path @ ''.bpt''} \<or> below path p"

lemma cleanup_untouched: "p \<in> fs \<Longrightarrow> \<not> touched path p \<Longrightarrow> p \<in> cleanupIndexData path fs"
  by (auto simp: cleanupIndexData_def os_Remove_def os_RemoveAll_def touched_def)

lemma cleanup_subset: "p \<in> cleanupIndexData path fs \<Longrightarrow> p \<in> fs \<and> p \<noteq> path \<and> \<not> below path p"
  by (auto simp: cleanupIndexData_def os_Remove_def os_RemoveAll_def split: if_splits)

lemma data_touched: "data_of k path p \<Longrightarrow> touched path p"
  by (cases k) (auto simp: touched_def)

lemma touched_cases:
  assumes "touched (dir @ n) p" "stem n = n"
  shows "\<exists>x. p = dir @ n @ x \<and> stem (n @ x) = n"
proof -
  have "\<exists>x. p = dir @ n @ x \<and> (x = [] \<or> hd x = CHR ''.'' \<or> hd x = CHR ''/'')"
    using assms(1) unfolding touched_def below_def prefix_def by auto
  then show ?thesis using stem_append[OF assms(2)] by blast
qed

lemma touched_apart: "touched (dir @ n) p \<Longrightarrow> touched (dir @ m) p \<Longrightarrow> stem n = n \<Longrightarrow> stem m = m \<Longrightarrow> n = m"
  using touched_cases by (metis same_append_eq)

lemma run_names:
  "distinct (map def_Name Indexes)" "\<forall>l \<in> set run_labels. length l = 3"
  "\<forall>d \<in> set Indexes. \<forall>l \<in> set run_labels. stem (def_Name d @ l) = def_Name d @ l"
  by (simp_all add: Indexes_def run_labels_def stem_def)

lemma run_names_inject:
  assumes "d \<in> set Indexes" "d' \<in> set Indexes" "l \<in> set run_labels" "l' \<in> set run_labels"
    "def_Name d @ l = def_Name d' @ l'"
  shows "d = d' \<and> l = l'"
proof -
  have "def_Name d = def_Name d' \<and> l = l'" using assms(3-5) run_names(2) by simp
  then show ?thesis using run_names(1) assms(1,2) by (simp add: distinct_map inj_on_def)
qed

section \<open>Properties\<close>

text \<open>
  C21. Cleaning up after a run removes exactly the data of that run: nothing of the index is left,
  whichever of the three kinds it is, and no data of another index or of another run of the same
  index are touched. The files of the trees are no directories.
\<close>

theorem cleanup_exact:
  assumes "d \<in> set Indexes" "l \<in> set run_labels" "path = data_path dir d l"
    "\<forall>p \<in> fs. \<not> below (path @ ''.bt'') p \<and> \<not> below (path @ ''.bpt'') p"
  shows "(\<forall>p \<in> cleanupIndexData path fs. p \<in> fs \<and> \<not> data_of (def_Kind d) path p) \<and>
    (\<forall>d' \<in> set Indexes. \<forall>l' \<in> set run_labels. (d', l') \<noteq> (d, l) \<longrightarrow>
       (\<forall>p \<in> fs. data_of (def_Kind d') (data_path dir d' l') p \<longrightarrow> p \<in> cleanupIndexData path fs))"
proof (intro conjI ballI impI)
  fix p assume p: "p \<in> cleanupIndexData path fs"
  then show "p \<in> fs" using cleanup_subset by blast
  have "p \<noteq> path @ ''.bt'' \<and> p \<noteq> path @ ''.bpt''"
    using p assms(4) by (auto simp: cleanupIndexData_def os_Remove_def os_RemoveAll_def split: if_splits)
  then show "\<not> data_of (def_Kind d) path p" using cleanup_subset[OF p] by (cases "def_Kind d") auto
next
  fix d' l' p
  assume o: "d' \<in> set Indexes" "l' \<in> set run_labels" "(d', l') \<noteq> (d, l)" "p \<in> fs"
    "data_of (def_Kind d') (data_path dir d' l') p"
  have "\<not> touched path p"
  proof
    assume "touched path p"
    then have "touched ((dir @ ''/'') @ def_Name d @ l) p" "touched ((dir @ ''/'') @ def_Name d' @ l') p"
      using data_touched[OF o(5)] assms(3) by (simp_all add: data_path_def)
    then have "def_Name d @ l = def_Name d' @ l'"
      by (rule touched_apart) (use run_names(3) assms(1,2) o(1,2) in blast)+
    then show False using run_names_inject[OF assms(1) o(1) assms(2) o(2)] o(3) by simp
  qed
  then show "p \<in> cleanupIndexData path fs" using cleanup_untouched o(4) by blast
qed

theorem cleanup_exact_witness:
  "cleanupIndexData ''out/lsm_pebble_16m_T4'' {''out/lsm_pebble_16m_T4/000002.log'', ''out/btree_4k_T4.bt''} =
     {''out/btree_4k_T4.bt''}"
proof -
  let ?lsm = "\<lparr>def_Name = ''lsm_pebble_16m'', def_Kind = KLsm 16\<rparr>"
  let ?bt = "\<lparr>def_Name = ''btree_4k'', def_Kind = KBTree 4096\<rparr>"
  let ?fs = "{''out/lsm_pebble_16m_T4/000002.log'', ''out/btree_4k_T4.bt''}"
  have d: "?lsm \<in> set Indexes" "?bt \<in> set Indexes" "''_T4'' \<in> set run_labels"
    by (simp_all add: Indexes_def run_labels_def)
  have p: "''out/lsm_pebble_16m_T4'' = data_path ''out'' ?lsm ''_T4''" by (simp add: data_path_def)
  have b: "\<forall>p \<in> ?fs. \<not> below (''out/lsm_pebble_16m_T4'' @ ''.bt'') p \<and> \<not> below (''out/lsm_pebble_16m_T4'' @ ''.bpt'') p"
    by (simp add: below_def)
  note E = cleanup_exact[OF d(1,3) p b]
  have "data_of (def_Kind ?bt) (data_path ''out'' ?bt ''_T4'') ''out/btree_4k_T4.bt''" by (simp add: data_path_def)
  then have "''out/btree_4k_T4.bt'' \<in> cleanupIndexData ''out/lsm_pebble_16m_T4'' ?fs"
    using E d(2,3) by fastforce
  moreover have "p = ''out/btree_4k_T4.bt''" if p: "p \<in> cleanupIndexData ''out/lsm_pebble_16m_T4'' ?fs" for p
  proof -
    have "data_of (def_Kind ?lsm) ''out/lsm_pebble_16m_T4'' ''out/lsm_pebble_16m_T4/000002.log''"
      by (simp add: below_def)
    then have "p \<noteq> ''out/lsm_pebble_16m_T4/000002.log''" using E p by metis
    moreover have "p \<in> ?fs" using E p by metis
    ultimately show ?thesis by (metis insert_iff singletonD)
  qed
  ultimately show ?thesis by (intro set_eqI iffI) (simp_all only: singleton_iff)
qed

end
