(* ===== verification/HarnessProps.thy ===== *)
theory HarnessProps
  imports HarnessSpec
begin

text \<open>
  The properties of the benchmark runs: on a Pebble database that behaves as documented, with
  new files and page sizes that fit the values, the runs measure what they are meant to measure
  on every index.
\<close>

section \<open>A generator and a clock for examples\<close>

definition count_rand :: "nat rand" where
  "count_rand = \<lparr>rnd_New = (\<lambda>seed. unat seed),
     rnd_Intn = (\<lambda>n r. (if n = 0 then 0 else r mod n, r + 1)),
     rnd_Int63 = (\<lambda>r. (word_of_nat (r mod 2 ^ 62), r + 1)),
     rnd_Read = (\<lambda>n r. (replicate n 0, r))\<rparr>"

lemma count_rand_ok: "rand_ok count_rand"
proof -
  have "0 \<le> sint (word_of_nat (r mod 2 ^ 62) :: key)" for r :: nat
    by (subst sint_small) (simp_all add: less_trans[OF mod_less_divisor])
  then show ?thesis by (simp add: rand_ok_def count_rand_def)
qed

definition tick :: clock where
  "tick = \<lparr>clk_Op = (\<lambda>i. word_of_nat i), clk_Total = (\<lambda>_. 1000000), clk_Rate = (\<lambda>_ _. ''1.00'')\<rparr>"

definition small_config :: config where
  "small_config = \<lparr>Seed = 42, OutDir = ''out'', DataDir = ''data'', CachePages = 2, DatasetSize = 3,
     PointQueryCount = 2, WriteOpsTotal = 5, WriteOpsWindow = 2, MixedOpsTotal = 4, LogInterval = 2,
     ValueSize = 128, T2StartSize = 1, T2MaxSize = 100, CleanupData = True\<rparr>"

lemma small_config_ok: "bench_ok count_rand Indexes small_config (\<lambda>_. empty_file)"
  using count_rand_ok Indexes_fit
  by (simp add: bench_ok_def small_config_def empty_tree_file_def)

section \<open>T1\<close>

text \<open>
  C22. T1 measures successful lookups: on every index of the list the run opens, fills and queries
  the index without an error, every one of the random query keys is found, and the index's row
  has its name and its response times in order.
\<close>

theorem benchmark_t1_finds_all:
  assumes "pebble_store P content rest" "bench_ok R indices cfg files"
    "DatasetSize cfg \<le> entry_limit" "0 < PointQueryCount cfg" "PointQueryCount cfg \<le> DatasetSize cfg"
  shows "\<exists>rs. RunBenchmarkT1 P R clk indices cfg files = Some rs \<and>
    list_all2 (\<lambda>d (name, r). name = def_Name d \<and>
      (\<exists>row. r = Inr (replicate (PointQueryCount cfg) QueryFound, row) \<and> r1_Index row = name \<and>
        in_order [r1_MinNs row, r1_Q1Ns row, r1_P50Ns row, r1_Q3Ns row, r1_P95Ns row, r1_P99Ns row,
          r1_MaxNs row])) indices rs"
proof -
  have ordered: "r1_Index row = name \<and> in_order [r1_MinNs row, r1_Q1Ns row, r1_P50Ns row, r1_Q3Ns row,
      r1_P95Ns row, r1_P99Ns row, r1_MaxNs row]"
    if "t1_result c name n q (map f [0..<PointQueryCount cfg]) = Some row" for c name n q f row
    by (rule t1_result_spec[of "map f [0..<PointQueryCount cfg]" c name n q]) (use that assms(4) in auto)
  obtain rs where rs: "RunBenchmarkT1 P R clk indices cfg files = Some rs"
    "list_all2 (\<lambda>d (name, r). name = def_Name d \<and>
      (\<exists>row. r = Inr (replicate (PointQueryCount cfg) QueryFound, row) \<and>
        t1_result (clk name) name (DatasetSize cfg) (PointQueryCount cfg)
          (map (clk_Op (clk name)) [0..<PointQueryCount cfg]) = Some row)) indices rs"
    using pebble_store.run_t1[OF assms, of clk] by blast
  show ?thesis
    by (intro exI[of _ rs] conjI rs(1) list_all2_mono[OF rs(2)]) (use ordered in blast)
qed

theorem benchmark_t1_finds_all_witness:
  "\<exists>rs. RunBenchmarkT1 mem_pebble count_rand (\<lambda>_. tick) Indexes small_config (\<lambda>_. empty_file) = Some rs \<and>
    list_all2 (\<lambda>d (name, r). name = def_Name d \<and>
      (\<exists>row. r = Inr (replicate (PointQueryCount small_config) QueryFound, row) \<and> r1_Index row = name \<and>
        in_order [r1_MinNs row, r1_Q1Ns row, r1_P50Ns row, r1_Q3Ns row, r1_P95Ns row, r1_P99Ns row,
          r1_MaxNs row])) Indexes rs"
  by (rule benchmark_t1_finds_all[OF mem.pebble_store_axioms small_config_ok])
    (simp_all add: small_config_def entry_limit_def)

section \<open>T2\<close>

text \<open>
  C23. T2 scans what its rows claim: on every index the run writes one row for every size, and the
  scan of the middle keys read exactly as many keys as the size says. The sizes are the doublings
  of a positive start size up to the largest one and the size of the dataset.
\<close>

theorem benchmark_t2_reads_sizes:
  assumes "pebble_store P content rest" "bench_ok R indices cfg files"
    "DatasetSize cfg \<le> entry_limit" "0 < T2StartSize cfg"
  shows "\<exists>rs k. RunBenchmarkT2 P R clk indices cfg files = Some rs \<and>
    (\<forall>i. i < k \<longleftrightarrow> T2StartSize cfg * 2 ^ i \<le> min (T2MaxSize cfg) (DatasetSize cfg)) \<and>
    list_all2 (\<lambda>d (name, r). name = def_Name d \<and> (\<exists>rows. r = Inr rows \<and>
      t2_rows_ok name (map (\<lambda>i. T2StartSize cfg * 2 ^ i) [0..<k]) rows)) indices rs"
proof -
  obtain rs ws where rs: "RunBenchmarkT2 P R clk indices cfg files = Some rs"
    "t2_sizes (T2MaxSize cfg) (DatasetSize cfg) (T2StartSize cfg) = Some ws"
    "list_all2 (\<lambda>d (name, r). name = def_Name d \<and> (\<exists>rows. r = Inr rows \<and> t2_rows_ok name ws rows)) indices rs"
    using pebble_store.run_t2[OF assms, of clk] by blast
  obtain k where k: "t2_sizes (T2MaxSize cfg) (DatasetSize cfg) (T2StartSize cfg) =
      Some (map (\<lambda>i. T2StartSize cfg * 2 ^ i) [0..<k])"
    "\<forall>i. i < k \<longleftrightarrow> T2StartSize cfg * 2 ^ i \<le> min (T2MaxSize cfg) (DatasetSize cfg)"
    using t2_sizes_spec[OF assms(4), of "T2MaxSize cfg" "DatasetSize cfg"] by blast
  have ws: "ws = map (\<lambda>i. T2StartSize cfg * 2 ^ i) [0..<k]" using rs(2) k(1) by simp
  show ?thesis by (rule exI[of _ rs], rule exI[of _ k], intro conjI rs(1) k(2) rs(3)[unfolded ws])
qed

theorem benchmark_t2_reads_sizes_witness:
  "\<exists>rs k. RunBenchmarkT2 mem_pebble count_rand (\<lambda>_. tick) Indexes small_config (\<lambda>_. empty_file) = Some rs \<and>
    (\<forall>i. i < k \<longleftrightarrow> T2StartSize small_config * 2 ^ i \<le>
      min (T2MaxSize small_config) (DatasetSize small_config)) \<and>
    list_all2 (\<lambda>d (name, r). name = def_Name d \<and> (\<exists>rows. r = Inr rows \<and>
      t2_rows_ok name (map (\<lambda>i. T2StartSize small_config * 2 ^ i) [0..<k]) rows)) Indexes rs"
  by (rule benchmark_t2_reads_sizes[OF mem.pebble_store_axioms small_config_ok])
    (simp_all add: small_config_def entry_limit_def)

text \<open>
  The loop that lists the sizes of T2 ends exactly when the start size is not zero: doubling
  zero never passes a bound.
\<close>

lemma t2_sizes_end_iff: "(\<exists>xs. t2_sizes maxSize n s = Some xs) \<longleftrightarrow> s \<noteq> 0"
  using t2_sizes_spec[of s maxSize n] t2_sizes_zero[of maxSize n] by (cases "s = 0") auto

section \<open>T3\<close>

text \<open>
  C24. T3 performs all its insertions. No index of the list is skipped; on each the loop draws as many
  pairs of a key and a value from the generator as the configuration says, where the last index left
  it, and afterwards the index holds exactly these pairs: any operations on it answer like the list
  of entries after the planned insertions. There is a row exactly after every full window, with the
  number of insertions so far (a window of zero counts as one).
\<close>

theorem benchmark_t3_rows:
  assumes "pebble_store P content rest" "bench_ok R indices cfg files"
    "\<forall>op \<in> set ops. op_allowed lsm_key lsm_bounds (\<lambda>v. glen v = ValueSize cfg) op"
    "WriteOpsTotal cfg + inserts ops \<le> entry_limit"
  shows "\<exists>rs. RunBenchmarkT3 P R clk indices cfg files = Some rs \<and>
    list_all2 (\<lambda>(d, r) (name, rows). name = def_Name d \<and> t3_complete P R (clk name) cfg files ops d r rows)
      (zip indices (t3_starts R cfg (length indices) (rnd_New R (Seed cfg)))) rs"
  unfolding RunBenchmarkT3_def
  using pebble_store.run_t3[OF assms(1) _ assms(3,4,2)] assms(2) bench_ok_def by blast

theorem benchmark_t3_rows_witness:
  "\<exists>rs. RunBenchmarkT3 mem_pebble count_rand (\<lambda>_. tick) Indexes small_config (\<lambda>_. empty_file) = Some rs \<and>
    list_all2 (\<lambda>(d, r) (name, rows). name = def_Name d \<and>
      t3_complete mem_pebble count_rand tick small_config (\<lambda>_. empty_file) [OGet 2, OScan 0 9] d r rows)
      (zip Indexes (t3_starts count_rand small_config (length Indexes) (rnd_New count_rand (Seed small_config)))) rs"
  by (rule benchmark_t3_rows[OF mem.pebble_store_axioms small_config_ok])
    (simp_all add: small_config_def entry_limit_def lsm_key_def lsm_bounds_def)

section \<open>The whole program\<close>

lemma benchmarks_run:
  assumes "pebble_store P content rest" "rand_ok R" "ValueSize cfg = 128" "\<forall>path. empty_tree_file (files path)"
    "0 < DatasetSize cfg" "DatasetSize cfg + MixedOpsTotal cfg \<le> entry_limit" "0 < LogInterval cfg"
  obtains r4 r5 where "RunBenchmarks P R clk cfg files = Some (r4, r5)"
    "list_all2 (\<lambda>d (name, r). name = def_Name d \<and>
      (\<exists>m. r = Inr m \<and> mixed_ok (clk ''T4'' name) name cfg (workload R cfg 95) m)) Indexes r4"
    "list_all2 (\<lambda>d (name, r). name = def_Name d \<and>
      (\<exists>m. r = Inr m \<and> mixed_ok (clk ''T5'' name) name cfg (workload R cfg 5) m)) Indexes r5"
proof -
  have b: "bench_ok R Indexes cfg files" using assms(2-4) Indexes_fit by (simp add: bench_ok_def)
  note run = pebble_store.run_mixed[OF assms(1) b assms(5-7)]
  obtain r4 where 4: "RunMixedWorkload P R (clk ''T4'') Indexes cfg 95 ''T4'' files = Some r4"
    "list_all2 (\<lambda>d (name, r). name = def_Name d \<and>
      (\<exists>m. r = Inr m \<and> mixed_ok (clk ''T4'' name) name cfg (workload R cfg 95) m)) Indexes r4"
    using run by blast
  obtain r5 where 5: "RunMixedWorkload P R (clk ''T5'') Indexes cfg 5 ''T5'' files = Some r5"
    "list_all2 (\<lambda>d (name, r). name = def_Name d \<and>
      (\<exists>m. r = Inr m \<and> mixed_ok (clk ''T5'' name) name cfg (workload R cfg 5) m)) Indexes r5"
    using run by blast
  show thesis using 4 5 by (intro that) (simp_all add: RunBenchmarks_def RunBenchmarkT4_def RunBenchmarkT5_def)
qed

text \<open>
  C17. The benchmark that the program runs completes: with the default value size, T4 and T5 skip
  none of the nine indexes of the registry and perform all operations on each. Every index gets
  the same sequence of reads and writes, with its own response times; exactly the operations at
  multiples of the interval are logged, and the reads and writes are summarised with their
  counts.
\<close>

theorem benchmarks_complete:
  assumes "pebble_store P content rest" "rand_ok R" "ValueSize cfg = 128" "\<forall>path. empty_tree_file (files path)"
    "0 < DatasetSize cfg" "DatasetSize cfg + MixedOpsTotal cfg \<le> entry_limit" "0 < LogInterval cfg"
  shows "\<exists>r4 r5. RunBenchmarks P R clk cfg files = Some (r4, r5) \<and>
    list_all2 (\<lambda>d (name, r). name = def_Name d \<and>
      (\<exists>m. r = Inr m \<and> mixed_ok (clk ''T4'' name) name cfg (workload R cfg 95) m)) Indexes r4 \<and>
    list_all2 (\<lambda>d (name, r). name = def_Name d \<and>
      (\<exists>m. r = Inr m \<and> mixed_ok (clk ''T5'' name) name cfg (workload R cfg 5) m)) Indexes r5"
  by (rule benchmarks_run[OF assms, of clk]) blast

theorem benchmarks_complete_witness:
  "\<exists>r4 r5. RunBenchmarks mem_pebble count_rand (\<lambda>_ _. tick) small_config (\<lambda>_. empty_file) = Some (r4, r5) \<and>
    list_all2 (\<lambda>d (name, r). name = def_Name d \<and>
      (\<exists>m. r = Inr m \<and> mixed_ok tick name small_config (workload count_rand small_config 95) m)) Indexes r4 \<and>
    list_all2 (\<lambda>d (name, r). name = def_Name d \<and>
      (\<exists>m. r = Inr m \<and> mixed_ok tick name small_config (workload count_rand small_config 5) m)) Indexes r5"
  by (rule benchmarks_complete[OF mem.pebble_store_axioms count_rand_ok])
    (simp_all add: small_config_def entry_limit_def empty_tree_file_def)

section \<open>The calls of the mixed workloads\<close>

text \<open>The calls that a mixed workload means to make, drawn from the generator.\<close>

definition mixed_request :: "'r rand \<Rightarrow> config \<Rightarrow> nat \<Rightarrow> key list \<Rightarrow> 'r \<Rightarrow> index_op \<times> 'r" where
  "mixed_request R cfg readPercent keys r =
     (let (decision, r1) = rnd_Intn R 100 r in
      if decision < readPercent then (let (j, r2) = rnd_Intn R (length keys) r1 in (OGet (keys ! j), r2))
      else (let (k, r2) = rnd_Int63 R r1; (v, r3) = rnd_Read R (ValueSize cfg) r2 in (OInsert k (Some v), r3)))"

fun mixed_requests :: "'r rand \<Rightarrow> config \<Rightarrow> nat \<Rightarrow> key list \<Rightarrow> nat \<Rightarrow> 'r \<Rightarrow> index_op list" where
  "mixed_requests R cfg readPercent keys 0 r = []"
| "mixed_requests R cfg readPercent keys (Suc todo) r =
     (let (op, r1) = mixed_request R cfg readPercent keys r in op # mixed_requests R cfg readPercent keys todo r1)"

fun kind_of :: "index_op \<Rightarrow> op_type" where
  "kind_of (OInsert k v) = WriteOp1"
| "kind_of _ = ReadOp1"

definition timed :: "clock \<Rightarrow> nat \<Rightarrow> index_op list \<Rightarrow> (op_type \<times> int64) list" where
  "timed clk i ops = zip (map kind_of ops) (map (clk_Op clk) [i..<i + length ops])"

definition logged :: "config \<Rightarrow> nat \<Rightarrow> (op_type \<times> int64) list \<Rightarrow> (nat \<times> int64 \<times> op_type) list" where
  "logged cfg i ts = map (\<lambda>j. (j, snd (ts ! (j - i)), fst (ts ! (j - i))))
     (filter (\<lambda>j. j mod LogInterval cfg = 0) [i..<i + length ts])"

lemma upt_step: "[i..<i + Suc n] = i # [Suc i..<Suc i + n]"
  by (simp add: upt_conv_Cons del: upt_Suc)

lemma timed_Cons: "timed clk i (op # ops) = (kind_of op, clk_Op clk i) # timed clk (i + 1) ops"
  using upt_step[of i "length ops"] by (simp add: timed_def del: upt_Suc)

lemma logged_Cons:
  "logged cfg i (x # ts) = (if i mod LogInterval cfg = 0 then [(i, snd x, fst x)] else []) @ logged cfg (i + 1) ts"
proof -
  have e: "(x # ts) ! (j - i) = ts ! (j - Suc i)" if "Suc i \<le> j" for j
  proof -
    have "j - i = Suc (j - Suc i)" using that by simp
    then show ?thesis by simp
  qed
  have u: "[i..<i + length (x # ts)] = i # [Suc i..<Suc i + length ts]"
    using upt_step[of i "length ts"] by simp
  show ?thesis unfolding logged_def u by (auto simp: e simp del: upt_Suc)
qed

lemma mixed_op_request:
  assumes "keys \<noteq> []"
  shows "mixed_op ix R cfg p keys r s = (case mixed_request R cfg p keys r of (op, r1) \<Rightarrow>
    map_option (\<lambda>(out, s1). (kind_of op, r1, s1)) (run_op ix op s))"
proof -
  obtain d r1 where d: "rnd_Intn R 100 r = (d, r1)" by fastforce
  show ?thesis
  proof (cases "d < p")
    case True
    obtain j r2 where "rnd_Intn R (length keys) r1 = (j, r2)" by fastforce
    then show ?thesis using d True assms
      by (cases "ix_Get ix (keys ! j) s") (auto simp: mixed_op_def mixed_request_def)
  next
    case False
    obtain k r2 where k: "rnd_Int63 R r1 = (k, r2)" by fastforce
    obtain v r3 where v: "rnd_Read R (ValueSize cfg) r2 = (v, r3)" by fastforce
    show ?thesis using d k v False
      by (cases "ix_Insert ix k (Some v) s") (auto simp: mixed_op_def mixed_request_def)
  qed
qed

lemma mixed_loop_requests:
  assumes "keys \<noteq> []" "0 < LogInterval cfg"
  shows "mixed_loop ix R clk cfg p keys todo i r s =
    (let ops = mixed_requests R cfg p keys todo r; ts = timed clk i ops in
     map_option (\<lambda>(outs, s'). (ts, logged cfg i ts, s')) (run_ops ix ops s))"
proof (induction todo arbitrary: i r s)
  case (Suc todo)
  obtain op r1 where op: "mixed_request R cfg p keys r = (op, r1)" by fastforce
  show ?case
  proof (cases "run_op ix op s")
    case None
    then show ?thesis using op by (simp add: mixed_op_request[OF assms(1)])
  next
    case (Some x)
    obtain out s1 where x: "x = (out, s1)" by (cases x)
    show ?thesis
      using Some x op assms(2) Suc[of "i + 1" r1 s1]
      by (cases "run_ops ix (mixed_requests R cfg p keys todo r1) s1")
        (auto simp: mixed_op_request[OF assms(1)] timed_Cons logged_Cons Let_def)
  qed
qed (simp add: timed_def logged_def)

text \<open>
  C40. The mixed workloads make the calls that they measure. On any index, whatever its methods do,
  the loop of T4 and T5 is the run of the requests that the generator plans, a lookup of a dataset
  key or an insertion of a fresh pair each: it panics when one of these calls does, it leaves the index
  as they leave it, it has one response time per call, with the type of the call, and logs exactly
  the calls at multiples of the interval.
\<close>

theorem mixed_loop_calls:
  assumes "keys \<noteq> []" "0 < LogInterval cfg"
  shows "mixed_loop ix R clk cfg p keys n 0 r s =
    (let ops = mixed_requests R cfg p keys n r;
       ts = zip (map kind_of ops) (map (clk_Op clk) [0..<n]) in
     map_option (\<lambda>(outs, s'). (ts,
       map (\<lambda>j. (j, snd (ts ! j), fst (ts ! j))) (filter (\<lambda>j. j mod LogInterval cfg = 0) [0..<n]), s'))
       (run_ops ix ops s))"
proof -
  have n: "length (mixed_requests R cfg p keys n r) = n" by (induction n arbitrary: r) (simp_all add: case_prod_beta)
  show ?thesis
    unfolding mixed_loop_requests[OF assms] Let_def timed_def logged_def n by (simp add: n)
qed

theorem mixed_loop_calls_witness:
  "mixed_loop (LSM_index mem_pebble) count_rand tick small_config 50 [1, 2] 3 0 (rnd_New count_rand 7) [] =
    (let ops = mixed_requests count_rand small_config 50 [1, 2] 3 (rnd_New count_rand 7);
       ts = zip (map kind_of ops) (map (clk_Op tick) [0..<3]) in
     map_option (\<lambda>(outs, s'). (ts,
       map (\<lambda>j. (j, snd (ts ! j), fst (ts ! j))) (filter (\<lambda>j. j mod LogInterval small_config = 0) [0..<3]), s'))
       (run_ops (LSM_index mem_pebble) ops []))"
  by (rule mixed_loop_calls) (simp_all add: small_config_def)

section \<open>The dataset\<close>

text \<open>
  C33. The dataset is what its users assume: with values of at least eight bytes its keys are a
  permutation of 1 to n, so they are unique, and the sorted keys are 1 to n in order; every value
  has the configured length and starts with its key; and a sample of at most n keys takes
  different keys of the dataset.
\<close>

theorem dataset_keys_and_values:
  assumes "rand_ok R" "8 \<le> valueSize" "n < 2 ^ 63" "m \<le> n"
  shows "\<exists>d ks d'. NewDataset R n valueSize seed = Some d \<and>
    map sint (SortedKeys d) = map (\<lambda>i. int i + 1) [0..<n] \<and> distinct (ds_Keys d) \<and>
    list_all2 (value_of valueSize) (ds_Keys d) (ds_Values d) \<and>
    RandomKeys R m d = Some (ks, d') \<and> length ks = m \<and> distinct ks \<and> set ks \<subseteq> set (ds_Keys d) \<and>
    ds_Keys d' = ds_Keys d \<and> ds_Values d' = ds_Values d"
proof -
  obtain d where d: "NewDataset R n valueSize seed = Some d" "mset (ds_Keys d) = mset (key_range n)"
    "list_all2 (value_of valueSize) (ds_Keys d) (ds_Values d)"
    by (rule NewDataset_spec[OF assms(1,2)])
  have "distinct (key_range n)"
    using key_range_sorted[OF assms(3)] strict_sorted_iff distinct_map by blast
  then have dist: "distinct (ds_Keys d)" using d(2) mset_eq_imp_distinct_iff by blast
  have len: "m \<le> length (ds_Keys d)" using d(2) assms(4) key_range_props(1)[of n] by (metis size_mset)
  obtain ks d' where k: "RandomKeys R m d = Some (ks, d')" "length ks = m" "set ks \<subseteq> set (ds_Keys d)"
    "distinct ks" "ds_Keys d' = ds_Keys d" "ds_Values d' = ds_Values d"
    using RandomKeys_sample[OF assms(1) len] dist by metis
  have "map sint (SortedKeys d) = map (\<lambda>i. int i + 1) [0..<n]"
    using SortedKeys_range[OF d(2) assms(3)] key_range_sint[OF assms(3)] by simp
  then show ?thesis using d(1,3) dist k by blast
qed

theorem dataset_keys_and_values_witness:
  "\<exists>d ks d'. NewDataset count_rand 3 10 42 = Some d \<and>
    map sint (SortedKeys d) = map (\<lambda>i. int i + 1) [0..<3] \<and> distinct (ds_Keys d) \<and>
    list_all2 (value_of 10) (ds_Keys d) (ds_Values d) \<and>
    RandomKeys count_rand 2 d = Some (ks, d') \<and> length ks = 2 \<and> distinct ks \<and> set ks \<subseteq> set (ds_Keys d) \<and>
    ds_Keys d' = ds_Keys d \<and> ds_Values d' = ds_Values d"
  by (rule dataset_keys_and_values[OF count_rand_ok]) simp_all

end
