(* ===== verification/Dot.thy ===== *)
theory Dot
  imports Engine Format
begin

text \<open>
  The picture of a tree (Print and ExportDOT of src/dbms/index/shared/tree.go): the text in the
  language of Graphviz, one list element for every line that the code prints. The fill level is
  a floating point number; its text is a parameter, a function of the free bytes and the page
  size. The Graphviz program is a parameter as well.
\<close>

section \<open>Text\<close>

definition quoted :: "string \<Rightarrow> string" where
  "quoted s = CHR 0x22 # s @ [CHR 0x22]"

definition apostrophed :: "string \<Rightarrow> string" where
  "apostrophed s = CHR 0x27 # s @ [CHR 0x27]"

definition tag :: "string \<Rightarrow> (string \<times> string) list \<Rightarrow> string" where
  "tag name attrs = ''<'' @ name @ concat (map (\<lambda>(a, v). '' '' @ a @ ''='' @ quoted v) attrs) @ ''>''"

definition new_line :: string where
  "new_line = CHR 0x0A # replicate 4 (CHR 0x09)"

definition table_tag :: string where
  "table_tag = ''<'' @ tag ''TABLE'' [(''BORDER'', ''0''), (''CELLBORDER'', ''1''),
     (''CELLSPACING'', ''0''), (''CELLPADDING'', ''4'')]"

definition text_of :: "byte list \<Rightarrow> string" where
  "text_of bs = map (\<lambda>b. char_of (unat b)) bs"

text \<open>At most three bytes of a value are shown.\<close>

definition preview_text :: "byte list \<Rightarrow> string" where
  "preview_text bs = (if length bs > 3 then text_of (take 3 bs) @ ''..'' else text_of bs)"

definition leaf_preview :: "gobytes \<Rightarrow> string" where
  "leaf_preview v =
     (if glen v > 0 then '' <FONT COLOR='' @ apostrophed ''#666666'' @ ''>['' @ preview_text (gbytes v) @
        '']</FONT>'' else [])"

definition inner_preview :: "gobytes \<Rightarrow> string" where
  "inner_preview v =
     (if v \<noteq> None \<and> glen v > 0 then ''<BR/><FONT POINT-SIZE='' @ apostrophed ''7'' @ '' COLOR='' @
        apostrophed ''#444444'' @ ''>['' @ preview_text (gbytes v) @ '']</FONT>'' else [])"

definition title_row :: "string \<Rightarrow> string \<Rightarrow> string \<Rightarrow> page_id \<Rightarrow> string \<Rightarrow> string" where
  "title_row span color kind i used =
     ''<TR>'' @ tag ''TD'' [(''COLSPAN'', span), (''BGCOLOR'', color)] @ ''<B>PAGE '' @ show_nat i @
     '' ('' @ kind @ '')</B><BR/>'' @ tag ''FONT'' [(''POINT-SIZE'', ''8'')] @ ''Fill: '' @ used @
     ''%</FONT></TD></TR>''"

definition next_label :: "page_id \<Rightarrow> string" where
  "next_label nextID = (if nextID \<noteq> 0 \<and> nextID \<noteq> InvalidPage then show_nat nextID else ''NULL'')"

definition leaf_label :: "page_id \<Rightarrow> string \<Rightarrow> cell list \<Rightarrow> page_id \<Rightarrow> string" where
  "leaf_label i used cells nextID =
     table_tag @ new_line @ title_row ''2'' ''#D5E8D4'' ''LEAF'' i used @ new_line @ ''<TR>'' @
     tag ''TD'' [(''PORT'', ''keys''), (''BGCOLOR'', ''#F5F5F5''), (''ALIGN'', ''LEFT'')] @
     concat (map (\<lambda>(k, v, _). ''<B>'' @ show_int (sint k) @ ''</B>'' @ leaf_preview v @ ''<BR/>'') cells) @
     ''</TD>'' @ tag ''TD'' [(''PORT'', ''next''), (''BGCOLOR'', ''#E1F5FE''), (''VALIGN'', ''MIDDLE'')] @
     ''Next: '' @ next_label nextID @ ''</TD></TR></TABLE>>''"

definition child_field :: "nat \<Rightarrow> page_id \<Rightarrow> string" where
  "child_field j child = tag ''TD'' [(''PORT'', ''f'' @ show_nat j), (''BGCOLOR'', ''#E1F5FE'')] @
     ''P:'' @ show_nat child @ ''</TD>''"

definition inner_label :: "page_id \<Rightarrow> string \<Rightarrow> cell list \<Rightarrow> page_id \<Rightarrow> string" where
  "inner_label i used cells rightID =
     table_tag @ new_line @
     title_row (show_nat (length cells * 2 + 1)) ''#DAE8FC'' ''INTERNAL'' i used @ ''<TR>'' @
     concat (map (\<lambda>(j, k, v, child). child_field j child @ tag ''TD'' [(''BGCOLOR'', ''#FFFFFF'')] @
        ''<B>'' @ show_int (sint k) @ ''</B>'' @ inner_preview v @ ''</TD>'') (enumerate 0 cells)) @
     child_field (length cells) rightID @ ''</TR></TABLE>>''"

definition node_line :: "string \<Rightarrow> string \<Rightarrow> string" where
  "node_line nodeName label = ''  '' @ nodeName @ '' [label='' @ label @ ''];''"

definition edge_line :: "string \<Rightarrow> nat \<Rightarrow> string \<Rightarrow> string" where
  "edge_line nodeName j childName = ''  '' @ nodeName @ '':f'' @ show_nat j @ '' -> '' @ childName @ '';''"

definition link_line :: "string \<Rightarrow> string \<Rightarrow> string" where
  "link_line name target = ''  '' @ name @ '':next -> '' @ target @ '' [style=dashed, color='' @
     quoted ''#03A9F4'' @ '', constraint=false, tailclip=false];''"

definition dot_header :: "string list" where
  "dot_header = [''digraph BTree {'',
     ''  graph [ranksep=0.8, nodesep=0.5, bgcolor='' @ quoted ''#ffffff'' @ '', rankdir=TB];'',
     ''  node [shape=none, fontname='' @ quoted ''Helvetica'' @ '', fontsize=10];'',
     ''  edge [arrowsize=0.8, color='' @ quoted ''#444444'' @ ''];'']"

section \<open>Exporting\<close>

text \<open>The variables that \<open>exportRec\<close> captures, and the pager.\<close>

record dot_state =
  dot_lines :: "string list"
  nodeMap :: "page_id \<Rightarrow> string option"
  leafIDs :: "page_id list"
  counter :: nat
  dot_Pg :: pager

definition emit :: "string \<Rightarrow> dot_state \<Rightarrow> dot_state" where
  "emit line st = st\<lparr>dot_lines := dot_lines st @ [line]\<rparr>"

definition dot_name :: "nat \<Rightarrow> string" where
  "dot_name n = ''node'' @ show_nat n"

definition read_cells :: "node_accessor \<Rightarrow> page \<Rightarrow> nat \<Rightarrow> bool \<Rightarrow> cell list option" where
  "read_cells acc p n leaf = mapM (\<lambda>j. ReadCell acc p j leaf) [0..<n]"

partial_function (option) exportRec ::
  "node_accessor \<Rightarrow> (int \<Rightarrow> nat \<Rightarrow> string) \<Rightarrow> page_id \<Rightarrow> dot_state \<Rightarrow> (string \<times> dot_state) option" where
  "exportRec acc fill pageID st =
     (case nodeMap st pageID of
        Some name \<Rightarrow> Some (name, st)
      | None \<Rightarrow>
          (let nodeName = dot_name (counter st);
               st0 = st\<lparr>counter := counter st + 1, nodeMap := (nodeMap st)(pageID \<mapsto> nodeName)\<rparr>
           in case Read pageID (dot_Pg st0) of
             (Inl _, s) \<Rightarrow> Some (nodeName, st0\<lparr>dot_Pg := s\<rparr>)
           | (Inr a, s) \<Rightarrow> do {
               let st1 = st0\<lparr>dot_Pg := s\<rparr>;
               numCells \<leftarrow> NumCells (bufs s a);
               leaf \<leftarrow> isLeaf (bufs s a);
               free \<leftarrow> FreeSpace (bufs s a) numCells;
               let used = fill free (PageSize s);
               if leaf then do {
                 nextID \<leftarrow> NextLeaf (bufs s a);
                 cells \<leftarrow> read_cells acc (bufs s a) numCells True;
                 let st2 = emit (node_line nodeName (leaf_label pageID used cells nextID)) st1;
                 Some (nodeName, st2\<lparr>leafIDs := leafIDs st2 @ [pageID]\<rparr>)
               } else do {
                 cells \<leftarrow> read_cells acc (bufs s a) numCells False;
                 rightID \<leftarrow> Rightmost (bufs s a);
                 let st2 = emit (node_line nodeName (inner_label pageID used cells rightID)) st1;
                 st3 \<leftarrow> foldM (\<lambda>j st'. do {
                     (_, _, leftChild) \<leftarrow> ReadCell acc (bufs (dot_Pg st') a) j False;
                     (childName, st'') \<leftarrow> exportRec acc fill leftChild st';
                     Some (emit (edge_line nodeName j childName) st'')
                   }) [0..<numCells] st2;
                 (childName, st4) \<leftarrow> exportRec acc fill rightID st3;
                 Some (nodeName, emit (edge_line nodeName numCells childName) st4)
               }
             }))"

text \<open>The dashed arrow from a leaf to the next one; a page that cannot be read is a nil slice.\<close>

definition link_leaf :: "page_id \<Rightarrow> dot_state \<Rightarrow> dot_state option" where
  "link_leaf i st =
     (case Read i (dot_Pg st) of
        (Inl _, _) \<Rightarrow> None
      | (Inr a, s) \<Rightarrow> do {
          nextID \<leftarrow> NextLeaf (bufs s a);
          let st1 = st\<lparr>dot_Pg := s\<rparr>;
          Some (if nextID \<noteq> 0 \<and> nextID \<noteq> InvalidPage then
              (case nodeMap st nextID of
                 None \<Rightarrow> st1
               | Some target \<Rightarrow> emit (link_line (case_option [] (\<lambda>n. n) (nodeMap st i)) target) st1)
            else st1)
        })"

text \<open>\<open>created\<close> is the result of creating the file.\<close>

definition ExportDOT :: "node_accessor \<Rightarrow> (int \<Rightarrow> nat \<Rightarrow> string) \<Rightarrow> go_error + unit \<Rightarrow> tree \<Rightarrow>
    ((go_error + string list) \<times> tree) option" where
  "ExportDOT acc fill created t =
     (case created of
        Inl e \<Rightarrow> Some (Inl e, t)
      | Inr _ \<Rightarrow> do {
          (_, st) \<leftarrow> exportRec acc fill (RootID t)
            \<lparr>dot_lines = dot_header, nodeMap = (\<lambda>_. None), leafIDs = [], counter = 0, dot_Pg = Pg t\<rparr>;
          st' \<leftarrow> (if CopyUpLeaves acc \<and> length (leafIDs st) > 1 then
              (let st1 = emit ''  { rank=same;'' st;
                   st2 = fold (\<lambda>i. emit (''    '' @ case_option [] (\<lambda>n. n) (nodeMap st i) @ '';'')) (leafIDs st) st1
               in foldM link_leaf (leafIDs st) (emit ''  }'' st2))
            else Some st);
          Some (Inr (dot_lines st' @ [''}'']), t\<lparr>Pg := dot_Pg st'\<rparr>)
        })"

text \<open>Print reports what happened; \<open>graphviz\<close> is the run of the dot program on the two paths.\<close>

datatype print_report = ExportError go_error | GraphvizError go_error | Exported string

definition Tree_Print :: "node_accessor \<Rightarrow> (int \<Rightarrow> nat \<Rightarrow> string) \<Rightarrow> (string \<Rightarrow> go_error + unit) \<Rightarrow>
    (string \<Rightarrow> string \<Rightarrow> string list \<Rightarrow> go_error + unit) \<Rightarrow> string \<Rightarrow> tree \<Rightarrow> (print_report \<times> tree) option" where
  "Tree_Print acc fill create graphviz name t = do {
     let dotPath = ''results/'' @ name @ ''.dot'';
     let pngPath = ''results/'' @ name @ ''.png'';
     (r, t1) \<leftarrow> ExportDOT acc fill (create dotPath) t;
     Some (case r of
         Inl e \<Rightarrow> (ExportError e, t1)
       | Inr ls \<Rightarrow> (case graphviz dotPath pngPath ls of
             Inl e \<Rightarrow> (GraphvizError e, t1)
           | Inr _ \<Rightarrow> (Exported pngPath, t1)))
   }"

declare exportRec.simps [code]

lemma emit_simps [simp]:
  "dot_lines (emit x st) = dot_lines st @ [x]" "nodeMap (emit x st) = nodeMap st"
  "leafIDs (emit x st) = leafIDs st" "counter (emit x st) = counter st" "dot_Pg (emit x st) = dot_Pg st"
  by (simp_all add: emit_def)

end
