(* ===== verification/DotSpec.thy ===== *)
theory DotSpec
  imports Dot BTreeIndex BPTreeIndex
begin

text \<open>
  ExportDOT draws the tree: the lines are the drawing of the tree that the pages represent, with
  every page drawn once, under a name of its own, before its subtrees.
\<close>

section \<open>The drawing of a tree\<close>

lemma dot_name_inject: "dot_name m = dot_name n \<longleftrightarrow> m = n"
  by (simp add: dot_name_def show_nat_inject)

text \<open>
  \<open>used leaf n\<close> is the text of the fill level of a page with n cells, \<open>nx\<close> the next leaf of a
  page; the nodes of a tree get the numbers from \<open>c\<close> on, in the order of \<open>ids\<close>.
\<close>

fun render :: "(bool \<Rightarrow> nat \<Rightarrow> string) \<Rightarrow> (page_id \<Rightarrow> page_id) \<Rightarrow> nat \<Rightarrow> bt \<Rightarrow> string list"
  and renders :: "(bool \<Rightarrow> nat \<Rightarrow> string) \<Rightarrow> (page_id \<Rightarrow> page_id) \<Rightarrow> string \<Rightarrow> nat \<Rightarrow> nat \<Rightarrow> bt list \<Rightarrow> string list"
where
  "render used nx c (Lf i xs) =
     [node_line (dot_name c) (leaf_label i (used True (length xs)) (map leaf_cell xs) (nx i))]"
| "render used nx c (Nd i ts ks) =
     node_line (dot_name c) (inner_label i (used False (length ks)) (map2 node_cell ks ts) (root_id (last ts)))
       # renders used nx (dot_name c) (Suc c) 0 ts"
| "renders used nx name c j [] = []"
| "renders used nx name c j (t # ts) = render used nx c t @ edge_line name j (dot_name c)
       # renders used nx name (c + length (ids t)) (Suc j) ts"

lemma renders_append:
  "renders used nx name c j (ts @ us) = renders used nx name c j ts @
     renders used nx name (c + length (concat (map ids ts))) (j + length ts) us"
  by (induction ts arbitrary: c j) (simp_all add: add.assoc)

definition name_map :: "nat \<Rightarrow> page_id list \<Rightarrow> page_id \<Rightarrow> string option" where
  "name_map c is = map_of (zip is (map dot_name [c..<c + length is]))"

lemma dom_name_map: "dom (name_map c is) = set is"
  by (simp add: name_map_def dom_map_of_zip)

lemma name_map_simps [simp]: "name_map c [] = Map.empty"
  "name_map c (i # is) = (name_map (Suc c) is)(i \<mapsto> dot_name c)"
  by (simp_all add: name_map_def upt_conv_Cons fun_upd_def del: upt_Suc)

lemma name_map_append:
  "distinct (xs @ ys) \<Longrightarrow> name_map c (xs @ ys) = name_map c xs ++ name_map (c + length xs) ys"
proof (induction xs arbitrary: c)
  case (Cons x xs)
  then have "x \<notin> dom (name_map (Suc c + length xs) ys)" by (simp add: dom_name_map)
  moreover have "name_map (Suc c) (xs @ ys) = name_map (Suc c) xs ++ name_map (Suc c + length xs) ys"
    using Cons by simp
  ultimately show ?case
    by (simp only: append_Cons name_map_simps map_add_upd_left length_Cons add_Suc add_Suc_right
        not_False_eq_True)
qed simp

lemma name_map_nth: "distinct is \<Longrightarrow> j < length is \<Longrightarrow> name_map c is (is ! j) = Some (dot_name (c + j))"
  by (simp add: name_map_def map_of_zip_nth)

definition drawn :: "dot_state \<Rightarrow> string list \<Rightarrow> page_id list \<Rightarrow> page_id list \<Rightarrow> pager \<Rightarrow> dot_state" where
  "drawn st ls is lvs s = st\<lparr>dot_lines := dot_lines st @ ls, nodeMap := nodeMap st ++ name_map (counter st) is,
     leafIDs := leafIDs st @ lvs, counter := counter st + length is, dot_Pg := s\<rparr>"

lemma drawn_simps [simp]:
  "dot_lines (drawn st ls is lvs s) = dot_lines st @ ls"
  "nodeMap (drawn st ls is lvs s) = nodeMap st ++ name_map (counter st) is"
  "leafIDs (drawn st ls is lvs s) = leafIDs st @ lvs"
  "counter (drawn st ls is lvs s) = counter st + length is" "dot_Pg (drawn st ls is lvs s) = s"
  by (simp_all add: drawn_def)

lemma drawn_drawn:
  "distinct (is @ js) \<Longrightarrow>
     drawn (drawn st ls is lvs s) ls' js lvs' s' = drawn st (ls @ ls') (is @ js) (lvs @ lvs') s'"
  by (simp add: drawn_def name_map_append add.assoc)

lemma emit_drawn: "emit x (drawn st ls is lvs s) = drawn st (ls @ [x]) is lvs s"
  by (simp add: drawn_def emit_def)

lemma emit_node:
  "emit x (st\<lparr>counter := Suc (counter st), nodeMap := (nodeMap st)(i \<mapsto> dot_name (counter st)), dot_Pg := s\<rparr>) =
     drawn st [x] [i] [] s"
  by (cases st) (simp add: drawn_def emit_def)

lemma emit_leaf_line: "(drawn st ls is lvs s)\<lparr>leafIDs := leafIDs st @ lvs'\<rparr> = drawn st ls is lvs' s"
  by (simp add: drawn_def)

lemma drawn_none: "i \<notin> set is \<Longrightarrow> nodeMap st i = None \<Longrightarrow> nodeMap (drawn st ls is lvs s) i = None"
proof -
  assume "i \<notin> set is" "nodeMap st i = None"
  then have "name_map (counter st) is i = None" using dom_name_map by (metis domIff)
  then show ?thesis using \<open>nodeMap st i = None\<close> by (simp add: map_add_def)
qed

definition next_of :: "pager \<Rightarrow> page_id \<Rightarrow> page_id" where
  "next_of s i = u32_at (disk_page s i) 9"

text \<open>The fill level of a page with n cells of one size.\<close>

definition fill_text :: "(int \<Rightarrow> nat \<Rightarrow> string) \<Rightarrow> (bool \<Rightarrow> nat) \<Rightarrow> nat \<Rightarrow> bool \<Rightarrow> nat \<Rightarrow> string" where
  "fill_text fill cell_size ps leaf n = fill (int (ps - n * cell_size leaf) - int (ptr_off n)) ps"

text \<open>The whole picture: the nodes, and the dashed arrows along the leaves of a B+ tree.\<close>

definition name_in :: "bt \<Rightarrow> page_id \<Rightarrow> string" where
  "name_in t i = case_option [] (\<lambda>n. n) (name_map 0 (ids t) i)"

definition picture :: "bool \<Rightarrow> (bool \<Rightarrow> nat \<Rightarrow> string) \<Rightarrow> (page_id \<Rightarrow> page_id) \<Rightarrow> bt \<Rightarrow> string list" where
  "picture linked used nx t = dot_header @ render used nx 0 t @
     (if linked \<and> length (leaves t) > 1 then
        ''  { rank=same;'' # map (\<lambda>i. ''    '' @ name_in t i @ '';'') (leaves t) @ ''  }'' #
        map2 (\<lambda>i j. link_line (name_in t i) (name_in t j)) (leaves t) (tl (leaves t))
      else []) @ [''}'']"

lemma fold_emit: "fold (\<lambda>i. emit (f i)) is st = st\<lparr>dot_lines := dot_lines st @ map f is\<rparr>"
  by (induction "is" arbitrary: st) (simp_all add: emit_def)

lemma foldM_Suc:
  "foldM f [0..<j] s = Some s1 \<Longrightarrow> f j s1 = Some s2 \<Longrightarrow> foldM f [0..<Suc j] s = Some s2"
  by (simp add: foldM_append)

context tree_codec
begin

lemma leaf_cells:
  assumes "tree_at l ps P (Lf i xs)"
  shows "read_cells acc (P i) (length xs) True = Some (map leaf_cell xs)"
    "FreeSpace (P i) (length xs) = Some (int (ps - length xs * sz l True) - int (ptr_off (length xs)))"
proof -
  have "read_cells acc (P i) (length xs) True = Some (map (\<lambda>j. leaf_cell (xs ! j)) [0..<length xs])"
    unfolding read_cells_def by (rule mapM_Some) (simp add: leaf_reads(5)[OF assms] leaf_cell_def)
  also have "map (\<lambda>j. leaf_cell (xs ! j)) [0..<length xs] = map leaf_cell xs"
    by (rule nth_equalityI) simp_all
  finally show "read_cells acc (P i) (length xs) True = Some (map leaf_cell xs)" .
  have "node_rep enc norm True (P i) (map leaf_cell xs) (ps - length xs * sz l True)" using assms by simp
  from node_repD(8)[OF this]
  show "FreeSpace (P i) (length xs) = Some (int (ps - length xs * sz l True) - int (ptr_off (length xs)))" .
qed

lemma node_cells:
  assumes "tree_at l ps P (Nd i ts ks)"
  shows "read_cells acc (P i) (length ks) False = Some (map2 node_cell ks ts)"
    "FreeSpace (P i) (length ks) = Some (int (ps - length ks * sz l False) - int (ptr_off (length ks)))"
proof -
  have n: "length ts = Suc (length ks)" using assms by simp
  have "read_cells acc (P i) (length ks) False = Some (map (\<lambda>j. node_cell (ks ! j) (ts ! j)) [0..<length ks])"
    unfolding read_cells_def by (rule mapM_Some) (simp add: node_reads(5)[OF assms] node_cell_def)
  also have "map (\<lambda>j. node_cell (ks ! j) (ts ! j)) [0..<length ks] = map2 node_cell ks ts"
    by (rule nth_equalityI) (simp_all add: n)
  finally show "read_cells acc (P i) (length ks) False = Some (map2 node_cell ks ts)" .
  have "node_rep enc norm False (P i) (map2 node_cell ks ts) (ps - length ks * sz l False)" using assms by simp
  from node_repD(8)[OF this]
  show "FreeSpace (P i) (length ks) = Some (int (ps - length ks * sz l False) - int (ptr_off (length ks)))" .
qed

text \<open>What drawing a subtree needs of the state.\<close>

definition drawable :: "nat \<Rightarrow> nat \<Rightarrow> nat \<Rightarrow> bt \<Rightarrow> dot_state \<Rightarrow> bool" where
  "drawable l ps h t st \<longleftrightarrow> bal h t \<and> pager_inv {} (dot_Pg st) \<and> PageSize (dot_Pg st) = ps \<and>
     tree_at l ps (disk_page (dot_Pg st)) t \<and> set (ids t) \<subseteq> {..<pageCount (dot_Pg st)} \<and>
     distinct (ids t) \<and> (\<forall>i \<in> set (ids t). nodeMap st i = None)"

lemma drawable_sub:
  assumes d: "drawable l ps (Suc h) (Nd i ts ks) st" and ts: "ts = as @ u # bs"
    and s: "unchanged (dot_Pg st) s"
  shows "drawable l ps h u (drawn st ls (i # concat (map ids as)) lvs s)"
proof -
  note U = unchangedD[OF s]
  have u: "u \<in> set ts" using ts by simp
  have "nodeMap (drawn st ls (i # concat (map ids as)) lvs s) k = None" if "k \<in> set (ids u)" for k
  proof (rule drawn_none)
    show "k \<notin> set (i # concat (map ids as))" using d ts that by (auto simp: drawable_def)
    show "nodeMap st k = None" using d ids_below[OF u that] by (auto simp: drawable_def)
  qed
  moreover have "distinct (ids u)" using d ts by (auto simp: drawable_def)
  moreover have "set (ids u) \<subseteq> {..<pageCount s}" using d U(3) u by (fastforce simp: drawable_def)
  moreover have "bal h u" "tree_at l ps (disk_page s) u" using d u U(2) by (auto simp: drawable_def)
  ultimately show ?thesis using U(1,4) d by (simp add: drawable_def)
qed

lemma exportRec_spec:
  "drawable l ps h t st \<Longrightarrow>
   \<exists>s'. exportRec acc fill (root_id t) st = Some (dot_name (counter st),
     drawn st (render (fill_text fill (sz l) ps) (next_of (dot_Pg st)) (counter st) t) (ids t) (leaves t) s') \<and>
     unchanged (dot_Pg st) s'"
proof (induction h arbitrary: t st)
  case 0
  then obtain i xs where t: "t = Lf i xs" by (cases t) (auto simp: drawable_def)
  have D: "pager_inv {} (dot_Pg st)" "i < pageCount (dot_Pg st)" "PageSize (dot_Pg st) = ps"
    "nodeMap st i = None" and T: "tree_at l ps (disk_page (dot_Pg st)) (Lf i xs)"
    using 0 t by (simp_all add: drawable_def)
  obtain a s' where R: "Read i (dot_Pg st) = (Inr a, s')" "unchanged (dot_Pg st) s'"
    "bufs s' a = disk_page (dot_Pg st) i"
    by (rule Read_unchanged[OF D(1,2)])
  have "PageSize s' = ps" using unchangedD(4)[OF R(2)] D(3) by simp
  then show ?case
    using R D(4) leaf_reads(1,2,4)[OF T] leaf_cells[OF T] t
    by (subst exportRec.simps) (simp add: Let_def fill_text_def next_of_def emit_node emit_leaf_line, blast)
next
  case (Suc h)
  then obtain i ts ks where t: "t = Nd i ts ks" by (cases t) (auto simp: drawable_def)
  have D: "pager_inv {} (dot_Pg st)" "i < pageCount (dot_Pg st)" "PageSize (dot_Pg st) = ps"
    "nodeMap st i = None" "distinct (i # concat (map ids ts))" "length ts = Suc (length ks)"
    and T: "tree_at l ps (disk_page (dot_Pg st)) (Nd i ts ks)"
    using Suc.prems t by (simp_all add: drawable_def)
  obtain a s1 where R: "Read i (dot_Pg st) = (Inr a, s1)" "unchanged (dot_Pg st) s1" "owns_buf s1 i a"
    "bufs s1 a = disk_page (dot_Pg st) i"
    by (rule Read_unchanged[OF D(1,2)])
  note U1 = unchangedD[OF R(2)]
  note rd = node_reads[OF T]
  let ?name = "dot_name (counter st)" and ?used = "fill_text fill (sz l) ps" and ?nx = "next_of (dot_Pg st)"
  let ?c = "counter st"
  let ?first = "node_line ?name (inner_label i (?used False (length ks)) (map2 node_cell ks ts) (root_id (last ts)))"
  let ?part = "\<lambda>j s. drawn st (?first # renders ?used ?nx ?name (Suc ?c) 0 (take j ts))
    (i # concat (map ids (take j ts))) (concat (map leaves (take j ts))) s"
  have child: "\<exists>s''. exportRec acc fill (root_id (ts ! j)) (?part j s') =
      Some (dot_name (?c + Suc (length (concat (map ids (take j ts))))),
        drawn (?part j s') (render ?used ?nx (?c + Suc (length (concat (map ids (take j ts))))) (ts ! j))
          (ids (ts ! j)) (leaves (ts ! j)) s'') \<and> unchanged s' s''"
    if "j < length ts" "unchanged s1 s'" for j s'
  proof -
    have s: "unchanged (dot_Pg st) s'" using unchanged_trans R(2) that(2) by blast
    have n: "next_of s' = ?nx" using unchangedD(2)[OF s] by (simp add: next_of_def fun_eq_iff)
    have "drawable l ps h (ts ! j) (?part j s')"
      by (rule drawable_sub[OF Suc.prems[unfolded t] id_take_nth_drop[OF that(1)] s])
    from Suc.IH[OF this] show ?thesis unfolding drawn_simps n by simp
  qed
  have step: "emit (edge_line ?name j (dot_name (?c + Suc (length (concat (map ids (take j ts)))))))
      (drawn (?part j s') (render ?used ?nx (?c + Suc (length (concat (map ids (take j ts))))) (ts ! j))
          (ids (ts ! j)) (leaves (ts ! j)) s'') = ?part (Suc j) s''" if "j < length ts" for j s' s''
  proof -
    have "distinct (i # concat (map ids (take (Suc j) ts)))"
      using D(5) by (metis (no_types, lifting) append_take_drop_id concat_append distinct_append map_append
        distinct.simps(2) UnI1 set_append)
    then have d: "distinct ((i # concat (map ids (take j ts))) @ ids (ts ! j))"
      using that by (simp add: take_Suc_conv_app_nth)
    show ?thesis
      unfolding drawn_drawn[OF d] emit_drawn
      using that by (simp add: take_Suc_conv_app_nth renders_append add.commute min_def)
  qed
  let ?body = "\<lambda>j st'. do {
                     (_, _, leftChild) \<leftarrow> ReadCell acc (bufs (dot_Pg st') a) j False;
                     (childName, st'') \<leftarrow> exportRec acc fill leftChild st';
                     Some (emit (edge_line ?name j childName) st'')
                   }"
  have loop: "\<exists>s2. foldM ?body [0..<j] (?part 0 s1) = Some (?part j s2) \<and> unchanged s1 s2"
    if "j \<le> length ks" for j
    using that
  proof (induction j)
    case 0
    show ?case using unchanged_refl[OF U1(1)] by (intro exI[of _ s1]) simp
  next
    case (Suc j)
    then obtain s2 where F: "foldM ?body [0..<j] (?part 0 s1) = Some (?part j s2)" "unchanged s1 s2" by auto
    have b: "bufs s2 a = disk_page (dot_Pg st) i" using unchangedD(6)[OF F(2) R(3)] R(4) by simp
    have j: "j < length ts" "j < length ks" using Suc.prems D(6) by simp_all
    obtain s3 where C: "exportRec acc fill (root_id (ts ! j)) (?part j s2) =
      Some (dot_name (?c + Suc (length (concat (map ids (take j ts))))),
        drawn (?part j s2) (render ?used ?nx (?c + Suc (length (concat (map ids (take j ts))))) (ts ! j))
          (ids (ts ! j)) (leaves (ts ! j)) s3)" "unchanged s2 s3"
      using child[OF j(1) F(2)] by blast
    have "?body j (?part j s2) = Some (?part (Suc j) s3)"
      using b rd(5)[OF j(2)] C(1) step[OF j(1)] by simp
    then have "foldM ?body [0..<Suc j] (?part 0 s1) = Some (?part (Suc j) s3)"
      by (rule foldM_Suc[OF F(1)])
    then show ?case using unchanged_trans[OF F(2) C(2)] by blast
  qed
  obtain s2 where F: "foldM ?body [0..<length ks] (?part 0 s1) = Some (?part (length ks) s2)" "unchanged s1 s2"
    using loop[of "length ks"] by blast
  have lst: "length ks < length ts" "ts ! length ks = last ts" "take (Suc (length ks)) ts = ts"
    using D(6) by (simp_all add: last_conv_nth[of ts] flip: length_greater_0_conv)
  obtain s3 where C: "exportRec acc fill (root_id (last ts)) (?part (length ks) s2) =
      Some (dot_name (?c + Suc (length (concat (map ids (take (length ks) ts))))),
        drawn (?part (length ks) s2)
          (render ?used ?nx (?c + Suc (length (concat (map ids (take (length ks) ts))))) (last ts))
          (ids (last ts)) (leaves (last ts)) s3)" "unchanged s2 s3"
    using child[OF lst(1) F(2)] unfolding lst(2) by blast
  note final = step[OF lst(1), of s2 s3, unfolded lst(2,3)]
  have "exportRec acc fill i st = Some (?name, ?part (length ts) s3)"
  proof -
    have "PageSize s1 = ps" using U1(4) D(3) by simp
    then show ?thesis
      using R(1,4) D(4) rd(1,2,4) node_cells[OF T] F(1) C(1) final
      by (subst exportRec.simps) (simp add: Let_def fill_text_def emit_node)
  qed
  then show ?case using unchanged_trans[OF R(2) unchanged_trans[OF F(2) C(2)]] t by auto
qed

section \<open>The links between leaves\<close>

lemma lines_pager: "(st :: dot_state)\<lparr>dot_Pg := s, dot_lines := x\<rparr> = st\<lparr>dot_lines := x, dot_Pg := s\<rparr>"
  by (cases st) simp

lemma link_leaf_spec:
  assumes inv: "pager_inv {} (dot_Pg st)" and i: "i < pageCount (dot_Pg st)"
    and T: "tree_at l ps (disk_page (dot_Pg st)) (Lf i xs)" and nm: "nodeMap st i = Some n"
    and nx: "next_of (dot_Pg st) i \<noteq> 0"
  shows "\<exists>s'. link_leaf i st = Some (st\<lparr>dot_lines := dot_lines st @
      (case nodeMap st (next_of (dot_Pg st) i) of None \<Rightarrow> [] | Some m \<Rightarrow>
         if next_of (dot_Pg st) i = InvalidPage then [] else [link_line n m]), dot_Pg := s'\<rparr>) \<and>
    unchanged (dot_Pg st) s'"
proof -
  obtain a s' where R: "Read i (dot_Pg st) = (Inr a, s')" "unchanged (dot_Pg st) s'"
    "bufs s' a = disk_page (dot_Pg st) i"
    by (rule Read_unchanged[OF inv i])
  have "NextLeaf (bufs s' a) = Some (next_of (dot_Pg st) i)"
    using leaf_reads(4)[OF T] R(3) by (simp add: next_of_def)
  then show ?thesis
    using R(1) nm nx by (intro exI[of _ s'] conjI R(2))
      (auto simp: link_leaf_def emit_def Let_def lines_pager split: option.splits)
qed

lemma link_leaves_spec:
  assumes "\<And>i. i \<in> set is \<Longrightarrow> i < pageCount (dot_Pg st) \<and> 0 < i \<and> i < InvalidPage \<and>
      (\<exists>xs. tree_at l ps (disk_page (dot_Pg st)) (Lf i xs)) \<and> nodeMap st i = Some (nm i)"
  shows "pager_inv {} (dot_Pg st) \<Longrightarrow> chain (disk_page (dot_Pg st)) is InvalidPage \<Longrightarrow>
    \<exists>s'. foldM link_leaf is st = Some (st\<lparr>dot_lines := dot_lines st @
       map2 (\<lambda>i j. link_line (nm i) (nm j)) is (tl is), dot_Pg := s'\<rparr>) \<and> unchanged (dot_Pg st) s'"
  using assms
proof (induction "is" arbitrary: st)
  case Nil
  then show ?case by (intro exI[of _ "dot_Pg st"]) (simp add: unchanged_refl)
next
  case (Cons i "is")
  obtain xs where I: "i < pageCount (dot_Pg st)" "tree_at l ps (disk_page (dot_Pg st)) (Lf i xs)"
    "nodeMap st i = Some (nm i)" using Cons.prems(3)[of i] by auto
  have nx: "next_of (dot_Pg st) i = hd (is @ [InvalidPage])" using Cons.prems(2) by (simp add: next_of_def)
  have "next_of (dot_Pg st) i \<noteq> 0" using nx Cons.prems(3) by (cases "is") force+
  then obtain s1 where L: "link_leaf i st = Some (st\<lparr>dot_lines := dot_lines st @
      (case nodeMap st (next_of (dot_Pg st) i) of None \<Rightarrow> [] | Some m \<Rightarrow>
         if next_of (dot_Pg st) i = InvalidPage then [] else [link_line (nm i) m]), dot_Pg := s1\<rparr>)"
    "unchanged (dot_Pg st) s1"
    using link_leaf_spec[OF Cons.prems(1) I] by blast
  let ?new = "map2 (\<lambda>i j. link_line (nm i) (nm j)) [i] is"
  have new: "(case nodeMap st (next_of (dot_Pg st) i) of None \<Rightarrow> [] | Some m \<Rightarrow>
         if next_of (dot_Pg st) i = InvalidPage then [] else [link_line (nm i) m]) = ?new"
  proof (cases "is")
    case Nil
    then show ?thesis using nx by (simp split: option.split)
  next
    case (Cons j js)
    then show ?thesis using nx Cons.prems(3)[of j] by simp
  qed
  let ?st = "st\<lparr>dot_lines := dot_lines st @ ?new, dot_Pg := s1\<rparr>"
  note U = unchangedD[OF L(2)]
  have c: "chain (disk_page (dot_Pg ?st)) is InvalidPage" using Cons.prems(2) U(2) by simp
  have p: "\<And>k. k \<in> set is \<Longrightarrow> k < pageCount (dot_Pg ?st) \<and> 0 < k \<and> k < InvalidPage \<and>
      (\<exists>xs. tree_at l ps (disk_page (dot_Pg ?st)) (Lf k xs)) \<and> nodeMap ?st k = Some (nm k)"
    using Cons.prems(3) U(2,3) by simp
  obtain s' where F: "foldM link_leaf is ?st = Some (?st\<lparr>dot_lines := dot_lines ?st @
       map2 (\<lambda>i j. link_line (nm i) (nm j)) is (tl is), dot_Pg := s'\<rparr>)" "unchanged (dot_Pg ?st) s'"
    using Cons.IH[OF _ c p] U(1) by auto
  have "?new @ map2 (\<lambda>i j. link_line (nm i) (nm j)) is (tl is) =
      map2 (\<lambda>i j. link_line (nm i) (nm j)) (i # is) (tl (i # is))" by (cases "is") simp_all
  then have "foldM link_leaf (i # is) st = Some (st\<lparr>dot_lines := dot_lines st @
       map2 (\<lambda>i j. link_line (nm i) (nm j)) (i # is) (tl (i # is)), dot_Pg := s'\<rparr>)"
    using L(1) F(1) unfolding new by simp
  then show ?case using unchanged_trans[OF L(2)] F(2) by auto
qed

lemma leaf_at: "tree_at l ps P t \<Longrightarrow> i \<in> set (leaves t) \<Longrightarrow> \<exists>xs. tree_at l ps P (Lf i xs)"
  by (induction t) auto

lemma ExportDOT_spec:
  assumes inv: "tree_inv l ps tr h t" and n: "pageCount (Pg tr) < InvalidPage"
  shows "\<exists>s'. ExportDOT acc fill (Inr ()) tr =
      Some (Inr (picture cu (fill_text fill (sz l) ps) (next_of (Pg tr)) t), tr\<lparr>Pg := s'\<rparr>) \<and>
    unchanged (Pg tr) s'"
proof -
  note T = tree_invD[OF inv]
  let ?st = "\<lparr>dot_lines = dot_header, nodeMap = (\<lambda>_. None), leafIDs = [], counter = 0, dot_Pg = Pg tr\<rparr>"
  let ?used = "fill_text fill (sz l) ps" and ?nx = "next_of (Pg tr)"
  have "drawable l ps h t ?st" using T by (auto simp: drawable_def)
  from exportRec_spec[OF this, of fill] obtain s1 where
    E: "exportRec acc fill (RootID tr) ?st =
      Some (dot_name 0, drawn ?st (render ?used ?nx 0 t) (ids t) (leaves t) s1)" "unchanged (Pg tr) s1"
    using T(2) by auto
  show ?thesis
  proof (cases "cu \<and> length (leaves t) > 1")
    case False
    then show ?thesis using E by (auto simp: ExportDOT_def picture_def)
  next
    case True
    note U = unchangedD[OF E(2)]
    let ?drawn = "drawn ?st (render ?used ?nx 0 t) (ids t) (leaves t) s1"
    let ?st2 = "?drawn\<lparr>dot_lines := dot_lines ?drawn @ ''  { rank=same;'' #
      map (\<lambda>i. ''    '' @ name_in t i @ '';'') (leaves t) @ [''  }'']\<rparr>"
    have named: "name_map 0 (ids t) i = Some (name_in t i)" if "i \<in> set (leaves t)" for i
    proof -
      have "i \<in> dom (name_map 0 (ids t))" using that leaves_ids dom_name_map by blast
      then show ?thesis by (auto simp: name_in_def)
    qed
    have "i < pageCount (dot_Pg ?st2) \<and> 0 < i \<and> i < InvalidPage \<and>
        (\<exists>xs. tree_at l ps (disk_page (dot_Pg ?st2)) (Lf i xs)) \<and> nodeMap ?st2 i = Some (name_in t i)"
      if "i \<in> set (leaves t)" for i
    proof -
      have "i \<in> {2..<pageCount (Pg tr)}" using that leaves_ids T(4) by blast
      then show ?thesis using U(2,3) n leaf_at[OF T(10) that] named[OF that] by simp
    qed
    moreover have "chain (disk_page (dot_Pg ?st2)) (leaves t) InvalidPage" using T(6) True U(2) by simp
    ultimately obtain s' where L: "foldM link_leaf (leaves t) ?st2 = Some (?st2\<lparr>dot_lines := dot_lines ?st2 @
       map2 (\<lambda>i j. link_line (name_in t i) (name_in t j)) (leaves t) (tl (leaves t)), dot_Pg := s'\<rparr>)"
      "unchanged s1 s'"
      using link_leaves_spec[of "leaves t" ?st2 l ps "name_in t"] U(1) by auto
    have st2: "emit ''  }'' (fold (\<lambda>i. emit (''    '' @ case_option [] (\<lambda>n. n) (nodeMap ?drawn i) @ '';''))
        (leaves t) (emit ''  { rank=same;'' ?drawn)) = ?st2"
      unfolding fold_emit by (simp add: emit_def name_in_def)
    show ?thesis
    proof (intro exI[of _ s'] conjI unchanged_trans[OF E(2) L(2)])
      have lv: "leafIDs ?drawn = leaves t" by simp
      show "ExportDOT acc fill (Inr ()) tr =
          Some (Inr (picture cu ?used ?nx t), tr\<lparr>Pg := s'\<rparr>)"
        unfolding ExportDOT_def sum.case E(1) bind.simps prod.case lv Let_def st2 L(1) if_P[OF True]
        using True by (simp add: picture_def)
    qed
  qed
qed

lemma holds_export:
  assumes "holds l ps tr es"
  shows "\<exists>h t tr'. ExportDOT acc fill (Inr ()) tr =
      Some (Inr (picture cu (fill_text fill (sz l) ps) (next_of (Pg tr)) t), tr') \<and> holds l ps tr' es \<and>
    bal h t \<and> entries cu t = es \<and> distinct (ids t) \<and>
    (cu \<longrightarrow> map (next_of (Pg tr)) (leaves t) = tl (leaves t) @ [InvalidPage])"
proof -
  obtain h t where H: "tree_inv l ps tr h t" "entries cu t = es" "pageCount (Pg tr) + h < 2 ^ 32 - 1"
    by (rule holdsE[OF assms])
  note T = tree_invD[OF H(1)]
  have chain: "map (next_of s) is = tl is @ [nx]" if "chain (disk_page s) is nx" "is \<noteq> []" for s "is" nx
    using that
  proof (induction "is")
    case (Cons i "is")
    then show ?case by (cases "is") (simp_all add: next_of_def)
  qed simp
  obtain s' where "ExportDOT acc fill (Inr ()) tr =
      Some (Inr (picture cu (fill_text fill (sz l) ps) (next_of (Pg tr)) t), tr\<lparr>Pg := s'\<rparr>)"
    "unchanged (Pg tr) s'"
    using ExportDOT_spec[OF H(1), of fill] H(3) by auto
  then show ?thesis
    using holds_unchanged[OF assms] H(2) T(7,11) chain[OF T(6)] leaves_nonempty[OF T(7)] by blast
qed

end

section \<open>Properties\<close>

text \<open>
  C25. The picture of a B-tree shows the tree that is stored: after any sequence of operations on a
  new file, ExportDOT succeeds and writes the drawing of a balanced tree whose entries, read from
  left to right, are the stored entries in order; every page is drawn exactly once, its node
  before its subtrees, with one edge to each of them; and exporting does not change what the tree
  holds, so further operations behave as before.
\<close>

theorem btree_export:
  assumes "empty_tree_file f" "btree_geom l ps" "\<forall>op \<in> set (ops @ ops'). fixed_length l op"
    "inserts (ops @ ops') \<le> entry_limit"
  shows "\<exists>t outs t1 h a nx t2 t3. BTree_Open f cap ps = Some (Inr t) \<and>
    run_ops BTree_index ops t = Some (outs, t1) \<and>
    ExportDOT BTreeAcc fill (Inr ()) t1 =
      Some (Inr (picture False (fill_text fill (\<lambda>_. 14 + l) ps) nx a), t2) \<and>
    bal h a \<and> distinct (ids a) \<and> entries False a = spec_final trimmed ops [] \<and>
    run_ops BTree_index ops' t2 =
      Some (spec_run trimmed (Inr None) ops' (spec_final trimmed ops []), t3)"
proof -
  obtain t where O: "BTree_Open f cap ps = Some (Inr t)" "btt.holds l ps t []"
    using btd.open_law[of f l ps cap] assms(1,2) by auto
  have i: "inserts ops + inserts ops' \<le> entry_limit" using assms(4) by (simp add: inserts_append)
  obtain t1 where R: "run_ops BTree_index ops t = Some (spec_run trimmed (Inr None) ops [], t1)"
    "btt.holds l ps t1 (spec_final trimmed ops [])"
    using bti.run_ops_exact[OF O(2), of ops] assms(3) i by (auto simp: fixed_length_allowed)
  obtain h a t2 where E: "ExportDOT BTreeAcc fill (Inr ()) t1 =
      Some (Inr (picture False (fill_text fill (\<lambda>_. 14 + l) ps) (next_of (Pg t1)) a), t2)"
    "btt.holds l ps t2 (spec_final trimmed ops [])" "bal h a" "distinct (ids a)"
    "entries False a = spec_final trimmed ops []"
    using btt.holds_export[OF R(2), of fill] by auto
  have "length (spec_final trimmed ops []) + inserts ops' \<le> entry_limit"
    using length_spec_final[of trimmed ops "[]"] i by simp
  then obtain t3 where "run_ops BTree_index ops' t2 =
      Some (spec_run trimmed (Inr None) ops' (spec_final trimmed ops []), t3)"
    using bti.run_ops_exact[OF E(2), of ops'] assms(3) by (auto simp: fixed_length_allowed)
  then show ?thesis using O(1) R(1) E(1,3-5) by blast
qed

theorem btree_export_witness:
  "\<exists>t outs t1 h a nx t2 t3. BTree_Open empty_file 2 64 = Some (Inr t) \<and>
    run_ops BTree_index [OInsert 5 (Some [1]), OInsert 3 (Some [2])] t = Some (outs, t1) \<and>
    ExportDOT BTreeAcc (\<lambda>_ _. ''1.0'') (Inr ()) t1 =
      Some (Inr (picture False (fill_text (\<lambda>_ _. ''1.0'') (\<lambda>_. 14 + 1) 64) nx a), t2) \<and>
    bal h a \<and> distinct (ids a) \<and> entries False a = [(3, Some [2]), (5, Some [1])] \<and>
    run_ops BTree_index [OGet 5] t2 = Some ([RGet (Inr (Some [1]))], t3)"
  using btree_export[of empty_file 1 64 "[OInsert 5 (Some [1]), OInsert 3 (Some [2])]" "[OGet 5]" 2 "\<lambda>_ _. ''1.0''"]
  by (simp add: empty_tree_file_def btree_geom_def node_geom_def entry_limit_def spec_final_def trimmed_def)

text \<open>
  C26. The picture of a B+ tree shows the stored tree and its leaf chain: after any sequence of
  operations on a new file, ExportDOT writes the drawing of a balanced tree whose leaves hold the
  stored entries in order, with a dashed arrow from every leaf to the next one and none from the
  last, in the order in which a range scan visits them.
\<close>

theorem bptree_export:
  assumes "empty_tree_file f" "bptree_geom l ps" "\<forall>op \<in> set ops. fixed_length l op"
    "inserts ops \<le> entry_limit"
  shows "\<exists>t outs t1 h a nx t2. BPTree_Open f cap ps = Some (Inr t) \<and>
    run_ops BPTree_index ops t = Some (outs, t1) \<and>
    ExportDOT BPTreeAcc fill (Inr ()) t1 =
      Some (Inr (picture True (fill_text fill (\<lambda>leaf. if leaf then 10 + l else 12) ps) nx a), t2) \<and>
    bal h a \<and> distinct (ids a) \<and> entries True a = spec_final trimmed ops [] \<and>
    map nx (leaves a) = tl (leaves a) @ [InvalidPage]"
proof -
  obtain t where O: "BPTree_Open f cap ps = Some (Inr t)" "bpt.holds l ps t []"
    using bpd.open_law[of f l ps cap] assms(1,2) by auto
  obtain t1 where R: "run_ops BPTree_index ops t = Some (spec_run trimmed (Inr None) ops [], t1)"
    "bpt.holds l ps t1 (spec_final trimmed ops [])"
    using bpi.run_ops_exact[OF O(2), of ops] assms(3,4) by (auto simp: fixed_length_allowed)
  show ?thesis
    using bpt.holds_export[OF R(2), of fill, unfolded BPTreeAcc_simps] O(1) R(1) by blast
qed

theorem bptree_export_witness:
  "\<exists>t outs t1 h a nx t2. BPTree_Open empty_file 2 65 = Some (Inr t) \<and>
    run_ops BPTree_index [OInsert 5 (Some [1]), OInsert 3 (Some [2])] t = Some (outs, t1) \<and>
    ExportDOT BPTreeAcc (\<lambda>_ _. ''1.0'') (Inr ()) t1 =
      Some (Inr (picture True (fill_text (\<lambda>_ _. ''1.0'') (\<lambda>leaf. if leaf then 10 + 1 else 12) 65) nx a), t2) \<and>
    bal h a \<and> distinct (ids a) \<and> entries True a = [(3, Some [2]), (5, Some [1])] \<and>
    map nx (leaves a) = tl (leaves a) @ [InvalidPage]"
  using bptree_export[of empty_file 1 65 "[OInsert 5 (Some [1]), OInsert 3 (Some [2])]" 2 "\<lambda>_ _. ''1.0''"]
  by (simp add: empty_tree_file_def bptree_geom_def node_geom_def entry_limit_def spec_final_def trimmed_def)

end
