(* ===== verification/Plotter.thy ===== *)
theory Plotter
  imports Complex_Main Format Engine
begin

text \<open>
  The plots (src/bench/plotter.go). A CSV file is the list of its records; the charts are what
  the code hands to the chart library: titles, axis labels and series. \<open>ParseFloat\<close> is modelled
  on the decimal numbers that the benchmark writes, and float64 values are exact numbers.
  Creating and rendering an HTML page are parameters, which can fail.
\<close>

section \<open>Numbers in CSV fields\<close>

definition digit_value :: "char \<Rightarrow> nat option" where
  "digit_value c = (let d = of_char c in if 48 \<le> d \<and> d \<le> 57 then Some (d - 48) else None)"

fun digits_value :: "nat \<Rightarrow> string \<Rightarrow> nat option" where
  "digits_value n [] = Some n"
| "digits_value n (c # cs) =
     (case digit_value c of None \<Rightarrow> None | Some d \<Rightarrow> digits_value (10 * n + d) cs)"

definition parse_nat :: "string \<Rightarrow> nat option" where
  "parse_nat s = (if s = [] then None else digits_value 0 s)"

text \<open>The value 0 of a field that does not parse: the code ignores the error.\<close>

definition parse_decimal :: "string \<Rightarrow> rat" where
  "parse_decimal s =
     (let whole = takeWhile (\<lambda>c. c \<noteq> CHR ''.'') s; rest = dropWhile (\<lambda>c. c \<noteq> CHR ''.'') s in
      case parse_nat whole of
        None \<Rightarrow> 0
      | Some n \<Rightarrow>
          if rest = [] then of_nat n
          else (case parse_nat (tl rest) of
              None \<Rightarrow> 0
            | Some m \<Rightarrow> of_nat n + of_nat m / 10 ^ length (tl rest)))"

definition ParseFloat :: "string \<Rightarrow> rat" where
  "ParseFloat s =
     (case s of [] \<Rightarrow> 0 | c # cs \<Rightarrow> if c = CHR ''-'' then - parse_decimal cs else parse_decimal s)"

section \<open>Colours\<close>

definition indexColorHex :: "string list" where
  "indexColorHex = [''#9ecae1'', ''#4292c6'', ''#084594'', ''#a1d99b'', ''#41ab5d'', ''#00441b'',
     ''#fc9272'', ''#ef3b2c'', ''#67000d'']"

definition colorBaseIndex :: "string \<Rightarrow> nat" where
  "colorBaseIndex key = (if key = ''btree'' then 0 else if key = ''bptree'' then 3
     else if key = ''lsm'' then 6 else 0)"

definition to_lower :: "char \<Rightarrow> char" where
  "to_lower c = (let d = of_char c :: nat in if 65 \<le> d \<and> d \<le> 90 then char_of (d + 32) else c)"

definition has_prefix :: "string \<Rightarrow> string \<Rightarrow> bool" where
  "has_prefix s p \<longleftrightarrow> take (length p) s = p"

definition colorKey :: "string \<Rightarrow> string" where
  "colorKey name =
     (let n = map to_lower name in
      if has_prefix n ''bptree'' \<or> has_prefix n ''b+'' then ''bptree''
      else if has_prefix n ''btree'' \<or> has_prefix n ''b-'' then ''btree''
      else if has_prefix n ''lsm'' \<or> has_prefix n ''pebble'' then ''lsm''
      else ''btree'')"

definition pickColor :: "string \<Rightarrow> (string \<Rightarrow> nat) \<Rightarrow> (string \<times> (string \<Rightarrow> nat)) option" where
  "pickColor name counters =
     (let key = colorKey name;
          idx = colorBaseIndex key + counters key mod 3;
          counters' = counters(key := counters key + 1);
          idx' = (if idx \<ge> length indexColorHex then colorBaseIndex key else idx)
      in if idx' < length indexColorHex then Some (indexColorHex ! idx', counters') else None)"

text \<open>The colours of a list of names, in order.\<close>

fun pickColors :: "string list \<Rightarrow> (string \<Rightarrow> nat) \<Rightarrow> string list option" where
  "pickColors [] counters = Some []"
| "pickColors (name # names) counters = do {
     (color, counters') \<leftarrow> pickColor name counters;
     colors \<leftarrow> pickColors names counters';
     Some (color # colors)
   }"

section \<open>Charts\<close>

datatype chart_kind = Bar | BoxPlot | Line

text \<open>A data item has one value, or the five of a box, and the colour of the item or its line.\<close>

record item =
  it_Value :: "rat list"
  it_Color :: "string option"

record series =
  se_Name :: string
  se_Data :: "item list"
  se_LineColor :: "string option"
  se_DotColor :: "string option"

text \<open>
  The options that the code sets: an empty axis name or type is one that it leaves out, labels
  are turned by 30 degrees or not, the legend is at 8 per cent or not shown, a tooltip has a
  trigger, the zoom is a slider over the whole range.
\<close>

record chart =
  ch_Kind :: chart_kind
  ch_Title :: string
  ch_YName :: string
  ch_YType :: string
  ch_XName :: string
  ch_XLabels :: "string list"
  ch_Series :: "series list"
  ch_Rotated :: bool
  ch_Legend :: bool
  ch_Tooltip :: "string option"
  ch_Zoom :: bool
  ch_Size :: "string \<times> string"

definition chart_size :: "string \<times> string" where
  "chart_size = (''1000px'', ''500px'')"

definition em_dash :: string where
  "em_dash = [CHR 0xE2, CHR 0x80, CHR 0x94]"

definition plain_item :: "rat \<Rightarrow> item" where
  "plain_item v = \<lparr>it_Value = [v], it_Color = None\<rparr>"

definition plain_series :: "string \<Rightarrow> item list \<Rightarrow> series" where
  "plain_series name items =
     \<lparr>se_Name = name, se_Data = items, se_LineColor = None, se_DotColor = None\<rparr>"

section \<open>Files\<close>

text \<open>
  \<open>csv_files\<close> are the files that exist, by path. A file that cannot be opened or whose records
  differ in length is read as no records at all, because the code ignores both errors.
\<close>

type_synonym csv_files = "string \<Rightarrow> string list list option"

definition join :: "string \<Rightarrow> string \<Rightarrow> string" where
  "join outDir f = outDir @ ''/'' @ f"

definition ReadAll :: "csv_files \<Rightarrow> string \<Rightarrow> string list list" where
  "ReadAll fs path =
     (case fs path of
        None \<Rightarrow> []
      | Some rs \<Rightarrow> if list_all (\<lambda>r. length r = length (hd rs)) rs then rs else [])"

text \<open>\<open>records[1:]\<close> panics without records.\<close>

definition data_rows :: "string list list \<Rightarrow> string list list option" where
  "data_rows records = (if records = [] then None else Some (tl records))"

definition field :: "string list \<Rightarrow> nat \<Rightarrow> string option" where
  "field rec i = (if i < length rec then Some (rec ! i) else None)"

definition number :: "string list \<Rightarrow> nat \<Rightarrow> rat option" where
  "number rec i = map_option ParseFloat (field rec i)"

record web_page =
  wp_Path :: string
  wp_Charts :: "chart list"

text \<open>\<open>create\<close> and \<open>render\<close> are the results of creating the file and of rendering into it.\<close>

record renderer =
  rn_create :: "string \<Rightarrow> go_error + unit"
  rn_render :: "string \<Rightarrow> chart list \<Rightarrow> go_error + unit"

definition renderPage :: "renderer \<Rightarrow> chart list \<Rightarrow> string \<Rightarrow> go_error + web_page" where
  "renderPage rn page path =
     (case rn_create rn path of
        Inl e \<Rightarrow> Inl (Wrapped (''create '' @ path) e)
      | Inr _ \<Rightarrow> (case rn_render rn path page of
            Inl e \<Rightarrow> Inl (Wrapped (''render '' @ path) e)
          | Inr _ \<Rightarrow> Inr \<lparr>wp_Path = path, wp_Charts = page\<rparr>))"

section \<open>T1\<close>

record t1_plot =
  p1_labels :: "string list"
  p1_p95Items :: "item list"
  p1_barItems :: "item list"
  p1_boxItems :: "item list"

fun t1_plot_rows :: "string list list \<Rightarrow> (string \<Rightarrow> nat) \<Rightarrow> t1_plot \<Rightarrow> t1_plot option" where
  "t1_plot_rows [] counters p = Some p"
| "t1_plot_rows (rec # recs) counters p = do {
     minVal \<leftarrow> number rec 3;
     q1 \<leftarrow> number rec 4;
     p50 \<leftarrow> number rec 5;
     q3 \<leftarrow> number rec 6;
     maxVal \<leftarrow> number rec 7;
     p95 \<leftarrow> number rec 9;
     tput \<leftarrow> number rec 11;
     let iqr = q3 - q1;
     let wMin = q1 - 3 / 2 * iqr;
     let wMin = (if wMin < minVal then minVal else wMin);
     let wMax = q3 + 3 / 2 * iqr;
     let wMax = (if wMax > maxVal then maxVal else wMax);
     name \<leftarrow> field rec 0;
     (color, counters') \<leftarrow> pickColor name counters;
     t1_plot_rows recs counters' \<lparr>p1_labels = p1_labels p @ [name],
       p1_p95Items = p1_p95Items p @ [\<lparr>it_Value = [p95], it_Color = Some color\<rparr>],
       p1_barItems = p1_barItems p @ [\<lparr>it_Value = [tput], it_Color = Some color\<rparr>],
       p1_boxItems = p1_boxItems p @ [\<lparr>it_Value = [wMin, q1, p50, q3, wMax], it_Color = Some color\<rparr>]\<rparr>
   }"

definition bar_chart :: "chart_kind \<Rightarrow> string \<Rightarrow> string \<Rightarrow> string \<Rightarrow> string list \<Rightarrow> series list \<Rightarrow> bool \<Rightarrow>
    string option \<Rightarrow> chart" where
  "bar_chart kind title yName yType labels ss legend tooltip =
     \<lparr>ch_Kind = kind, ch_Title = title, ch_YName = yName, ch_YType = yType, ch_XName = [],
      ch_XLabels = labels, ch_Series = ss, ch_Rotated = True, ch_Legend = legend,
      ch_Tooltip = tooltip, ch_Zoom = False, ch_Size = chart_size\<rparr>"

definition PlotT1 :: "renderer \<Rightarrow> csv_files \<Rightarrow> string \<Rightarrow> (go_error + web_page) option" where
  "PlotT1 rn fs outDir = do {
     rows \<leftarrow> data_rows (ReadAll fs (join outDir ''t1_point_query.csv''));
     p \<leftarrow> t1_plot_rows rows (\<lambda>_. 0)
       \<lparr>p1_labels = [], p1_p95Items = [], p1_barItems = [], p1_boxItems = []\<rparr>;
     let p95Bar = bar_chart Bar (''T1 '' @ em_dash @ '' Point Query P95 Response Time'') ''ns'' ''value''
       (p1_labels p) [plain_series ''P95 Response Time'' (p1_p95Items p)] False None;
     let bar = bar_chart Bar (''T1 '' @ em_dash @ '' Point Query Throughput'') ''Ops/sec'' []
       (p1_labels p) [plain_series ''Throughput'' (p1_barItems p)] False None;
     let box = bar_chart BoxPlot (''T1 '' @ em_dash @ '' Response Time Distribution'') ''ns'' ''value''
       (p1_labels p) [plain_series ''Response Time'' (p1_boxItems p)] False (Some []);
     Some (renderPage rn [box, p95Bar, bar] (join outDir ''t1.html''))
   }"

section \<open>Lines grouped by index\<close>

text \<open>The values of each index, the indexes in the order of their first row, and the x labels,
  which are those of the first index.\<close>

record line_data =
  byIndex :: "string \<Rightarrow> rat list"
  indexOrder :: "string list"
  xLabels :: "string list"
  seen :: "string \<Rightarrow> bool"

definition no_lines :: line_data where
  "no_lines = \<lparr>byIndex = (\<lambda>_. []), indexOrder = [], xLabels = [], seen = (\<lambda>_. False)\<rparr>"

fun group_rows :: "nat \<Rightarrow> string list list \<Rightarrow> line_data \<Rightarrow> line_data option" where
  "group_rows yCol [] d = Some d"
| "group_rows yCol (rec # recs) d = do {
     idxName \<leftarrow> field rec 0;
     xVal \<leftarrow> field rec 1;
     _ \<leftarrow> field rec 2;
     yVal \<leftarrow> number rec yCol;
     let d1 = (if seen d idxName then d
       else d\<lparr>indexOrder := indexOrder d @ [idxName], seen := (seen d)(idxName := True)\<rparr>);
     let d2 = d1\<lparr>byIndex := (byIndex d1)(idxName := byIndex d1 idxName @ [yVal])\<rparr>;
     first \<leftarrow> field (indexOrder d2) 0;
     group_rows yCol recs (if idxName = first then d2\<lparr>xLabels := xLabels d2 @ [xVal]\<rparr> else d2)
   }"

definition line_series :: "bool \<Rightarrow> line_data \<Rightarrow> series list option" where
  "line_series dots d = do {
     colors \<leftarrow> pickColors (indexOrder d) (\<lambda>_. 0);
     Some (map (\<lambda>(name, color). \<lparr>se_Name = name, se_Data = map plain_item (byIndex d name),
       se_LineColor = Some color, se_DotColor = (if dots then Some color else None)\<rparr>)
       (zip (indexOrder d) colors))
   }"

definition line_chart :: "string \<Rightarrow> string \<Rightarrow> string \<Rightarrow> line_data \<Rightarrow> series list \<Rightarrow> bool \<Rightarrow> chart" where
  "line_chart title yName xName d ss zoom =
     \<lparr>ch_Kind = Line, ch_Title = title, ch_YName = yName, ch_YType = ''value'', ch_XName = xName,
      ch_XLabels = xLabels d, ch_Series = ss, ch_Rotated = False, ch_Legend = True,
      ch_Tooltip = Some ''axis'', ch_Zoom = zoom, ch_Size = chart_size\<rparr>"

text \<open>For T2 the third column must exist as well, although the fourth is used.\<close>

definition genericLinePlot :: "renderer \<Rightarrow> csv_files \<Rightarrow> string \<Rightarrow> string \<Rightarrow> string \<Rightarrow> string \<Rightarrow> string \<Rightarrow> string \<Rightarrow>
    bool \<Rightarrow> (go_error + web_page) option" where
  "genericLinePlot rn fs outDir f title yName xName outHtml isMixed = do {
     rows \<leftarrow> data_rows (ReadAll fs (join outDir f));
     d \<leftarrow> group_rows (if f = ''t2_range_query.csv'' then 3 else 2) rows no_lines;
     ss \<leftarrow> line_series True d;
     Some (renderPage rn [line_chart title yName xName d ss isMixed] (join outDir outHtml))
   }"

definition PlotT2 :: "renderer \<Rightarrow> csv_files \<Rightarrow> string \<Rightarrow> (go_error + web_page) option" where
  "PlotT2 rn fs outDir = genericLinePlot rn fs outDir ''t2_range_query.csv''
     (''T2 '' @ em_dash @ '' Range Query Response Time'') ''Total ms'' ''Range Size'' ''t2.html'' False"

definition PlotT3 :: "renderer \<Rightarrow> csv_files \<Rightarrow> string \<Rightarrow> (go_error + web_page) option" where
  "PlotT3 rn fs outDir = genericLinePlot rn fs outDir ''t3_write_throughput.csv''
     (''T3 '' @ em_dash @ '' Write Throughput'') ''Ops/sec'' ''Dataset Growth'' ''t3.html'' False"

section \<open>The mixed workloads\<close>

record summary_data =
  sm_Labels :: "string list"
  sm_p50Read :: "rat list"
  sm_p95Read :: "rat list"
  sm_p50Write :: "rat list"
  sm_p95Write :: "rat list"

definition no_summary :: summary_data where
  "no_summary = \<lparr>sm_Labels = [], sm_p50Read = [], sm_p95Read = [], sm_p50Write = [], sm_p95Write = []\<rparr>"

text \<open>\<open>sumSeen\<close> holds exactly the labels so far.\<close>

fun summary_rows :: "string list list \<Rightarrow> summary_data \<Rightarrow> summary_data option" where
  "summary_rows [] d = Some d"
| "summary_rows (rec # recs) d = do {
     idxName \<leftarrow> field rec 0;
     opType \<leftarrow> field rec 1;
     p50 \<leftarrow> number rec 4;
     p95 \<leftarrow> number rec 5;
     let d1 = (if idxName \<in> set (sm_Labels d) then d else d\<lparr>sm_Labels := sm_Labels d @ [idxName]\<rparr>);
     summary_rows recs
       (if opType = ''read'' then d1\<lparr>sm_p50Read := sm_p50Read d1 @ [p50], sm_p95Read := sm_p95Read d1 @ [p95]\<rparr>
        else d1\<lparr>sm_p50Write := sm_p50Write d1 @ [p50], sm_p95Write := sm_p95Write d1 @ [p95]\<rparr>)
   }"

definition summary_chart :: "string \<Rightarrow> summary_data \<Rightarrow> chart" where
  "summary_chart title d = bar_chart Bar (title @ '' '' @ em_dash @ '' Summary'') ''ns'' [] (sm_Labels d)
     [plain_series ''Read P50'' (map plain_item (sm_p50Read d)),
      plain_series ''Read P95'' (map plain_item (sm_p95Read d)),
      plain_series ''Write P50'' (map plain_item (sm_p50Write d)),
      plain_series ''Write P95'' (map plain_item (sm_p95Write d))] True None"

definition summary_file :: "string \<Rightarrow> string" where
  "summary_file f = take (length f - length ''.csv'') f @ ''_summary.csv''"

definition PlotMixed :: "renderer \<Rightarrow> csv_files \<Rightarrow> string \<Rightarrow> string \<Rightarrow> string \<Rightarrow> string \<Rightarrow>
    (go_error + web_page) option" where
  "PlotMixed rn fs outDir f title outHtml = do {
     rows \<leftarrow> data_rows (ReadAll fs (join outDir f));
     d \<leftarrow> group_rows 2 rows no_lines;
     ss \<leftarrow> line_series False d;
     sumRows \<leftarrow> data_rows (ReadAll fs (join outDir (summary_file f)));
     sm \<leftarrow> summary_rows sumRows no_summary;
     Some (renderPage rn [summary_chart title sm,
         line_chart title ''Response Time (ns)'' ''Op Count'' d ss True] (join outDir outHtml))
   }"

definition PlotT4 :: "renderer \<Rightarrow> csv_files \<Rightarrow> string \<Rightarrow> (go_error + web_page) option" where
  "PlotT4 rn fs outDir = PlotMixed rn fs outDir ''t4_read_heavy.csv''
     (''T4 '' @ em_dash @ '' Read-Heavy (95/5) Response Time'') ''t4.html''"

definition PlotT5 :: "renderer \<Rightarrow> csv_files \<Rightarrow> string \<Rightarrow> (go_error + web_page) option" where
  "PlotT5 rn fs outDir = PlotMixed rn fs outDir ''t5_write_heavy.csv''
     (''T5 '' @ em_dash @ '' Write-Heavy (5/95) Response Time'') ''t5.html''"

section \<open>All plots\<close>

text \<open>Each plot whose CSV file exists, until one fails; the pages rendered so far are kept.\<close>

fun run_plots :: "renderer \<Rightarrow> csv_files \<Rightarrow> string \<Rightarrow>
    (string \<times> (renderer \<Rightarrow> csv_files \<Rightarrow> string \<Rightarrow> (go_error + web_page) option)) list \<Rightarrow>
    (go_error option \<times> web_page list) option" where
  "run_plots rn fs outDir [] = Some (None, [])"
| "run_plots rn fs outDir ((f, fn) # plots) =
     (if fs (join outDir f) = None then run_plots rn fs outDir plots
      else do {
        r \<leftarrow> fn rn fs outDir;
        (case r of
           Inl e \<Rightarrow> Some (Some e, [])
         | Inr p \<Rightarrow> do { (e, ps) \<leftarrow> run_plots rn fs outDir plots; Some (e, p # ps) })
      })"

definition PlotAll :: "renderer \<Rightarrow> csv_files \<Rightarrow> string \<Rightarrow> (go_error option \<times> web_page list) option" where
  "PlotAll rn fs outDir = run_plots rn fs outDir
     [(''t1_point_query.csv'', PlotT1), (''t2_range_query.csv'', PlotT2), (''t3_write_throughput.csv'', PlotT3),
      (''t4_read_heavy.csv'', PlotT4), (''t5_write_heavy.csv'', PlotT5)]"

end
