(* ===== verification/PlotterSpec.thy ===== *)
theory PlotterSpec
  imports Plotter HarnessSpec
begin

text \<open>
  The plots show the measurements: parsing a printed number gives the number, the line charts
  have one series per index with its values in order, the boxes of T1 are in order.
\<close>

section \<open>Printed numbers\<close>

lemma digit_code: "d < 10 \<Longrightarrow> of_char (digit d) = 48 + d"
  by (simp add: digit_def of_char_of)

lemma digit_value_digit: "d < 10 \<Longrightarrow> digit_value (digit d) = Some d"
  by (simp add: digit_value_def digit_code)

lemma digits_value_append:
  "digits_value n (xs @ ys) = (case digits_value n xs of None \<Rightarrow> None | Some m \<Rightarrow> digits_value m ys)"
  by (induction n xs rule: digits_value.induct) (auto split: option.split)

lemma digits_value_show: "digits_value n (show_nat m) = Some (n * 10 ^ length (show_nat m) + m)"
proof (induction m arbitrary: n rule: show_nat.induct)
  case (1 m)
  show ?case
  proof (cases "m < 10")
    case True
    then show ?thesis by (simp add: show_nat.simps digit_value_digit)
  next
    case False
    then have "digits_value n (show_nat m) =
        Some (10 * (n * 10 ^ length (show_nat (m div 10)) + m div 10) + m mod 10)"
      using 1[OF False, of n] by (simp add: show_nat.simps[of m] digits_value_append digit_value_digit)
    moreover have "length (show_nat m) = Suc (length (show_nat (m div 10)))"
      using False by (simp add: show_nat.simps[of m])
    ultimately show ?thesis by (simp add: algebra_simps)
  qed
qed

lemma show_nat_digits: "c \<in> set (show_nat n) \<Longrightarrow> 48 \<le> (of_char c :: nat)"
proof (induction n rule: show_nat.induct)
  case (1 n)
  then show ?case by (cases "n < 10") (auto simp: show_nat.simps[of n] digit_code)
qed

lemma parse_show_nat: "parse_decimal (show_nat n) = of_nat n"
proof -
  have "\<forall>c \<in> set (show_nat n). c \<noteq> CHR ''.''" using show_nat_digits by fastforce
  then have "takeWhile (\<lambda>c. c \<noteq> CHR ''.'') (show_nat n) = show_nat n"
    "dropWhile (\<lambda>c. c \<noteq> CHR ''.'') (show_nat n) = []"
    by (simp_all add: takeWhile_eq_all_conv)
  then show ?thesis
    unfolding parse_decimal_def Let_def by (simp only:) (simp add: parse_nat_def digits_value_show)
qed

lemma ParseFloat_show_int: "ParseFloat (show_int i) = of_int i"
proof (cases "i < 0")
  case True
  then show ?thesis by (simp add: show_int_def ParseFloat_def parse_show_nat)
next
  case False
  obtain c cs where c: "show_nat (nat i) = c # cs" by (cases "show_nat (nat i)") auto
  then have "c \<noteq> CHR ''-''" using show_nat_digits[of c "nat i"] by auto
  then show ?thesis using False c parse_show_nat[of "nat i"] by (simp add: show_int_def ParseFloat_def)
qed

section \<open>Colours\<close>

lemma colorBaseIndex_less: "colorBaseIndex key \<le> 6"
  by (simp add: colorBaseIndex_def)

lemma pickColor_total:
  "pickColor name counters =
     Some (indexColorHex ! (colorBaseIndex (colorKey name) + counters (colorKey name) mod 3),
       counters(colorKey name := counters (colorKey name) + 1))"
proof -
  have "length indexColorHex = 9" by (simp add: indexColorHex_def)
  moreover have "colorBaseIndex (colorKey name) + counters (colorKey name) mod 3 < 9"
    using colorBaseIndex_less[of "colorKey name"] mod_less_divisor[of 3 "counters (colorKey name)"] by linarith
  ultimately show ?thesis by (simp add: pickColor_def Let_def)
qed

lemma pickColors_total: "\<exists>cs. pickColors names counters = Some cs \<and> length cs = length names"
proof (induction names arbitrary: counters)
  case (Cons name names)
  obtain color counters' where "pickColor name counters = Some (color, counters')"
    by (simp add: pickColor_total)
  then show ?case using Cons[of counters'] by auto
qed simp

section \<open>Grouping rows by index\<close>

definition firsts :: "'a list \<Rightarrow> 'a list" where
  "firsts xs = rev (remdups (rev xs))"

lemma firsts_snoc: "firsts (xs @ [x]) = (if x \<in> set xs then firsts xs else firsts xs @ [x])"
  by (simp add: firsts_def)

lemma firsts_props [simp]: "firsts [] = []" "set (firsts xs) = set xs"
  by (simp_all add: firsts_def)

lemma hd_firsts: "xs \<noteq> [] \<Longrightarrow> firsts xs \<noteq> [] \<and> hd (firsts xs) = hd xs"
proof (induction xs rule: rev_induct)
  case (snoc x xs)
  have "firsts [x] = [x]" by (simp add: firsts_def)
  then show ?case using snoc by (cases "xs = []") (auto simp: firsts_snoc)
qed simp

definition grouped :: "nat \<Rightarrow> string list list \<Rightarrow> line_data \<Rightarrow> bool" where
  "grouped yCol rows d \<longleftrightarrow>
     indexOrder d = firsts (map (\<lambda>r. r ! 0) rows) \<and> seen d = (\<lambda>n. n \<in> (\<lambda>r. r ! 0) ` set rows) \<and>
     byIndex d = (\<lambda>n. map (\<lambda>r. ParseFloat (r ! yCol)) (filter (\<lambda>r. r ! 0 = n) rows)) \<and>
     xLabels d = map (\<lambda>r. r ! 1) (filter (\<lambda>r. r ! 0 = hd (map (\<lambda>r. r ! 0) rows)) rows)"

lemma group_rows_spec:
  "grouped yCol pre d \<Longrightarrow> \<forall>r \<in> set rows. 2 < length r \<and> yCol < length r \<Longrightarrow>
   \<exists>d'. group_rows yCol rows d = Some d' \<and> grouped yCol (pre @ rows) d'"
proof (induction rows arbitrary: pre d)
  case (Cons r rows)
  have l: "2 < length r" "yCol < length r" using Cons.prems(2) by simp_all
  note G = Cons.prems(1)[unfolded grouped_def]
  let ?d1 = "if seen d (r ! 0) then d
       else d\<lparr>indexOrder := indexOrder d @ [r ! 0], seen := (seen d)(r ! 0 := True)\<rparr>"
  let ?d2 = "?d1\<lparr>byIndex := (byIndex ?d1)(r ! 0 := byIndex ?d1 (r ! 0) @ [ParseFloat (r ! yCol)])\<rparr>"
  have order: "indexOrder ?d2 = firsts (map (\<lambda>r. r ! 0) (pre @ [r]))"
    using G by (auto simp: firsts_snoc)
  have hd: "firsts (map (\<lambda>r. r ! 0) (pre @ [r])) \<noteq> []"
    "hd (firsts (map (\<lambda>r. r ! 0) (pre @ [r]))) = hd (map (\<lambda>r. r ! 0) (pre @ [r]))"
    using hd_firsts[of "map (\<lambda>r. r ! 0) (pre @ [r])"] by simp_all
  let ?first = "hd (map (\<lambda>r. r ! 0) (pre @ [r]))"
  have first: "field (indexOrder ?d2) 0 = Some ?first"
    unfolding order field_def using hd by (simp add: hd_conv_nth del: map_append)
  let ?d3 = "if r ! 0 = ?first then ?d2\<lparr>xLabels := xLabels ?d2 @ [r ! 1]\<rparr> else ?d2"
  have "grouped yCol (pre @ [r]) ?d3"
  proof (cases "pre = []")
    case True
    then show ?thesis using G order by (auto simp: grouped_def fun_eq_iff)
  next
    case False
    then show ?thesis using G order by (auto simp: grouped_def fun_eq_iff hd_map)
  qed
  from Cons.IH[OF this] obtain d' where d': "group_rows yCol rows ?d3 = Some d'"
    "grouped yCol ((pre @ [r]) @ rows) d'" using Cons.prems(2) by auto
  have f: "field r 0 = Some (r ! 0)" "field r 1 = Some (r ! 1)" "field r 2 = Some (r ! 2)"
    "number r yCol = Some (ParseFloat (r ! yCol))"
    using l by (auto simp: field_def number_def)
  have "group_rows yCol (r # rows) d = group_rows yCol rows ?d3"
    unfolding group_rows.simps f bind.simps Let_def first ..
  then show ?case using d' by simp
qed simp

lemma firsts_append: "firsts (xs @ ys) = firsts xs @ filter (\<lambda>y. y \<notin> set xs) (firsts ys)"
proof (induction ys rule: rev_induct)
  case (snoc y ys)
  then show ?case
    unfolding append_assoc[symmetric] firsts_snoc by auto
qed simp

lemma firsts_replicate: "n \<noteq> 0 \<Longrightarrow> firsts (replicate n x) = [x]"
proof (induction n)
  case (Suc n)
  have "firsts (replicate (Suc n) x) = firsts (replicate n x @ [x])"
    by (simp only: replicate_append_same replicate_Suc)
  then show ?case using Suc by (cases "n = 0") (simp_all only: firsts_snoc, simp_all add: firsts_def)
qed simp

text \<open>Rows in blocks, one block per index.\<close>

definition block_rows :: "(string \<Rightarrow> 'a \<Rightarrow> string list) \<Rightarrow> (string \<times> 'a list) list \<Rightarrow> string list list" where
  "block_rows mk blocks = concat (map (\<lambda>b. map (mk (fst b)) (snd b)) blocks)"

definition blocks_ok :: "(string \<Rightarrow> 'a \<Rightarrow> string list) \<Rightarrow> (string \<times> 'a list) list \<Rightarrow> bool" where
  "blocks_ok mk blocks \<longleftrightarrow> blocks \<noteq> [] \<and> distinct (map fst blocks) \<and> (\<forall>b \<in> set blocks. snd b \<noteq> []) \<and>
     (\<forall>n x. mk n x ! 0 = n)"

lemma firsts_blocks:
  assumes "distinct (map fst blocks)" "\<forall>b \<in> set blocks. snd b \<noteq> []" "\<forall>n x. mk n x ! 0 = n"
  shows "firsts (map (\<lambda>r. r ! 0) (block_rows mk blocks)) = map fst blocks"
  using assms
proof (induction blocks)
  case (Cons b blocks)
  have names: "map (\<lambda>r. r ! 0) (map (mk (fst b)) (snd b)) = replicate (length (snd b)) (fst b)"
    using Cons.prems(3) by (simp add: map_replicate_const comp_def)
  have "firsts (map (\<lambda>r. r ! 0) (block_rows mk (b # blocks))) =
      firsts (replicate (length (snd b)) (fst b) @ map (\<lambda>r. r ! 0) (block_rows mk blocks))"
    using names by (simp add: block_rows_def)
  also have "\<dots> = [fst b] @ filter (\<lambda>y. y \<notin> {fst b}) (map fst blocks)"
    using Cons by (simp add: firsts_append firsts_replicate)
  also have "filter (\<lambda>y. y \<notin> {fst b}) (map fst blocks) = map fst blocks"
  proof -
    have "fst b \<notin> set (map fst blocks)" using Cons.prems(1) by simp
    then show ?thesis unfolding filter_id_conv by blast
  qed
  finally show ?case by simp
qed (simp add: block_rows_def)

lemma filter_block:
  assumes "distinct (map fst blocks)" "\<forall>n x. mk n x ! 0 = n" "b \<in> set blocks"
  shows "filter (\<lambda>r. r ! 0 = fst b) (block_rows mk blocks) = map (mk (fst b)) (snd b)"
  using assms
proof (induction blocks)
  case (Cons c blocks)
  have self: "filter (\<lambda>r. r ! 0 = fst b) (map (mk (fst c)) (snd c)) =
      (if fst c = fst b then map (mk (fst c)) (snd c) else [])"
    using Cons.prems(2) by (auto simp: filter_map comp_def)
  show ?case
  proof (cases "b = c")
    case True
    have "filter (\<lambda>r. r ! 0 = fst b) (block_rows mk blocks) = []"
      unfolding filter_empty_conv
    proof
      fix r assume "r \<in> set (block_rows mk blocks)"
      then obtain a x where "a \<in> set blocks" "r = mk (fst a) x" by (auto simp: block_rows_def)
      moreover have "fst c \<notin> set (map fst blocks)" using Cons.prems(1) by simp
      ultimately show "r ! 0 \<noteq> fst b" using Cons.prems(2) True by (metis imageI list.set_map)
    qed
    then show ?thesis using True self by (simp add: block_rows_def)
  next
    case False
    then have "b \<in> set blocks" using Cons.prems(3) by simp
    moreover have "fst c \<noteq> fst b" using calculation Cons.prems(1) by auto
    ultimately show ?thesis using Cons self by (simp add: block_rows_def)
  qed
qed simp

text \<open>The line chart of rows in blocks: a series for each index, with its values in order.\<close>

lemma block_lines:
  assumes ok: "blocks_ok mk blocks" and l: "\<forall>n x. 2 < length (mk n x) \<and> yCol < length (mk n x)"
    and val: "\<forall>n x. ParseFloat (mk n x ! yCol) = val x"
  shows "\<exists>d ss. group_rows yCol (block_rows mk blocks) no_lines = Some d \<and> line_series dots d = Some ss \<and>
    map (\<lambda>s. (se_Name s, map it_Value (se_Data s))) ss =
      map (\<lambda>b. (fst b, map (\<lambda>x. [val x]) (snd b))) blocks \<and>
    xLabels d = map (\<lambda>x. mk (fst (hd blocks)) x ! 1) (snd (hd blocks)) \<and>
    (\<exists>cs. pickColors (map fst blocks) (\<lambda>_. 0) = Some cs \<and> map se_LineColor ss = map Some cs)"
proof -
  let ?rows = "block_rows mk blocks"
  have B: "blocks \<noteq> []" "distinct (map fst blocks)" "\<forall>b \<in> set blocks. snd b \<noteq> []" "\<forall>n x. mk n x ! 0 = n"
    using ok by (simp_all add: blocks_ok_def)
  have "grouped yCol [] no_lines" by (simp add: grouped_def no_lines_def)
  moreover have "\<forall>r \<in> set ?rows. 2 < length r \<and> yCol < length r" using l by (auto simp: block_rows_def)
  ultimately obtain d where d: "group_rows yCol ?rows no_lines = Some d" "grouped yCol ?rows d"
    using group_rows_spec[of yCol "[]" no_lines ?rows] by auto
  have order: "indexOrder d = map fst blocks"
    using d(2) firsts_blocks[OF B(2,3,4)] by (simp add: grouped_def)
  have vals: "byIndex d (fst b) = map val (snd b)" if "b \<in> set blocks" for b
    using d(2) filter_block[OF B(2,4) that] val by (simp add: grouped_def comp_def)
  obtain cs where cs: "pickColors (map fst blocks) (\<lambda>_. 0) = Some cs" "length cs = length (map fst blocks)"
    using pickColors_total by blast
  let ?mk = "\<lambda>(name, color). \<lparr>se_Name = name, se_Data = map plain_item (byIndex d name),
       se_LineColor = Some color, se_DotColor = (if dots then Some color else None)\<rparr>"
  have ss: "line_series dots d = Some (map ?mk (zip (map fst blocks) cs))"
    using cs(1) order by (simp add: line_series_def)
  have "map (\<lambda>s. (se_Name s, map it_Value (se_Data s))) (map ?mk (zip (map fst blocks) cs)) =
      map (\<lambda>b. (fst b, map (\<lambda>x. [val x]) (snd b))) blocks"
    using cs(2) vals by (intro nth_equalityI) (simp_all add: plain_item_def comp_def)
  moreover have "map se_LineColor (map ?mk (zip (map fst blocks) cs)) = map Some cs"
    using cs(2) by (intro nth_equalityI) simp_all
  moreover have "xLabels d = map (\<lambda>x. mk (fst (hd blocks)) x ! 1) (snd (hd blocks))"
  proof -
    have ne: "map (\<lambda>r. r ! 0) ?rows \<noteq> []" using B(1,3) by (cases blocks) (auto simp: block_rows_def)
    have "hd (map (\<lambda>r. r ! 0) ?rows) = fst (hd blocks)"
      using hd_firsts[OF ne] firsts_blocks[OF B(2,3,4)] B(1) by (simp add: hd_map)
    then show ?thesis
      using d(2) filter_block[OF B(2,4), of "hd blocks"] B(1) by (simp add: grouped_def comp_def)
  qed
  ultimately show ?thesis using d(1) ss cs(1) by blast
qed

end
