(* ===== verification/Program.thy ===== *)
theory Program
  imports Harness Plotter Dot
begin

text \<open>
  The command (src/main.go): the default configuration, the benchmarks and then the plots of the
  CSV files that they wrote. \<open>Flags\<close> adds the command line that chooses the configuration.
\<close>

definition default_config :: config where
  "default_config = \<lparr>Seed = 42, OutDir = ''./out/results'', DataDir = ''./out/data'', CachePages = 4096,
     DatasetSize = 5000000, PointQueryCount = 1000000, WriteOpsTotal = 1000000, WriteOpsWindow = 10000,
     MixedOpsTotal = 1000000, LogInterval = 1000, ValueSize = 128, T2StartSize = 4096,
     T2MaxSize = 5000000, CleanupData = True\<rparr>"

text \<open>The two files of a mixed workload.\<close>

definition write_mixed :: "string \<Rightarrow> string \<Rightarrow> (string \<times> (go_error + mixed_result)) list \<Rightarrow>
    csv_files \<Rightarrow> csv_files" where
  "write_mixed outDir fileName rs fs =
     fs(join outDir fileName \<mapsto> mixed_csv rs, join outDir (summary_file fileName) \<mapsto> mixed_summary_csv rs)"

definition main_program :: "('db, 'it) pebble \<Rightarrow> 'r rand \<Rightarrow> (string \<Rightarrow> string \<Rightarrow> clock) \<Rightarrow> renderer \<Rightarrow> config \<Rightarrow>
    (string \<Rightarrow> os_file) \<Rightarrow> csv_files \<Rightarrow> (go_error option \<times> web_page list) option" where
  "main_program P R clk rn cfg files fs = do {
     (r4, r5) \<leftarrow> RunBenchmarks P R clk cfg files;
     let fs4 = write_mixed (OutDir cfg) ''t4_read_heavy.csv'' r4 fs;
     let fs5 = write_mixed (OutDir cfg) ''t5_write_heavy.csv'' r5 fs4;
     PlotAll rn fs5 (OutDir cfg)
   }"

section \<open>The picture of an example tree\<close>

text \<open>
  The second command (src/gen_btree_dot.go): a new B-tree on small pages, a hundred insertions
  and the picture. The outcomes are those of its \<open>log.Fatalf\<close> calls, which end the program at
  once, and the picture with the file that the deferred \<open>Close\<close> leaves. \<open>f\<close> is the file after
  the old one is removed.
\<close>

datatype dot_program =
    OpenFailed go_error
  | InsertFailed nat go_error
  | ExportFailed go_error
  | Generated "string list" os_file

definition example_value :: "nat \<Rightarrow> gobytes" where
  "example_value i = Some (map (\<lambda>c. word_of_nat (of_char c)) (''value-'' @ show_nat i))"

fun insert_examples :: "nat list \<Rightarrow> tree \<Rightarrow> ((nat \<times> go_error) option \<times> tree) option" where
  "insert_examples [] t = Some (None, t)"
| "insert_examples (i # is) t = do {
     (r, t1) \<leftarrow> BTree_Insert (word_of_nat i) (example_value i) t;
     (case r of
        Inl e \<Rightarrow> Some (Some (i, e), t1)
      | Inr _ \<Rightarrow> insert_examples is t1)
   }"

definition generate_dot :: "(int \<Rightarrow> nat \<Rightarrow> string) \<Rightarrow> (string \<Rightarrow> go_error + unit) \<Rightarrow> os_file \<Rightarrow> dot_program option" where
  "generate_dot fill create f = do {
     opened \<leftarrow> BTree_Open f 10 512;
     (case opened of
        Inl (e, _) \<Rightarrow> Some (OpenFailed e)
      | Inr t \<Rightarrow> do {
          (failed, t1) \<leftarrow> insert_examples [1..<101] t;
          (case failed of
             Some (i, e) \<Rightarrow> Some (InsertFailed i e)
           | None \<Rightarrow> do {
               (r, t2) \<leftarrow> ExportDOT BTreeAcc fill (create ''btree.dot'') t1;
               (case r of
                  Inl e \<Rightarrow> Some (ExportFailed e)
                | Inr ls \<Rightarrow> do {
                    (_, t3) \<leftarrow> BTree_Close t2;
                    Some (Generated ls (pfile (Pg t3)))
                  })
             })
        })
   }"

end
