(* ===== verification/Flags.thy ===== *)
theory Flags
  imports Program
begin

text \<open>
  The command line (src/main.go): the flags of the program with their defaults, and what the
  standard library makes of the arguments. \<open>flag.Parse\<close> handles the arguments from the left up
  to the first that is not a flag and ends the program at the first error; \<open>ParseInt\<close> and
  \<open>ParseBool\<close> are those of \<open>strconv\<close>.
\<close>

section \<open>Numbers and truth values\<close>

definition char_code :: "char \<Rightarrow> nat" where
  "char_code c = of_char c"

text \<open>The value of a digit in any base, letters in both cases.\<close>

definition digit_of :: "char \<Rightarrow> nat option" where
  "digit_of c = (let n = char_code c in
     if 48 \<le> n \<and> n \<le> 57 then Some (n - 48)
     else if 97 \<le> n \<and> n \<le> 122 then Some (n - 87)
     else if 65 \<le> n \<and> n \<le> 90 then Some (n - 55)
     else None)"

text \<open>The base that a prefix chooses when the caller asks for base 0, and the rest.\<close>

fun base_prefix :: "string \<Rightarrow> nat \<times> string" where
  "base_prefix (z # p # c # cs) =
     (if z = CHR ''0'' then
        if p \<in> {CHR ''b'', CHR ''B''} then (2, c # cs)
        else if p \<in> {CHR ''o'', CHR ''O''} then (8, c # cs)
        else if p \<in> {CHR ''x'', CHR ''X''} then (16, c # cs)
        else (8, p # c # cs)
      else (10, z # p # c # cs))"
| "base_prefix (z # cs) = (if z = CHR ''0'' then (8, cs) else (10, z # cs))"
| "base_prefix [] = (10, [])"

fun digits_in :: "nat \<Rightarrow> nat \<Rightarrow> string \<Rightarrow> nat option" where
  "digits_in b n [] = Some n"
| "digits_in b n (c # cs) =
     (if c = CHR ''_'' then digits_in b n cs
      else case digit_of c of
             None \<Rightarrow> None
           | Some d \<Rightarrow> if b \<le> d then None else digits_in b (n * b + d) cs)"

text \<open>
  Underscores must stand between digits or after the prefix of a base: \<open>saw\<close> is \<open>0\<close> after a
  digit, \<open>_\<close> after an underscore, \<open>^\<close> at the start and \<open>!\<close> after anything else.
\<close>

fun underscores_ok :: "bool \<Rightarrow> char \<Rightarrow> string \<Rightarrow> bool" where
  "underscores_ok hex saw [] = (saw \<noteq> CHR ''_'')"
| "underscores_ok hex saw (c # cs) =
     (if (case digit_of c of None \<Rightarrow> False | Some d \<Rightarrow> d < (if hex then 16 else 10)) then
        underscores_ok hex CHR ''0'' cs
      else if c = CHR ''_'' then saw = CHR ''0'' \<and> underscores_ok hex CHR ''_'' cs
      else saw \<noteq> CHR ''_'' \<and> underscores_ok hex CHR ''!'' cs)"

fun underscoreOK :: "string \<Rightarrow> bool" where
  "underscoreOK (z # p # cs) =
     (if z = CHR ''0'' \<and> p \<in> set ''bBoOxX'' then underscores_ok (p \<in> set ''xX'') CHR ''0'' cs
      else underscores_ok False CHR ''^'' (z # p # cs))"
| "underscoreOK cs = underscores_ok False CHR ''^'' cs"

definition ParseUint :: "string \<Rightarrow> nat option" where
  "ParseUint s =
     (if s = [] then None
      else let (b, ds) = base_prefix s in
        case digits_in b 0 ds of
          None \<Rightarrow> None
        | Some n \<Rightarrow> if n < 2 ^ 64 \<and> (CHR ''_'' \<in> set ds \<longrightarrow> underscoreOK s) then Some n else None)"

definition ParseInt :: "string \<Rightarrow> int option" where
  "ParseInt s =
     (let neg = (s \<noteq> [] \<and> hd s = CHR ''-'');
          digits = (if s \<noteq> [] \<and> hd s \<in> set ''+-'' then tl s else s) in
      case ParseUint digits of
        None \<Rightarrow> None
      | Some n \<Rightarrow>
          if \<not> neg \<and> 2 ^ 63 \<le> n then None
          else if neg \<and> 2 ^ 63 < n then None
          else Some (if neg then - int n else int n))"

definition ParseBool :: "string \<Rightarrow> bool option" where
  "ParseBool s =
     (if s \<in> set [''1'', ''t'', ''T'', ''TRUE'', ''true'', ''True''] then Some True
      else if s \<in> set [''0'', ''f'', ''F'', ''FALSE'', ''false'', ''False''] then Some False
      else None)"

section \<open>Flags\<close>

datatype flag_value = FInt int | FString string | FBool bool

type_synonym flag_set = "(string \<times> flag_value) list"

definition flag_defaults :: flag_set where
  "flag_defaults =
     [(''seed'', FInt 42), (''cache-pages'', FInt 4096), (''data-dir'', FString ''./out/data''),
      (''out-dir'', FString ''./out/results''), (''dataset-size'', FInt 5000000),
      (''point-queries'', FInt 1000000), (''write-ops-total'', FInt 1000000),
      (''write-ops-window'', FInt 10000), (''mixed-ops-total'', FInt 1000000),
      (''log-interval'', FInt 1000), (''value-size'', FInt 128), (''t2-start-size'', FInt 4096),
      (''t2-max-size'', FInt 5000000), (''cleanup-data'', FBool True)]"

text \<open>\<open>Set\<close> of the three kinds of flags, and whether a flag needs no value.\<close>

fun set_value :: "flag_value \<Rightarrow> string \<Rightarrow> flag_value option" where
  "set_value (FInt _) s = map_option FInt (ParseInt s)"
| "set_value (FString _) s = Some (FString s)"
| "set_value (FBool _) s = map_option FBool (ParseBool s)"

fun is_bool_flag :: "flag_value \<Rightarrow> bool" where
  "is_bool_flag (FBool _) = True"
| "is_bool_flag _ = False"

datatype flag_error =
    BadSyntax string
  | NotDefined string
  | NeedsArgument string
  | InvalidValue string string
  | HelpRequested

text \<open>The name of a flag and the value behind the first equals sign; the name is not empty.\<close>

definition split_flag :: "string \<Rightarrow> string \<times> string option" where
  "split_flag text =
     (let rest = dropWhile (\<lambda>c. c \<noteq> CHR ''='') text in
      (takeWhile (\<lambda>c. c \<noteq> CHR ''='') text, if rest = [] then None else Some (tl rest)))"

text \<open>The text of a flag without its one or two minus signs; \<open>None\<close> for an argument that is not a
  flag, which ends the parsing.\<close>

fun flag_text :: "string \<Rightarrow> string option" where
  "flag_text (m # c # cs) =
     (if m \<noteq> CHR ''-'' then None
      else if c = CHR ''-'' then (if cs = [] then None else Some cs)
      else Some (c # cs))"
| "flag_text _ = None"

fun parse_flags :: "string list \<Rightarrow> flag_set \<Rightarrow> flag_error + flag_set" where
  "parse_flags [] fs = Inr fs"
| "parse_flags (s # args) fs =
     (case flag_text s of
        None \<Rightarrow> Inr fs
      | Some text \<Rightarrow>
          if hd text \<in> set ''-='' then Inl (BadSyntax s)
          else let (name, value) = split_flag text in
            (case map_of fs name of
              None \<Rightarrow> Inl (if name \<in> set [''help'', ''h''] then HelpRequested else NotDefined name)
            | Some old \<Rightarrow>
(
                case (if value = None \<and> is_bool_flag old then Some ''true'' else value) of
                   Some v \<Rightarrow>
                     (case set_value old v of
                        None \<Rightarrow> Inl (InvalidValue v name)
                      | Some new \<Rightarrow> parse_flags args (AList.update name new fs))
                 | None \<Rightarrow>
                     (case args of
                        [] \<Rightarrow> Inl (NeedsArgument name)
                      | v # args' \<Rightarrow>
                          (case set_value old v of
                             None \<Rightarrow> Inl (InvalidValue v name)
                           | Some new \<Rightarrow> parse_flags args' (AList.update name new fs))))))"

text \<open>
  The configuration that the flags give. The counts of a configuration are naturals: \<open>None\<close>
  stands for a negative count, which the model of the benchmarks does not cover. \<open>flag.Parse\<close>
  exits with 0 when help is asked for and with 2 on every other error.
\<close>

definition int_flag :: "flag_set \<Rightarrow> string \<Rightarrow> int option" where
  "int_flag fs name = (case map_of fs name of Some (FInt i) \<Rightarrow> Some i | _ \<Rightarrow> None)"

definition nat_flag :: "flag_set \<Rightarrow> string \<Rightarrow> nat option" where
  "nat_flag fs name = (case int_flag fs name of Some i \<Rightarrow> if 0 \<le> i then Some (nat i) else None | None \<Rightarrow> None)"

definition string_flag :: "flag_set \<Rightarrow> string \<Rightarrow> string option" where
  "string_flag fs name = (case map_of fs name of Some (FString s) \<Rightarrow> Some s | _ \<Rightarrow> None)"

definition bool_flag :: "flag_set \<Rightarrow> string \<Rightarrow> bool option" where
  "bool_flag fs name = (case map_of fs name of Some (FBool b) \<Rightarrow> Some b | _ \<Rightarrow> None)"

definition config_of_flags :: "flag_set \<Rightarrow> config option" where
  "config_of_flags fs = do {
     seed \<leftarrow> int_flag fs ''seed'';
     cachePages \<leftarrow> int_flag fs ''cache-pages'';
     dataDir \<leftarrow> string_flag fs ''data-dir'';
     outDir \<leftarrow> string_flag fs ''out-dir'';
     datasetSize \<leftarrow> nat_flag fs ''dataset-size'';
     pointQueries \<leftarrow> nat_flag fs ''point-queries'';
     writeOpsTotal \<leftarrow> nat_flag fs ''write-ops-total'';
     writeOpsWindow \<leftarrow> nat_flag fs ''write-ops-window'';
     mixedOpsTotal \<leftarrow> nat_flag fs ''mixed-ops-total'';
     logInterval \<leftarrow> nat_flag fs ''log-interval'';
     valueSize \<leftarrow> nat_flag fs ''value-size'';
     t2StartSize \<leftarrow> nat_flag fs ''t2-start-size'';
     t2MaxSize \<leftarrow> nat_flag fs ''t2-max-size'';
     cleanup \<leftarrow> bool_flag fs ''cleanup-data'';
     Some \<lparr>Seed = word_of_int seed, OutDir = outDir, DataDir = dataDir, CachePages = cachePages,
       DatasetSize = datasetSize, PointQueryCount = pointQueries, WriteOpsTotal = writeOpsTotal,
       WriteOpsWindow = writeOpsWindow, MixedOpsTotal = mixedOpsTotal, LogInterval = logInterval,
       ValueSize = valueSize, T2StartSize = t2StartSize, T2MaxSize = t2MaxSize, CleanupData = cleanup\<rparr>
   }"

datatype command_line = Exits nat | Runs config

definition ReadFlagsOrDefault :: "string list \<Rightarrow> command_line option" where
  "ReadFlagsOrDefault args =
     (case parse_flags args flag_defaults of
        Inl e \<Rightarrow> Some (Exits (if e = HelpRequested then 0 else 2))
      | Inr fs \<Rightarrow> map_option Runs (config_of_flags fs))"

text \<open>The whole command: the arguments, the benchmarks, the plots.\<close>

definition main_command :: "('db, 'it) pebble \<Rightarrow> 'r rand \<Rightarrow> (string \<Rightarrow> string \<Rightarrow> clock) \<Rightarrow> renderer \<Rightarrow>
    string list \<Rightarrow> (string \<Rightarrow> os_file) \<Rightarrow> csv_files \<Rightarrow> (nat + go_error option \<times> web_page list) option" where
  "main_command P R clk rn args files fs = do {
     cmd \<leftarrow> ReadFlagsOrDefault args;
     (case cmd of
        Exits code \<Rightarrow> Some (Inl code)
      | Runs cfg \<Rightarrow> map_option Inr (main_program P R clk rn cfg files fs))
   }"

end
