(* ===== verification/FlagsSpec.thy ===== *)
theory FlagsSpec
  imports Flags PlotterSpec
begin

text \<open>
  The command line means what it says: any settings of flags in any notation are read back, and
  every kind of malformed argument ends the program.
\<close>

section \<open>Printed numbers\<close>

lemma digit_of_digit: "d < 10 \<Longrightarrow> digit_of (digit d) = Some d"
  by (simp add: digit_of_def char_code_def digit_code)

lemma digit_neq: "d < 10 \<Longrightarrow> digit d \<noteq> CHR ''_'' \<and> (0 < d \<longrightarrow> digit d \<noteq> CHR ''0'')"
  using digit_code[of d] by auto

lemma digits_in_append: "digits_in b n (xs @ ys) = Option.bind (digits_in b n xs) (\<lambda>m. digits_in b m ys)"
  by (induction xs arbitrary: n) (simp_all split: option.split)

lemma digits_in_digit: "d < 10 \<Longrightarrow> digits_in 10 n [digit d] = Some (n * 10 + d)"
  using digit_neq[of d] by (simp add: digit_of_digit)

lemma digits_in_show: "digits_in 10 0 (show_nat m) = Some m"
proof (induction m rule: show_nat.induct)
  case (1 m)
  show ?case
  proof (cases "m < 10")
    case True
    then show ?thesis using digits_in_digit[of m 0] by (simp add: show_nat.simps[of m])
  next
    case False
    then show ?thesis using 1[OF False] digits_in_digit[of "m mod 10" "m div 10"]
      by (simp add: show_nat.simps[of m] digits_in_append del: digits_in.simps)
  qed
qed

lemma show_nat_chars: "c \<in> set (show_nat m) \<Longrightarrow> c \<noteq> CHR ''_'' \<and> c \<notin> set ''+-''"
proof (induction m rule: show_nat.induct)
  case (1 m)
  have d: "digit d \<noteq> CHR ''_'' \<and> digit d \<notin> set ''+-''" if "d < 10" for d
    using digit_code[OF that] that by auto
  show ?case using 1 d[of m] d[of "m mod 10"] by (cases "m < 10") (auto simp: show_nat.simps[of m])
qed

lemma show_nat_head: "0 < m \<Longrightarrow> hd (show_nat m) \<noteq> CHR ''0''"
proof (induction m rule: show_nat.induct)
  case (1 m)
  then show ?case using digit_neq[of m] by (cases "m < 10") (simp_all add: show_nat.simps[of m])
qed

lemma base_prefix_head: "s \<noteq> [] \<Longrightarrow> hd s \<noteq> CHR ''0'' \<Longrightarrow> base_prefix s = (10, s)"
  by (cases s rule: base_prefix.cases) auto

lemma digit_zero: "digit 0 = CHR ''0''"
  by code_simp

lemma ParseUint_show: "m < 2 ^ 64 \<Longrightarrow> ParseUint (show_nat m) = Some m"
proof (cases "m = 0")
  case True
  then show ?thesis by (simp add: show_nat.simps[of 0] ParseUint_def digit_zero)
next
  case False
  assume "m < 2 ^ 64"
  then show ?thesis
    using base_prefix_head[of "show_nat m"] show_nat_head[of m] False show_nat_chars[of "CHR ''_''" m]
    by (auto simp: ParseUint_def digits_in_show)
qed

lemma ParseInt_show: "- (2 ^ 63) \<le> i \<Longrightarrow> i < 2 ^ 63 \<Longrightarrow> ParseInt (show_int i) = Some i"
proof (cases "i < 0")
  case True
  assume "- (2 ^ 63) \<le> i"
  then show ?thesis using True ParseUint_show[of "nat (- i)"] by (simp add: ParseInt_def show_int_def)
next
  case False
  assume "i < 2 ^ 63"
  moreover have "hd (show_nat (nat i)) \<notin> set ''+-''"
    using show_nat_chars[OF hd_in_set[of "show_nat (nat i)"]] by simp
  ultimately show ?thesis using False ParseUint_show[of "nat i"]
    by (simp add: ParseInt_def show_int_def)
qed

section \<open>Settings\<close>

text \<open>
  A setting is a flag with the text of its value, in one of the notations of the flag package:
  one minus sign or two, the value behind an equals sign or as an argument of its own. The flag
  of a truth value takes its value behind an equals sign only.
\<close>

record setting =
  st_Two :: bool
  st_Apart :: bool
  st_Name :: string
  st_Text :: string

definition minuses :: "setting \<Rightarrow> string" where
  "minuses st = (if st_Two st then ''--'' else ''-'')"

definition setting_args :: "setting \<Rightarrow> string list" where
  "setting_args st =
     (if st_Apart st then [minuses st @ st_Name st, st_Text st]
      else [minuses st @ st_Name st @ ''='' @ st_Text st])"

definition flag_name :: "string \<Rightarrow> bool" where
  "flag_name n \<longleftrightarrow> n \<noteq> [] \<and> hd n \<noteq> CHR ''-'' \<and> CHR ''='' \<notin> set n"

definition setting_ok :: "flag_set \<Rightarrow> setting \<Rightarrow> bool" where
  "setting_ok fs st \<longleftrightarrow> flag_name (st_Name st) \<and>
     (case map_of fs (st_Name st) of
        None \<Rightarrow> False
      | Some old \<Rightarrow> set_value old (st_Text st) \<noteq> None \<and> \<not> (st_Apart st \<and> is_bool_flag old))"

fun stops :: "string list \<Rightarrow> bool" where
  "stops [] = True"
| "stops (s # _) = (flag_text s = None)"

definition apply_setting :: "setting \<Rightarrow> flag_set \<Rightarrow> flag_set" where
  "apply_setting st fs = AList.update (st_Name st) (the (set_value (the (map_of fs (st_Name st))) (st_Text st))) fs"

lemma split_flag_name: "CHR ''='' \<notin> set n \<Longrightarrow> split_flag n = (n, None)"
  "CHR ''='' \<notin> set n \<Longrightarrow> split_flag (n @ ''='' @ v) = (n, Some v)"
proof -
  assume n: "CHR ''='' \<notin> set n"
  then have *: "\<forall>c \<in> set n. c \<noteq> CHR ''=''" by auto
  then show "split_flag n = (n, None)"
    by (simp add: split_flag_def takeWhile_eq_all_conv dropWhile_eq_Nil_conv)
  have "takeWhile (\<lambda>c. c \<noteq> CHR ''='') (n @ ''='' @ v) = n"
    "dropWhile (\<lambda>c. c \<noteq> CHR ''='') (n @ ''='' @ v) = ''='' @ v"
    using * by (simp_all add: takeWhile_append2 dropWhile_append2)
  then show "split_flag (n @ ''='' @ v) = (n, Some v)" by (simp add: split_flag_def)
qed

lemma flag_text_minuses: "t \<noteq> [] \<Longrightarrow> hd t \<noteq> CHR ''-'' \<Longrightarrow> flag_text (minuses st @ t) = Some t"
  by (cases t) (auto simp: minuses_def)

lemma flag_name_text:
  assumes "flag_name n"
  shows "flag_text (minuses st @ n) = Some n" "hd n \<notin> set ''-=''" "split_flag n = (n, None)"
    "flag_text (minuses st @ n @ ''='' @ v) = Some (n @ ''='' @ v)" "hd (n @ ''='' @ v) \<notin> set ''-=''"
    "split_flag (n @ ''='' @ v) = (n, Some v)"
  using assms flag_text_minuses[of n st] flag_text_minuses[of "n @ ''='' @ v" st] split_flag_name[of n]
  by (cases n; auto simp: flag_name_def)+

lemma same_kind: "set_value v s = Some w \<Longrightarrow> is_bool_flag w = is_bool_flag v"
  "set_value v s = Some w \<Longrightarrow> set_value w t = set_value v t"
  by (cases v; auto)+

lemma parse_setting:
  assumes "setting_ok fs st"
  shows "parse_flags (setting_args st @ rest) fs = parse_flags rest (apply_setting st fs)"
proof -
  let ?n = "st_Name st"
  obtain old new where o: "map_of fs ?n = Some old" "set_value old (st_Text st) = Some new" "flag_name ?n"
    "\<not> (st_Apart st \<and> is_bool_flag old)"
    using assms by (auto simp: setting_ok_def split: option.splits)
  note F = flag_name_text[OF o(3)]
  have a: "apply_setting st fs = AList.update ?n new fs" using o(1,2) by (simp add: apply_setting_def)
  show ?thesis
  proof (cases "st_Apart st")
    case True
    then show ?thesis using o a F(1)[of st] F(2,3) by (simp add: setting_args_def)
  next
    case False
    have run: "parse_flags ((minuses st @ t) # rest) fs = parse_flags rest (AList.update ?n new fs)"
      if "flag_text (minuses st @ t) = Some t" "hd t \<notin> set ''-=''" "split_flag t = (?n, Some (st_Text st))" for t
      using that o(1,2) by simp
    show ?thesis using False a run[OF F(4-6)] by (simp add: setting_args_def)
  qed
qed

lemma apply_setting_map:
  assumes "setting_ok fs st"
  shows "map_of (apply_setting st fs) = (map_of fs)(st_Name st := set_value (the (map_of fs (st_Name st))) (st_Text st))"
  using assms by (auto simp: setting_ok_def apply_setting_def update_conv' split: option.splits)

lemma setting_ok_apply: "setting_ok fs st \<Longrightarrow> setting_ok fs st' \<Longrightarrow> setting_ok (apply_setting st fs) st'"
  using same_kind apply_setting_map[of fs st] by (auto simp: setting_ok_def split: option.splits)

lemma parse_settings:
  "\<forall>st \<in> set sts. setting_ok fs st \<Longrightarrow>
   parse_flags (concat (map setting_args sts) @ rest) fs = parse_flags rest (fold apply_setting sts fs)"
proof (induction sts arbitrary: fs)
  case (Cons st sts)
  then have "\<forall>st' \<in> set sts. setting_ok (apply_setting st fs) st'" using setting_ok_apply by simp
  then show ?case using Cons parse_setting[of fs st] by simp
qed simp

lemma settings_lookup:
  "\<forall>st \<in> set sts. setting_ok fs st \<Longrightarrow> distinct (map st_Name sts) \<Longrightarrow>
   (\<forall>st \<in> set sts. map_of (fold apply_setting sts fs) (st_Name st) =
      set_value (the (map_of fs (st_Name st))) (st_Text st)) \<and>
   (\<forall>n. n \<notin> st_Name ` set sts \<longrightarrow> map_of (fold apply_setting sts fs) n = map_of fs n)"
proof (induction sts arbitrary: fs)
  case (Cons st sts)
  let ?fs = "apply_setting st fs"
  have "\<forall>st' \<in> set sts. setting_ok ?fs st'" using Cons.prems(1) setting_ok_apply by simp
  then have IH: "\<forall>st' \<in> set sts. map_of (fold apply_setting sts ?fs) (st_Name st') =
      set_value (the (map_of ?fs (st_Name st'))) (st_Text st')"
    "\<forall>n. n \<notin> st_Name ` set sts \<longrightarrow> map_of (fold apply_setting sts ?fs) n = map_of ?fs n"
    using Cons.IH[of ?fs] Cons.prems(2) by auto
  have "st_Name st' \<noteq> st_Name st" if "st' \<in> set sts" for st'
    using Cons.prems(2) imageI[OF that, of st_Name] by auto
  moreover have "map_of ?fs = (map_of fs)(st_Name st := set_value (the (map_of fs (st_Name st))) (st_Text st))"
    using apply_setting_map[of fs st] Cons.prems(1) by simp
  ultimately show ?case using IH Cons.prems(2) by auto
qed simp

section \<open>Configurations as settings\<close>

definition config_texts :: "config \<Rightarrow> (string \<times> string) list" where
  "config_texts cfg =
     [(''seed'', show_int (sint (Seed cfg))), (''cache-pages'', show_int (CachePages cfg)),
      (''data-dir'', DataDir cfg), (''out-dir'', OutDir cfg),
      (''dataset-size'', show_nat (DatasetSize cfg)), (''point-queries'', show_nat (PointQueryCount cfg)),
      (''write-ops-total'', show_nat (WriteOpsTotal cfg)), (''write-ops-window'', show_nat (WriteOpsWindow cfg)),
      (''mixed-ops-total'', show_nat (MixedOpsTotal cfg)), (''log-interval'', show_nat (LogInterval cfg)),
      (''value-size'', show_nat (ValueSize cfg)), (''t2-start-size'', show_nat (T2StartSize cfg)),
      (''t2-max-size'', show_nat (T2MaxSize cfg)), (''cleanup-data'', if CleanupData cfg then ''true'' else ''false'')]"

definition in_range :: "config \<Rightarrow> bool" where
  "in_range cfg \<longleftrightarrow> - (2 ^ 63) \<le> CachePages cfg \<and> CachePages cfg < 2 ^ 63 \<and>
     (\<forall>n \<in> set [DatasetSize cfg, PointQueryCount cfg, WriteOpsTotal cfg, WriteOpsWindow cfg,
        MixedOpsTotal cfg, LogInterval cfg, ValueSize cfg, T2StartSize cfg, T2MaxSize cfg]. n < 2 ^ 63)"

lemma ParseInt_show_nat: "n < 2 ^ 63 \<Longrightarrow> ParseInt (show_nat n) = Some (int n)"
  using ParseInt_show[of "int n"] by (simp add: show_int_def)

lemma ParseInt_show_word: "ParseInt (show_int (sint (w :: 64 word))) = Some (sint w)"
  using ParseInt_show[of "sint w"] sint_ge[of w] sint_lt[of w] by simp

lemma texts_names: "map fst (config_texts cfg) = map fst flag_defaults"
  by (simp add: config_texts_def flag_defaults_def)

lemma default_names: "distinct (map fst flag_defaults)" "\<forall>n \<in> fst ` set flag_defaults. flag_name n"
  by (simp_all add: flag_defaults_def flag_name_def)

text \<open>Reading the flags that hold the values of a configuration gives the configuration.\<close>

definition holds_config :: "flag_set \<Rightarrow> config \<Rightarrow> bool" where
  "holds_config fs cfg \<longleftrightarrow> (\<forall>(n, v) \<in> set (config_texts cfg).
     map_of fs n = set_value (the (map_of flag_defaults n)) v)"

lemma config_of_flags_holds:
  assumes "holds_config fs cfg" "in_range cfg"
  shows "config_of_flags fs = Some cfg"
proof -
  have b: "ParseBool ''true'' = Some True" "ParseBool ''false'' = Some False" by (simp_all add: ParseBool_def)
  note h = assms(1)[unfolded holds_config_def config_texts_def flag_defaults_def, simplified]
  note r = assms(2)[unfolded in_range_def]
  have i: "int_flag fs ''seed'' = Some (sint (Seed cfg))"
    "int_flag fs ''cache-pages'' = Some (CachePages cfg)"
    using h r by (simp_all add: int_flag_def ParseInt_show_word ParseInt_show)
  have s: "string_flag fs ''data-dir'' = Some (DataDir cfg)" "string_flag fs ''out-dir'' = Some (OutDir cfg)"
    using h by (simp_all add: string_flag_def)
  have c: "bool_flag fs ''cleanup-data'' = Some (CleanupData cfg)"
    using h b by (simp add: bool_flag_def)
  have n: "nat_flag fs ''dataset-size'' = Some (DatasetSize cfg)"
    "nat_flag fs ''point-queries'' = Some (PointQueryCount cfg)"
    "nat_flag fs ''write-ops-total'' = Some (WriteOpsTotal cfg)"
    "nat_flag fs ''write-ops-window'' = Some (WriteOpsWindow cfg)"
    "nat_flag fs ''mixed-ops-total'' = Some (MixedOpsTotal cfg)"
    "nat_flag fs ''log-interval'' = Some (LogInterval cfg)"
    "nat_flag fs ''value-size'' = Some (ValueSize cfg)"
    "nat_flag fs ''t2-start-size'' = Some (T2StartSize cfg)"
    "nat_flag fs ''t2-max-size'' = Some (T2MaxSize cfg)"
    using h r by (simp_all add: nat_flag_def int_flag_def ParseInt_show_nat)
  show ?thesis by (simp add: config_of_flags_def i s c n)
qed

lemma defaults_hold: "holds_config flag_defaults default_config" "in_range default_config"
  by (simp_all add: in_range_def default_config_def)
    (simp add: holds_config_def config_texts_def flag_defaults_def default_config_def
      ParseInt_show_nat ParseInt_show ParseInt_show_word ParseBool_def)

lemma default_setting_ok:
  assumes "(st_Name st, st_Text st) \<in> set (config_texts cfg)" "in_range cfg"
    "st_Apart st \<longrightarrow> st_Name st \<noteq> ''cleanup-data''"
  shows "setting_ok flag_defaults st"
proof -
  have b: "ParseBool ''true'' = Some True" "ParseBool ''false'' = Some False" by (simp_all add: ParseBool_def)
  note r = assms(2)[unfolded in_range_def]
  have "st_Name st \<in> fst ` set (config_texts cfg)" using assms(1) by force
  then have "st_Name st \<in> fst ` set flag_defaults" using texts_names[of cfg] by (metis list.set_map)
  then have "flag_name (st_Name st)" using default_names(2) by blast
  moreover have "case map_of flag_defaults (st_Name st) of None \<Rightarrow> False
      | Some old \<Rightarrow> set_value old (st_Text st) \<noteq> None \<and> \<not> (st_Apart st \<and> is_bool_flag old)"
    using assms(1,3) r unfolding config_texts_def flag_defaults_def
    by (auto simp: ParseInt_show_nat ParseInt_show ParseInt_show_word b)
  ultimately show ?thesis by (simp add: setting_ok_def)
qed

lemma texts_unique: "(n, v) \<in> set (config_texts cfg) \<Longrightarrow> (n, w) \<in> set (config_texts cfg) \<Longrightarrow> v = w"
  using default_names(1) texts_names[of cfg] by (metis eq_key_imp_eq_value)

lemma no_flags: "ReadFlagsOrDefault [] = Some (Runs default_config)"
  using config_of_flags_holds[OF defaults_hold] by (simp add: ReadFlagsOrDefault_def)

section \<open>Properties\<close>

text \<open>
  C19. Every configuration can be given on the command line: settings of some of the flags, each in
  any of the notations of the flag package and in any order, followed by arguments that are not
  flags, give the configuration whose other values are the defaults. Without arguments this is the
  default configuration, and with all flags any configuration whose numbers have 64 bits.
\<close>

theorem flags_round_trip:
  assumes "in_range cfg" "distinct (map st_Name sts)"
    "\<forall>st \<in> set sts. (st_Name st, st_Text st) \<in> set (config_texts cfg) \<and>
       (st_Apart st \<longrightarrow> st_Name st \<noteq> ''cleanup-data'')"
    "\<forall>(n, v) \<in> set (config_texts cfg). n \<in> st_Name ` set sts \<or> (n, v) \<in> set (config_texts default_config)"
    "stops rest"
  shows "ReadFlagsOrDefault (concat (map setting_args sts) @ rest) = Some (Runs cfg)"
proof -
  let ?fs = "fold apply_setting sts flag_defaults"
  have ok: "\<forall>st \<in> set sts. setting_ok flag_defaults st" using default_setting_ok[OF _ assms(1)] assms(3) by blast
  have "parse_flags rest ?fs = Inr ?fs" using assms(5) by (cases rest) simp_all
  then have run: "parse_flags (concat (map setting_args sts) @ rest) flag_defaults = Inr ?fs"
    using parse_settings[OF ok] by simp
  note L = settings_lookup[OF ok assms(2)]
  have "map_of ?fs n = set_value (the (map_of flag_defaults n)) v" if m: "(n, v) \<in> set (config_texts cfg)" for n v
  proof (cases "n \<in> st_Name ` set sts")
    case True
    then obtain st where st: "st \<in> set sts" "n = st_Name st" by blast
    then have "st_Text st = v" using assms(3) m texts_unique[of n "st_Text st" cfg v] by auto
    then show ?thesis using L st by auto
  next
    case False
    then have "(n, v) \<in> set (config_texts default_config)" using assms(4) m by auto
    then show ?thesis using L False defaults_hold(1) by (auto simp: holds_config_def)
  qed
  then have "config_of_flags ?fs = Some cfg"
    by (intro config_of_flags_holds[OF _ assms(1)]) (auto simp: holds_config_def)
  then show ?thesis using run by (simp add: ReadFlagsOrDefault_def)
qed

theorem flags_round_trip_witness:
  "ReadFlagsOrDefault [''--seed=7'', ''-value-size'', ''64'', ''-cleanup-data=false'', ''out'', ''-seed=9''] =
     Some (Runs (default_config\<lparr>Seed := 7, ValueSize := 64, CleanupData := False\<rparr>)) \<and>
   ReadFlagsOrDefault [] = Some (Runs default_config)"
proof
  have n: "show_nat 64 = ''64''" "show_int 7 = ''7''" by code_simp+
  let ?cfg = "default_config\<lparr>Seed := 7, ValueSize := 64, CleanupData := False\<rparr>"
  have "in_range ?cfg" using defaults_hold(2) by (simp add: in_range_def)
  from flags_round_trip[OF this, of
      "[\<lparr>st_Two = True, st_Apart = False, st_Name = ''seed'', st_Text = ''7''\<rparr>,
        \<lparr>st_Two = False, st_Apart = True, st_Name = ''value-size'', st_Text = ''64''\<rparr>,
        \<lparr>st_Two = False, st_Apart = False, st_Name = ''cleanup-data'', st_Text = ''false''\<rparr>]"
      "[''out'', ''-seed=9'']"]
  show "ReadFlagsOrDefault [''--seed=7'', ''-value-size'', ''64'', ''-cleanup-data=false'', ''out'', ''-seed=9''] =
      Some (Runs ?cfg)"
    by (simp add: config_texts_def default_config_def setting_args_def minuses_def n)
  show "ReadFlagsOrDefault [] = Some (Runs default_config)"
    using flags_round_trip[OF defaults_hold(2), of "[]" "[]"] by simp
qed

text \<open>Settings change the values of flags, but not which flags there are and of which kind.\<close>

definition alike :: "flag_value \<Rightarrow> flag_value \<Rightarrow> bool" where
  "alike old new \<longleftrightarrow> is_bool_flag new = is_bool_flag old \<and> set_value new = set_value old"

definition same_flags :: "flag_set \<Rightarrow> flag_set \<Rightarrow> bool" where
  "same_flags fs fs' \<longleftrightarrow> (\<forall>n. rel_option alike (map_of fs n) (map_of fs' n))"

lemma same_flags_apply: "setting_ok fs st \<Longrightarrow> same_flags fs (apply_setting st fs)"
proof -
  assume ok: "setting_ok fs st"
  then obtain old new where o: "map_of fs (st_Name st) = Some old" "set_value old (st_Text st) = Some new"
    by (auto simp: setting_ok_def split: option.splits)
  have a: "alike v v" for v by (simp add: alike_def)
  have "alike old new" using same_kind[OF o(2)] by (simp add: alike_def fun_eq_iff)
  then show ?thesis
    using o a by (auto simp: same_flags_def apply_setting_map[OF ok] intro: option.rel_refl)
qed

lemma same_flags_trans:
  assumes "same_flags fs fs1" "same_flags fs1 fs2"
  shows "same_flags fs fs2"
  unfolding same_flags_def
proof
  fix n
  have "rel_option alike (map_of fs n) (map_of fs1 n)" "rel_option alike (map_of fs1 n) (map_of fs2 n)"
    using assms by (auto simp: same_flags_def)
  then show "rel_option alike (map_of fs n) (map_of fs2 n)"
    by (cases "map_of fs n"; cases "map_of fs1 n"; cases "map_of fs2 n") (simp_all add: alike_def)
qed

lemma same_flags_fold:
  "\<forall>st \<in> set sts. setting_ok fs st \<Longrightarrow> same_flags fs (fold apply_setting sts fs)"
proof (induction sts arbitrary: fs)
  case Nil
  then show ?case by (simp add: same_flags_def alike_def option.rel_refl)
next
  case (Cons st sts)
  have "\<forall>st' \<in> set sts. setting_ok (apply_setting st fs) st'" using Cons.prems setting_ok_apply by simp
  from same_flags_trans[OF same_flags_apply Cons.IH[OF this]] show ?case using Cons.prems by simp
qed

lemma same_flagsD:
  assumes "same_flags fs fs'"
  shows "map_of fs n = None \<Longrightarrow> map_of fs' n = None"
    and "map_of fs n = Some old \<Longrightarrow> \<exists>new. map_of fs' n = Some new \<and> alike old new"
proof -
  have "rel_option alike (map_of fs n) (map_of fs' n)" using assms by (simp add: same_flags_def)
  then show "map_of fs n = None \<Longrightarrow> map_of fs' n = None"
    "map_of fs n = Some old \<Longrightarrow> \<exists>new. map_of fs' n = Some new \<and> alike old new"
    by (cases "map_of fs' n"; simp)+
qed

lemma parse_bad:
  assumes n: "flag_name (st_Name st)"
  shows "map_of fs (st_Name st) = None \<Longrightarrow> parse_flags (setting_args st @ rest) fs =
      Inl (if st_Name st \<in> {''help'', ''h''} then HelpRequested else NotDefined (st_Name st))"
    and "map_of fs (st_Name st) = Some old \<Longrightarrow> set_value old (st_Text st) = None \<Longrightarrow>
      \<not> (st_Apart st \<and> is_bool_flag old) \<Longrightarrow>
      parse_flags (setting_args st @ rest) fs = Inl (InvalidValue (st_Text st) (st_Name st))"
    and "map_of fs (st_Name st) = Some old \<Longrightarrow> \<not> is_bool_flag old \<Longrightarrow>
      parse_flags [minuses st @ st_Name st] fs = Inl (NeedsArgument (st_Name st))"
proof -
  note F = flag_name_text[OF n]
  have joined: "setting_args st = [minuses st @ t]" "flag_text (minuses st @ t) = Some t" "hd t \<notin> set ''-=''"
      "split_flag t = (st_Name st, Some (st_Text st))"
    if "\<not> st_Apart st" "t = st_Name st @ ''='' @ st_Text st" for t
    using that F(4-6) by (simp_all add: setting_args_def)
  show "map_of fs (st_Name st) = None \<Longrightarrow> parse_flags (setting_args st @ rest) fs =
      Inl (if st_Name st \<in> {''help'', ''h''} then HelpRequested else NotDefined (st_Name st))"
    using F(1)[of st] F(2,3) joined by (cases "st_Apart st") (auto simp: setting_args_def)
  show "map_of fs (st_Name st) = Some old \<Longrightarrow> set_value old (st_Text st) = None \<Longrightarrow>
      \<not> (st_Apart st \<and> is_bool_flag old) \<Longrightarrow>
      parse_flags (setting_args st @ rest) fs = Inl (InvalidValue (st_Text st) (st_Name st))"
    using F(1)[of st] F(2,3) joined by (cases "st_Apart st") (auto simp: setting_args_def)
  show "map_of fs (st_Name st) = Some old \<Longrightarrow> \<not> is_bool_flag old \<Longrightarrow>
      parse_flags [minuses st @ st_Name st] fs = Inl (NeedsArgument (st_Name st))"
    using F(1)[of st] F(2,3) by simp
qed

text \<open>Errors of a flag set, from the kinds of its flags.\<close>

lemma flags_reject:
  assumes "\<forall>st \<in> set sts. setting_ok flag_defaults st" "flag_name (st_Name bad)"
    "args = concat (map setting_args sts)"
  shows "(case map_of flag_defaults (st_Name bad) of
       None \<Rightarrow> ReadFlagsOrDefault (args @ setting_args bad @ rest) =
           Some (Exits (if st_Name bad \<in> {''help'', ''h''} then 0 else 2))
     | Some old \<Rightarrow>
         (set_value old (st_Text bad) = None \<and> \<not> (st_Apart bad \<and> is_bool_flag old) \<longrightarrow>
            ReadFlagsOrDefault (args @ setting_args bad @ rest) = Some (Exits 2)) \<and>
         (\<not> is_bool_flag old \<longrightarrow>
            ReadFlagsOrDefault (args @ [minuses bad @ st_Name bad]) = Some (Exits 2))) \<and>
    ReadFlagsOrDefault (args @ (''---'' @ st_Text bad) # rest) = Some (Exits 2)"
proof -
  let ?fs = "fold apply_setting sts flag_defaults"
  have P: "parse_flags (args @ rest') flag_defaults = parse_flags rest' ?fs" for rest'
    using parse_settings[OF assms(1)] assms(3) by simp
  note S = same_flagsD[OF same_flags_fold[OF assms(1)], of "st_Name bad"]
  note B = parse_bad[OF assms(2), of ?fs]
  have "ReadFlagsOrDefault (args @ (''---'' @ st_Text bad) # rest) = Some (Exits 2)"
    by (simp add: ReadFlagsOrDefault_def P)
  moreover have ?thesis if "map_of flag_defaults (st_Name bad) = None"
    using calculation that B(1)[OF S(1)[OF that]] by (simp add: ReadFlagsOrDefault_def P)
  moreover have ?thesis if o: "map_of flag_defaults (st_Name bad) = Some old" for old
  proof -
    obtain new where n: "map_of ?fs (st_Name bad) = Some new" "alike old new" using S(2)[OF o] by blast
    show ?thesis using calculation(1) o n(2) B(2,3)[OF n(1)] by (simp add: ReadFlagsOrDefault_def P alike_def)
  qed
  ultimately show ?thesis by (cases "map_of flag_defaults (st_Name bad)") blast+
qed

text \<open>
  What the command line accepts, flag by flag and independently of the table of the program: eleven
  flags take a number, two any text, and one a truth value that stands behind an equals sign.
\<close>

definition number_names :: "string list" where
  "number_names = [''seed'', ''cache-pages'', ''dataset-size'', ''point-queries'', ''write-ops-total'',
     ''write-ops-window'', ''mixed-ops-total'', ''log-interval'', ''value-size'', ''t2-start-size'', ''t2-max-size'']"

definition accepted :: "setting \<Rightarrow> bool" where
  "accepted st \<longleftrightarrow> st_Name st \<in> set number_names \<and> ParseInt (st_Text st) \<noteq> None \<or>
     st_Name st \<in> {''data-dir'', ''out-dir''} \<or>
     st_Name st = ''cleanup-data'' \<and> \<not> st_Apart st \<and> ParseBool (st_Text st) \<noteq> None"

lemma number_flag: "n \<in> set number_names \<Longrightarrow> \<exists>i. map_of flag_defaults n = Some (FInt i) \<and> flag_name n"
proof -
  have "list_all (\<lambda>n. (case map_of flag_defaults n of Some (FInt i) \<Rightarrow> True | _ \<Rightarrow> False) \<and> flag_name n) number_names"
    by (simp add: number_names_def flag_defaults_def flag_name_def)
  moreover have "(case x of Some (FInt i) \<Rightarrow> True | _ \<Rightarrow> False) \<Longrightarrow> \<exists>i. x = Some (FInt i)" for x
    by (auto split: option.splits flag_value.splits)
  ultimately show "n \<in> set number_names \<Longrightarrow> ?thesis" unfolding list_all_iff by blast
qed

lemma text_flags:
  "map_of flag_defaults ''data-dir'' = Some (FString ''./out/data'')" "flag_name ''data-dir''"
  "map_of flag_defaults ''out-dir'' = Some (FString ''./out/results'')" "flag_name ''out-dir''"
  "map_of flag_defaults ''cleanup-data'' = Some (FBool True)" "flag_name ''cleanup-data''"
  by (simp_all add: flag_defaults_def flag_name_def)

lemma other_flags:
  "n \<notin> set number_names \<Longrightarrow> n \<notin> {''data-dir'', ''out-dir'', ''cleanup-data''} \<Longrightarrow> map_of flag_defaults n = None"
  by (simp add: number_names_def flag_defaults_def)

lemma accepted_ok: "accepted st \<Longrightarrow> setting_ok flag_defaults st"
  unfolding accepted_def setting_ok_def using number_flag[of "st_Name st"] text_flags by auto

lemma accepted_runs:
  assumes "\<forall>st \<in> set sts. accepted st" "stops rest"
  shows "ReadFlagsOrDefault (concat (map setting_args sts) @ rest) \<noteq> Some (Exits c)"
proof -
  have ok: "\<forall>st \<in> set sts. setting_ok flag_defaults st" using assms(1) accepted_ok by blast
  have "parse_flags rest fs = Inr fs" for fs using assms(2) by (cases rest) simp_all
  then show ?thesis using parse_settings[OF ok, of rest] by (simp add: ReadFlagsOrDefault_def)
qed

text \<open>
  C20. The command line accepts exactly the fourteen flags of the program with values of their kind.
  Any sequence of settings that gives numbers to the eleven counting flags, any text to the two
  directories and a truth value to \<open>cleanup-data\<close> does not end the program. After such settings, each
  of these ends it with code 2, whatever follows: a flag of another name, a text that is no number for
  one of the eleven, a text that is no truth value for \<open>cleanup-data\<close>, a third minus sign, and at the
  end of the command line a flag without its value. Only asking for help ends it with code 0.
\<close>

theorem flags_errors:
  assumes "\<forall>st \<in> set sts. accepted st" "args = concat (map setting_args sts)" "flag_name (st_Name bad)"
  shows "(stops rest \<longrightarrow> ReadFlagsOrDefault (args @ rest) \<noteq> Some (Exits c)) \<and>
    (st_Name bad \<notin> set number_names \<and> st_Name bad \<notin> {''data-dir'', ''out-dir'', ''cleanup-data''} \<longrightarrow>
       ReadFlagsOrDefault (args @ setting_args bad @ rest) =
         Some (Exits (if st_Name bad \<in> {''help'', ''h''} then 0 else 2))) \<and>
    (st_Name bad \<in> set number_names \<and> ParseInt (st_Text bad) = None \<longrightarrow>
       ReadFlagsOrDefault (args @ setting_args bad @ rest) = Some (Exits 2)) \<and>
    (st_Name bad = ''cleanup-data'' \<and> \<not> st_Apart bad \<and> ParseBool (st_Text bad) = None \<longrightarrow>
       ReadFlagsOrDefault (args @ setting_args bad @ rest) = Some (Exits 2)) \<and>
    (st_Name bad \<in> set number_names \<or> st_Name bad \<in> {''data-dir'', ''out-dir''} \<longrightarrow>
       ReadFlagsOrDefault (args @ [minuses bad @ st_Name bad]) = Some (Exits 2)) \<and>
    ReadFlagsOrDefault (args @ (''---'' @ st_Text bad) # rest) = Some (Exits 2)"
proof -
  have ok: "\<forall>st \<in> set sts. setting_ok flag_defaults st" using assms(1) accepted_ok by blast
  note R = flags_reject[OF ok assms(3,2), where rest = rest]
  note k = other_flags[of "st_Name bad"] number_flag[of "st_Name bad"] text_flags
  show ?thesis
  proof (intro conjI impI)
    show "ReadFlagsOrDefault (args @ rest) \<noteq> Some (Exits c)" if "stops rest"
      using accepted_runs[OF assms(1) that] assms(2) by simp
    show "ReadFlagsOrDefault (args @ (''---'' @ st_Text bad) # rest) = Some (Exits 2)" using R by blast
  qed (use R k in auto)
qed

theorem flags_errors_witness:
  "ReadFlagsOrDefault [''-seed'', ''7'', ''out''] \<noteq> Some (Exits 2) \<and>
   ReadFlagsOrDefault [''-seed'', ''7'', ''-value-size=1x'', ''-h''] = Some (Exits 2) \<and>
   ReadFlagsOrDefault [''-seed'', ''7'', ''-value-size''] = Some (Exits 2) \<and>
   ReadFlagsOrDefault [''-seed'', ''7'', ''--help='', ''-x''] = Some (Exits 0) \<and>
   ReadFlagsOrDefault [''-seed'', ''7'', ''-cleanup-data=yes''] = Some (Exits 2)"
proof (intro conjI)
  let ?seed = "\<lparr>st_Two = False, st_Apart = True, st_Name = ''seed'', st_Text = ''7''\<rparr>"
  let ?size = "\<lparr>st_Two = False, st_Apart = False, st_Name = ''value-size'', st_Text = ''1x''\<rparr>"
  let ?asked = "\<lparr>st_Two = True, st_Apart = False, st_Name = ''help'', st_Text = []\<rparr>"
  let ?keep = "\<lparr>st_Two = False, st_Apart = False, st_Name = ''cleanup-data'', st_Text = ''yes''\<rparr>"
  have p: "ParseInt ''7'' = Some 7" "ParseInt ''1x'' = None" "ParseBool ''yes'' = None"
    by (simp_all add: ParseInt_def ParseUint_def digit_of_def char_code_def ParseBool_def)
  have ok: "\<forall>st \<in> set [?seed]. accepted st" by (simp add: accepted_def number_names_def p)
  have m: "''seed'' \<in> set number_names" "''value-size'' \<in> set number_names" "''help'' \<notin> set number_names"
    "''cleanup-data'' \<notin> set number_names"
    by (simp_all add: number_names_def)
  have n: "flag_name (st_Name ?size)" "flag_name (st_Name ?asked)" "flag_name (st_Name ?keep)"
    by (simp_all add: flag_name_def)
  note E = flags_errors[OF ok refl n(1)] flags_errors[OF ok refl n(2)] flags_errors[OF ok refl n(3)]
  show "ReadFlagsOrDefault [''-seed'', ''7'', ''out''] \<noteq> Some (Exits 2)"
    using E(1)[where rest = "[''out'']" and c = 2] by (simp add: setting_args_def minuses_def)
  show "ReadFlagsOrDefault [''-seed'', ''7'', ''-value-size=1x'', ''-h''] = Some (Exits 2)"
    using E(1)[where rest = "[''-h'']"] by (simp add: m p setting_args_def minuses_def)
  show "ReadFlagsOrDefault [''-seed'', ''7'', ''-value-size''] = Some (Exits 2)"
    using E(1)[where rest = "[]"] by (simp add: m setting_args_def minuses_def)
  show "ReadFlagsOrDefault [''-seed'', ''7'', ''--help='', ''-x''] = Some (Exits 0)"
    using E(2)[where rest = "[''-x'']"] by (simp add: m setting_args_def minuses_def)
  show "ReadFlagsOrDefault [''-seed'', ''7'', ''-cleanup-data=yes''] = Some (Exits 2)"
    using E(3)[where rest = "[]"] by (simp add: m p setting_args_def minuses_def)
qed

end
