(* ===== verification/PlotProps.thy ===== *)
theory PlotProps
  imports PlotterSpec FlagsSpec HarnessProps
begin

text \<open>
  From the measurements to the plots: the charts of the whole program show the response times
  that the benchmarks measured.
\<close>

section \<open>Reading a CSV file\<close>

lemma ReadAll_csv:
  "fs path = Some (header # rows) \<Longrightarrow> \<forall>r \<in> set rows. length r = length header \<Longrightarrow>
     data_rows (ReadAll fs path) = Some rows"
  by (simp add: ReadAll_def data_rows_def list_all_iff)

definition successes :: "(string \<times> (go_error + 'a)) list \<Rightarrow> (string \<times> 'a) list" where
  "successes rs = concat (map (\<lambda>(name, r). case r of Inl _ \<Rightarrow> [] | Inr x \<Rightarrow> [(name, x)]) rs)"

lemma successes_all:
  "list_all2 (\<lambda>d (name, r). name = def_Name d \<and> (\<exists>m. r = Inr m \<and> Q name m)) ds rs \<Longrightarrow>
   map fst (successes rs) = map def_Name ds \<and> (\<forall>(name, m) \<in> set (successes rs). Q name m)"
  by (induction ds rs rule: list_all2_induct) (auto simp: successes_def)

lemma concat_rows:
  "concat (map (row_of f) rs) = concat (map (\<lambda>b. f (snd b)) (successes rs))"
  by (induction rs) (auto simp: successes_def split: sum.split)

section \<open>Summaries of one workload\<close>

text \<open>
  When the same types occur for every index, each bar series has one bar per label, in order.
\<close>

fun typed :: "bool \<Rightarrow> MixedSummaryResult \<Rightarrow> MixedSummaryResult list" where
  "typed b r = (if b then [r] else [])"

definition pair_rows :: "bool \<Rightarrow> bool \<Rightarrow> MixedSummaryResult \<times> MixedSummaryResult \<Rightarrow> string list list" where
  "pair_rows hr hw x = map mixed_summary_row (typed hr (fst x) @ typed hw (snd x))"

definition pair_ok :: "MixedSummaryResult \<times> MixedSummaryResult \<Rightarrow> bool" where
  "pair_ok x \<longleftrightarrow> rm_Index (fst x) = rm_Index (snd x) \<and> rm_OpType (fst x) = ''read'' \<and>
     rm_OpType (snd x) = ''write''"

lemma summary_row_fields:
  "field (mixed_summary_row r) 0 = Some (rm_Index r)" "field (mixed_summary_row r) 1 = Some (rm_OpType r)"
  "number (mixed_summary_row r) 4 = Some (of_int (sint (rm_P50Ns r)))"
  "number (mixed_summary_row r) 5 = Some (of_int (sint (rm_P95Ns r)))"
  by (simp_all add: field_def number_def mixed_summary_row_def ParseFloat_show_int)

definition add_label :: "string \<Rightarrow> string list \<Rightarrow> string list" where
  "add_label n ls = (if n \<in> set ls then ls else ls @ [n])"

lemma summary_step:
  "rm_OpType r = ''read'' \<Longrightarrow> summary_rows (mixed_summary_row r # rest) d = summary_rows rest
     (d\<lparr>sm_Labels := add_label (rm_Index r) (sm_Labels d),
        sm_p50Read := sm_p50Read d @ [of_int (sint (rm_P50Ns r))],
        sm_p95Read := sm_p95Read d @ [of_int (sint (rm_P95Ns r))]\<rparr>)"
  "rm_OpType r = ''write'' \<Longrightarrow> summary_rows (mixed_summary_row r # rest) d = summary_rows rest
     (d\<lparr>sm_Labels := add_label (rm_Index r) (sm_Labels d),
        sm_p50Write := sm_p50Write d @ [of_int (sint (rm_P50Ns r))],
        sm_p95Write := sm_p95Write d @ [of_int (sint (rm_P95Ns r))]\<rparr>)"
  unfolding summary_rows.simps summary_row_fields bind.simps Let_def
  by (cases d; cases "rm_Index r \<in> set (sm_Labels d)"; simp add: add_label_def)+

abbreviation bars :: "bool \<Rightarrow> ('a \<Rightarrow> MixedSummaryResult) \<Rightarrow> (MixedSummaryResult \<Rightarrow> int64) \<Rightarrow> 'a list \<Rightarrow> rat list" where
  "bars b row val xs \<equiv> if b then map (\<lambda>x. of_int (sint (val (row x)))) xs else []"

lemma summary_pairs:
  assumes "hr \<or> hw"
  shows "\<forall>x \<in> set xs. pair_ok x \<Longrightarrow> distinct (map (\<lambda>x. rm_Index (fst x)) xs) \<Longrightarrow>
    set (sm_Labels d) \<inter> (\<lambda>x. rm_Index (fst x)) ` set xs = {} \<Longrightarrow>
    summary_rows (concat (map (pair_rows hr hw) xs)) d = Some
      \<lparr>sm_Labels = sm_Labels d @ map (\<lambda>x. rm_Index (fst x)) xs,
       sm_p50Read = sm_p50Read d @ bars hr fst rm_P50Ns xs, sm_p95Read = sm_p95Read d @ bars hr fst rm_P95Ns xs,
       sm_p50Write = sm_p50Write d @ bars hw snd rm_P50Ns xs,
       sm_p95Write = sm_p95Write d @ bars hw snd rm_P95Ns xs\<rparr>"
proof (induction xs arbitrary: d)
  case (Cons x xs)
  have x: "rm_Index (fst x) = rm_Index (snd x)" "rm_OpType (fst x) = ''read''" "rm_OpType (snd x) = ''write''"
    "rm_Index (fst x) \<notin> set (sm_Labels d)"
    using Cons.prems by (auto simp: pair_ok_def)
  let ?d = "\<lparr>sm_Labels = sm_Labels d @ [rm_Index (fst x)],
       sm_p50Read = sm_p50Read d @ bars hr fst rm_P50Ns [x], sm_p95Read = sm_p95Read d @ bars hr fst rm_P95Ns [x],
       sm_p50Write = sm_p50Write d @ bars hw snd rm_P50Ns [x],
       sm_p95Write = sm_p95Write d @ bars hw snd rm_P95Ns [x]\<rparr>"
  have "summary_rows (pair_rows hr hw x @ rest) d = summary_rows rest ?d" for rest
    using assms x by (cases hr; cases hw; cases d) (simp_all add: pair_rows_def summary_step add_label_def del: summary_rows.simps(2))
  moreover have "set (sm_Labels ?d) \<inter> (\<lambda>x. rm_Index (fst x)) ` set xs = {}"
    using Cons.prems(2,3) by auto
  ultimately show ?case using Cons.IH[of ?d] Cons.prems(1,2) by simp
qed simp

section \<open>The plot of a mixed workload\<close>

definition renders_ok :: "renderer \<Rightarrow> bool" where
  "renders_ok rn \<longleftrightarrow> (\<forall>p. rn_create rn p = Inr ()) \<and> (\<forall>p c. rn_render rn p c = Inr ())"

definition shown :: "series \<Rightarrow> string \<times> rat list list" where
  "shown s = (se_Name s, map it_Value (se_Data s))"

definition rows_of_type :: "string \<Rightarrow> mixed_result \<Rightarrow> MixedSummaryResult list" where
  "rows_of_type t m = filter (\<lambda>r. rm_OpType r = t) (mr_Summary m)"

text \<open>The bars of one series: the rows of one type, over all indexes.\<close>

definition bar_values :: "string \<Rightarrow> (MixedSummaryResult \<Rightarrow> int64) \<Rightarrow> (string \<times> mixed_result) list \<Rightarrow> rat list list" where
  "bar_values t val ms =
     concat (map (\<lambda>(n, m). map (\<lambda>r. [of_int (sint (val r))]) (rows_of_type t m)) ms)"

text \<open>
  The page shows the measurements: one line per index with the logged response times in order
  over the operation numbers, and one bar per index in each series whose type occurred.
\<close>

definition shows_measurements :: "(string \<times> mixed_result) list \<Rightarrow> web_page \<Rightarrow> bool" where
  "shows_measurements ms page \<longleftrightarrow> (\<exists>bar line. wp_Charts page = [bar, line] \<and>
     map shown (ch_Series line) =
       map (\<lambda>(n, m). (n, map (\<lambda>(i, t, _). [of_int (sint t)]) (mr_Log m))) ms \<and>
     ch_XLabels line = map (\<lambda>(i, _). show_nat i) (mr_Log (snd (hd ms))) \<and>
     ch_XLabels bar = map fst ms \<and>
     map shown (ch_Series bar) =
       [(''Read P50'', bar_values ''read'' rm_P50Ns ms), (''Read P95'', bar_values ''read'' rm_P95Ns ms),
        (''Write P50'', bar_values ''write'' rm_P50Ns ms), (''Write P95'', bar_values ''write'' rm_P95Ns ms)] \<and>
     (\<forall>t. \<exists>k \<le> 1. \<forall>(n, m) \<in> set ms. length (rows_of_type t m) = k))"

lemma mixed_csv_rows:
  "mixed_csv rs = mixedHeader # block_rows mixed_row (map (\<lambda>b. (fst b, mr_Log (snd b))) (successes rs))"
proof -
  have "concat (map (\<lambda>r. row_of (\<lambda>x. map (mixed_row (fst r)) (mr_Log x)) r) rs) =
      concat (map (\<lambda>b. map (mixed_row (fst b)) (mr_Log (snd b))) (successes rs))"
    by (induction rs) (auto simp: successes_def split: sum.split)
  then show ?thesis by (simp add: mixed_csv_def block_rows_def comp_def)
qed

lemma mixed_summary_csv_rows:
  "mixed_summary_csv rs = mixedSummaryHeader #
     concat (map (\<lambda>b. map mixed_summary_row (mr_Summary (snd b))) (successes rs))"
  by (simp add: mixed_summary_csv_def concat_rows)

lemma mixed_row_fields:
  "mixed_row n x ! 0 = n" "length (mixed_row n x) = 4" "mixed_row n x ! 1 = show_nat (fst x)"
  "ParseFloat (mixed_row n x ! 2) = of_int (sint (fst (snd x)))"
  by (simp_all add: mixed_row_def ParseFloat_show_int split: prod.split)

text \<open>The summary of one index.\<close>

lemma map_eq_typed:
  assumes "map (\<lambda>r. (rm_Index r, rm_OpType r, rm_Count r)) rs =
    (if hr then [(name, ''read'', a)] else []) @ (if hw then [(name, ''write'', b)] else [])"
  shows "\<exists>x. rs = typed hr (fst x) @ typed hw (snd x) \<and> pair_ok x \<and> rm_Index (fst x) = name"
proof -
  define r0 where "r0 t = \<lparr>rm_Index = name, rm_OpType = t, rm_Count = 0, rm_MinNs = 0, rm_P50Ns = 0,
    rm_P95Ns = 0, rm_P99Ns = 0, rm_AvgNs = 0, rm_OpsPerSec = []\<rparr>" for t
  let ?x = "(if hr then hd rs else r0 ''read'', if hw then last rs else r0 ''write'')"
  have "rs = typed hr (fst ?x) @ typed hw (snd ?x) \<and> pair_ok ?x \<and> rm_Index (fst ?x) = name"
    using assms by (cases hr; cases hw) (auto simp: pair_ok_def r0_def)
  then show ?thesis by blast
qed

lemma mixed_ok_summary:
  assumes "mixed_ok clk name cfg ops m"
  shows "\<exists>x. mr_Summary m = typed (ReadOp1 \<in> set ops) (fst x) @ typed (WriteOp1 \<in> set ops) (snd x) \<and>
    pair_ok x \<and> rm_Index (fst x) = name"
proof (rule map_eq_typed)
  show "map (\<lambda>r. (rm_Index r, rm_OpType r, rm_Count r)) (mr_Summary m) =
      (if ReadOp1 \<in> set ops then [(name, ''read'', length (filter (\<lambda>x. x = ReadOp1) ops))] else []) @
      (if WriteOp1 \<in> set ops then [(name, ''write'', length (filter (\<lambda>x. x = WriteOp1) ops))] else [])"
    using assms by (auto simp: mixed_ok_def Let_def filter_empty_conv)
qed

lemma rows_of_typed:
  assumes "mr_Summary m = typed hr (fst x) @ typed hw (snd x)" "pair_ok x"
  shows "rows_of_type ''read'' m = typed hr (fst x)" "rows_of_type ''write'' m = typed hw (snd x)"
    "t \<noteq> ''read'' \<Longrightarrow> t \<noteq> ''write'' \<Longrightarrow> rows_of_type t m = []"
  using assms by (cases hr; cases hw; auto simp: rows_of_type_def pair_ok_def)+

lemma bar_values_typed:
  assumes "\<forall>b \<in> set ms. rows_of_type t (snd b) = typed hb (sel (X b))"
  shows "bar_values t val ms = map (\<lambda>v. [v]) (bars hb sel val (map X ms))"
  using assms by (induction ms) (auto simp: bar_values_def case_prod_beta split: if_splits)

text \<open>The two charts of a mixed workload whose results are complete.\<close>

lemma plot_mixed:
  assumes rn: "renders_ok rn" and fs: "fs (join out f) = Some (mixed_csv rs)"
    "fs (join out (summary_file f)) = Some (mixed_summary_csv rs)"
    and ms: "successes rs = ms" "ms \<noteq> []" "distinct (map fst ms)" "\<forall>b \<in> set ms. mr_Log (snd b) \<noteq> []"
    and ok: "\<forall>b \<in> set ms. \<exists>x. mr_Summary (snd b) = typed hr (fst x) @ typed hw (snd x) \<and> pair_ok x \<and>
      rm_Index (fst x) = fst b" "hr \<or> hw"
  shows "\<exists>page. PlotMixed rn fs out f title html = Some (Inr page) \<and> wp_Path page = join out html \<and>
    shows_measurements ms page \<and> (\<exists>bar line cs. wp_Charts page = [bar, line] \<and>
      pickColors (map fst ms) (\<lambda>_. 0) = Some cs \<and> map se_LineColor (ch_Series line) = map Some cs)"
proof -
  let ?blocks = "map (\<lambda>b. (fst b, mr_Log (snd b))) ms"
  have rows: "data_rows (ReadAll fs (join out f)) = Some (block_rows mixed_row ?blocks)"
  proof (rule ReadAll_csv)
    show "fs (join out f) = Some (mixedHeader # block_rows mixed_row ?blocks)"
      using fs(1) by (simp add: mixed_csv_rows ms(1))
    show "\<forall>r \<in> set (block_rows mixed_row ?blocks). length r = length mixedHeader"
      by (auto simp: block_rows_def mixed_row_fields mixedHeader_def)
  qed
  have B: "blocks_ok mixed_row ?blocks"
    using ms(2-4) by (auto simp: blocks_ok_def comp_def mixed_row_fields)
  obtain d ss where L: "group_rows 2 (block_rows mixed_row ?blocks) no_lines = Some d"
    "line_series False d = Some ss"
    "map (\<lambda>s. (se_Name s, map it_Value (se_Data s))) ss =
      map (\<lambda>b. (fst b, map (\<lambda>x. [of_int (sint (fst (snd x)))]) (snd b))) ?blocks"
    "xLabels d = map (\<lambda>x. mixed_row (fst (hd ?blocks)) x ! 1) (snd (hd ?blocks))"
    "\<exists>cs. pickColors (map fst ?blocks) (\<lambda>_. 0) = Some cs \<and> map se_LineColor ss = map Some cs"
    using block_lines[OF B, of 2 "\<lambda>x. of_int (sint (fst (snd x)))" False] mixed_row_fields by auto
  obtain X where X: "\<forall>b \<in> set ms. mr_Summary (snd b) = typed hr (fst (X b)) @ typed hw (snd (X b)) \<and>
      pair_ok (X b) \<and> rm_Index (fst (X b)) = fst b"
    using bchoice[OF ok(1)] by blast
  have sums: "concat (map (\<lambda>b. map mixed_summary_row (mr_Summary (snd b))) ms) =
      concat (map (pair_rows hr hw) (map X ms))"
    using X by (intro arg_cong[of _ _ concat]) (simp add: pair_rows_def)
  have names: "map (\<lambda>x. rm_Index (fst x)) (map X ms) = map fst ms" using X by simp
  let ?sm = "\<lparr>sm_Labels = map fst ms, sm_p50Read = bars hr fst rm_P50Ns (map X ms),
    sm_p95Read = bars hr fst rm_P95Ns (map X ms), sm_p50Write = bars hw snd rm_P50Ns (map X ms),
    sm_p95Write = bars hw snd rm_P95Ns (map X ms)\<rparr>"
  have S: "summary_rows (concat (map (\<lambda>b. map mixed_summary_row (mr_Summary (snd b))) ms)) no_summary = Some ?sm"
    unfolding sums using summary_pairs[OF ok(2), of "map X ms" no_summary] X ms(3) unfolding names
    by (simp add: no_summary_def)
  have srows: "data_rows (ReadAll fs (join out (summary_file f))) =
      Some (concat (map (\<lambda>b. map mixed_summary_row (mr_Summary (snd b))) ms))"
  proof (rule ReadAll_csv)
    show "fs (join out (summary_file f)) = Some (mixedSummaryHeader #
        concat (map (\<lambda>b. map mixed_summary_row (mr_Summary (snd b))) ms))"
      using fs(2) by (simp add: mixed_summary_csv_rows ms(1))
    show "\<forall>r \<in> set (concat (map (\<lambda>b. map mixed_summary_row (mr_Summary (snd b))) ms)).
        length r = length mixedSummaryHeader"
      by (auto simp: mixed_summary_row_def mixedSummaryHeader_def)
  qed
  let ?bar = "summary_chart title ?sm"
  let ?line = "line_chart title ''Response Time (ns)'' ''Op Count'' d ss True"
  let ?page = "\<lparr>wp_Path = join out html, wp_Charts = [?bar, ?line]\<rparr>"
  have "PlotMixed rn fs out f title html = Some (Inr ?page)"
    unfolding PlotMixed_def rows srows L(1,2) S bind.simps
    using rn by (simp add: renderPage_def renders_ok_def)
  moreover have "shows_measurements ms ?page"
  proof -
    have T: "\<forall>b \<in> set ms. rows_of_type ''read'' (snd b) = typed hr (fst (X b))"
      "\<forall>b \<in> set ms. rows_of_type ''write'' (snd b) = typed hw (snd (X b))"
      "\<forall>b \<in> set ms. \<forall>t. t \<noteq> ''read'' \<longrightarrow> t \<noteq> ''write'' \<longrightarrow> rows_of_type t (snd b) = []"
      using X rows_of_typed by blast+
    have "map shown (ch_Series ?line) = map (\<lambda>(n, m). (n, map (\<lambda>(i, t, _). [of_int (sint t)]) (mr_Log m))) ms"
      using L(3) unfolding shown_def[abs_def] by (simp add: line_chart_def comp_def case_prod_beta)
    moreover have "ch_XLabels ?line = map (\<lambda>(i, _). show_nat i) (mr_Log (snd (hd ms)))"
      using L(4) ms(2) by (simp add: line_chart_def mixed_row_fields(3)[unfolded One_nat_def] hd_map case_prod_beta)
    moreover have "map shown (ch_Series ?bar) =
       [(''Read P50'', bar_values ''read'' rm_P50Ns ms), (''Read P95'', bar_values ''read'' rm_P95Ns ms),
        (''Write P50'', bar_values ''write'' rm_P50Ns ms), (''Write P95'', bar_values ''write'' rm_P95Ns ms)]"
      unfolding bar_values_typed[where X = X and sel = fst, OF T(1)]
        bar_values_typed[where X = X and sel = snd, OF T(2)]
      by (simp add: summary_chart_def bar_chart_def shown_def plain_series_def plain_item_def comp_def)
    moreover have "\<exists>k \<le> 1. \<forall>(n, m) \<in> set ms. length (rows_of_type t m) = k" for t
    proof -
      let ?k = "if t = ''read'' then length (typed hr undefined)
        else if t = ''write'' then length (typed hw undefined) else 0"
      have "\<forall>(n, m) \<in> set ms. length (rows_of_type t m) = ?k" using T by fastforce
      moreover have "?k \<le> 1" by simp
      ultimately show ?thesis by blast
    qed
    moreover have "ch_XLabels ?bar = map fst ms" by (simp add: summary_chart_def bar_chart_def)
    ultimately show ?thesis unfolding shows_measurements_def by simp
  qed
  moreover have "\<exists>bar line cs. wp_Charts ?page = [bar, line] \<and>
      pickColors (map fst ms) (\<lambda>_. 0) = Some cs \<and> map se_LineColor (ch_Series line) = map Some cs"
    using L(5) by (auto simp: line_chart_def comp_def)
  ultimately show ?thesis by (intro exI[of _ ?page]) simp
qed

section \<open>The whole program\<close>

lemma log_nonempty:
  assumes "mixed_ok clk name cfg ops m" "0 < MixedOpsTotal cfg" "0 < LogInterval cfg"
  shows "mr_Log m \<noteq> []"
proof -
  have "0 \<in> set (filter (\<lambda>j. j mod LogInterval cfg = 0) [0..<MixedOpsTotal cfg])" using assms(2) by simp
  then have "filter (\<lambda>j. j mod LogInterval cfg = 0) [0..<MixedOpsTotal cfg] \<noteq> []" by (metis empty_iff list.set(1))
  moreover have "log_ok (mr_Times m) 0 (filter (\<lambda>j. j mod LogInterval cfg = 0) [0..<MixedOpsTotal cfg]) (mr_Log m)"
    using assms(1) unfolding mixed_ok_def by blast
  ultimately show ?thesis by (simp add: log_ok_def)
qed

lemma workload_nonempty:
  assumes "rand_ok R" "8 \<le> ValueSize cfg" "0 < MixedOpsTotal cfg"
  shows "ReadOp1 \<in> set (workload R cfg p) \<or> WriteOp1 \<in> set (workload R cfg p)"
proof -
  obtain ds where "NewDataset R (DatasetSize cfg) (ValueSize cfg) (Seed cfg) = Some ds"
    by (rule NewDataset_ok[OF assms(1,2)])
  then have "length (workload R cfg p) = MixedOpsTotal cfg" by (simp add: workload_def length_plan)
  then have "hd (workload R cfg p) \<in> set (workload R cfg p)" using assms(3) by (cases "workload R cfg p") auto
  then show ?thesis by (metis op_type.exhaust)
qed

lemma registry_names: "distinct (map def_Name Indexes)"
  by (simp add: Indexes_def)

lemma registry_colors_eval: "pickColors (map def_Name Indexes) (\<lambda>_. 0) = Some indexColorHex"
  by (simp add: Indexes_def pickColor_def colorKey_def to_lower_def has_prefix_def indexColorHex_def
      colorBaseIndex_def Let_def)

lemma measured:
  assumes "list_all2 (\<lambda>d (name, r). name = def_Name d \<and>
      (\<exists>m. r = Inr m \<and> mixed_ok (clk name) name cfg ops m)) Indexes rs"
    and "0 < MixedOpsTotal cfg" "0 < LogInterval cfg" "ReadOp1 \<in> set ops \<or> WriteOp1 \<in> set ops"
    and "renders_ok rn" "fs (join out f) = Some (mixed_csv rs)"
    "fs (join out (summary_file f)) = Some (mixed_summary_csv rs)"
  shows "map fst (successes rs) = map def_Name Indexes \<and>
    (\<exists>page. PlotMixed rn fs out f title html = Some (Inr page) \<and> wp_Path page = join out html \<and>
     shows_measurements (successes rs) page \<and> (\<exists>bar line. wp_Charts page = [bar, line] \<and>
       map se_LineColor (ch_Series line) = map Some indexColorHex))"
proof -
  let ?ms = "successes rs"
  have S: "map fst ?ms = map def_Name Indexes" "\<forall>(name, m) \<in> set ?ms. mixed_ok (clk name) name cfg ops m"
    using successes_all[OF assms(1)] by simp_all
  have ne: "?ms \<noteq> []" using S(1) by (auto simp: Indexes_def)
  have d: "distinct (map fst ?ms)" unfolding S(1) by (rule registry_names)
  have logs: "\<forall>b \<in> set ?ms. mr_Log (snd b) \<noteq> []" using S(2) log_nonempty[OF _ assms(2,3)] by fastforce
  have sums: "\<forall>b \<in> set ?ms. \<exists>x. mr_Summary (snd b) =
      typed (ReadOp1 \<in> set ops) (fst x) @ typed (WriteOp1 \<in> set ops) (snd x) \<and>
      pair_ok x \<and> rm_Index (fst x) = fst b"
  proof
    fix b assume "b \<in> set ?ms"
    then have "mixed_ok (clk (fst b)) (fst b) cfg ops (snd b)" using S(2) by auto
    then show "\<exists>x. mr_Summary (snd b) =
      typed (ReadOp1 \<in> set ops) (fst x) @ typed (WriteOp1 \<in> set ops) (snd x) \<and>
      pair_ok x \<and> rm_Index (fst x) = fst b" by (rule mixed_ok_summary)
  qed
  show ?thesis
    using plot_mixed[OF assms(5-7) refl ne d logs sums assms(4), of title html] S(1)
    unfolding S(1) registry_colors_eval by auto
qed

text \<open>
  C18. The program shows what it measures: when the command line gives a configuration with the
  default value size and room for its keys, starting from an empty result directory and new data
  files, the benchmarks and all plots succeed. The program writes exactly the pages of T4 and T5; each has one line per
  index of the registry, in its order and in nine different colours of the three families, with
  the response times of the logged operations in order over their numbers, and bars with the
  percentiles of the reads and of the writes of every index.
\<close>

theorem program_shows_measurements:
  assumes "pebble_store P content rest" "rand_ok R" "ValueSize cfg = 128" "\<forall>path. empty_tree_file (files path)"
    "0 < DatasetSize cfg" "DatasetSize cfg + MixedOpsTotal cfg \<le> entry_limit" "0 < LogInterval cfg"
    "0 < MixedOpsTotal cfg" "renders_ok rn" "ReadFlagsOrDefault args = Some (Runs cfg)"
  shows "\<exists>r4 r5 p4 p5. RunBenchmarks P R clk cfg files = Some (r4, r5) \<and>
    main_command P R clk rn args files (\<lambda>_. None) = Some (Inr (None, [p4, p5])) \<and>
    wp_Path p4 = join (OutDir cfg) ''t4.html'' \<and> wp_Path p5 = join (OutDir cfg) ''t5.html'' \<and>
    map fst (successes r4) = map def_Name Indexes \<and> shows_measurements (successes r4) p4 \<and>
    map fst (successes r5) = map def_Name Indexes \<and> shows_measurements (successes r5) p5 \<and>
    (\<forall>p \<in> {p4, p5}. \<exists>bar line. wp_Charts p = [bar, line] \<and>
       map se_LineColor (ch_Series line) = map Some indexColorHex)"
proof -
  have vs: "8 \<le> ValueSize cfg" using assms(3) by simp
  note types = workload_nonempty[OF assms(2) vs assms(8)]
  let ?out = "OutDir cfg"
  obtain r4 r5 where R: "RunBenchmarks P R clk cfg files = Some (r4, r5)"
    "list_all2 (\<lambda>d (name, r). name = def_Name d \<and>
      (\<exists>m. r = Inr m \<and> mixed_ok (clk ''T4'' name) name cfg (workload R cfg 95) m)) Indexes r4"
    "list_all2 (\<lambda>d (name, r). name = def_Name d \<and>
      (\<exists>m. r = Inr m \<and> mixed_ok (clk ''T5'' name) name cfg (workload R cfg 5) m)) Indexes r5"
    by (rule benchmarks_run[OF assms(1-7), of clk])
  let ?fs = "write_mixed ?out ''t5_write_heavy.csv'' r5 (write_mixed ?out ''t4_read_heavy.csv'' r4 (\<lambda>_. None))"
  have fs: "?fs (join ?out ''t4_read_heavy.csv'') = Some (mixed_csv r4)"
    "?fs (join ?out (summary_file ''t4_read_heavy.csv'')) = Some (mixed_summary_csv r4)"
    "?fs (join ?out ''t5_write_heavy.csv'') = Some (mixed_csv r5)"
    "?fs (join ?out (summary_file ''t5_write_heavy.csv'')) = Some (mixed_summary_csv r5)"
    "?fs (join ?out ''t1_point_query.csv'') = None" "?fs (join ?out ''t2_range_query.csv'') = None"
    "?fs (join ?out ''t3_write_throughput.csv'') = None"
    by (simp_all add: write_mixed_def join_def summary_file_def)
  obtain p4 where 4: "map fst (successes r4) = map def_Name Indexes" "PlotT4 rn ?fs ?out = Some (Inr p4)"
    "wp_Path p4 = join ?out ''t4.html''" "shows_measurements (successes r4) p4"
    "\<exists>bar line. wp_Charts p4 = [bar, line] \<and> map se_LineColor (ch_Series line) = map Some indexColorHex"
    using measured[OF R(2) assms(8,7) types assms(9) fs(1,2)] unfolding PlotT4_def by blast
  obtain p5 where 5: "map fst (successes r5) = map def_Name Indexes" "PlotT5 rn ?fs ?out = Some (Inr p5)"
    "wp_Path p5 = join ?out ''t5.html''" "shows_measurements (successes r5) p5"
    "\<exists>bar line. wp_Charts p5 = [bar, line] \<and> map se_LineColor (ch_Series line) = map Some indexColorHex"
    using measured[OF R(3) assms(8,7) types assms(9) fs(3,4)] unfolding PlotT5_def by blast
  have "PlotAll rn ?fs ?out = Some (None, [p4, p5])"
    unfolding PlotAll_def run_plots.simps fs 4(2) 5(2) by simp
  then have "main_program P R clk rn cfg files (\<lambda>_. None) = Some (None, [p4, p5])"
    by (simp only: main_program_def R(1) bind.simps prod.case Let_def)
  then have "main_command P R clk rn args files (\<lambda>_. None) = Some (Inr (None, [p4, p5]))"
    by (simp add: main_command_def assms(10))
  then show ?thesis using R(1) 4 5 by blast
qed

text \<open>Without arguments, at the default flags.\<close>

theorem program_shows_measurements_witness:
  "\<exists>r4 r5 p4 p5. RunBenchmarks mem_pebble count_rand (\<lambda>_ _. tick) default_config (\<lambda>_. empty_file) = Some (r4, r5) \<and>
    main_command mem_pebble count_rand (\<lambda>_ _. tick) \<lparr>rn_create = (\<lambda>_. Inr ()), rn_render = (\<lambda>_ _. Inr ())\<rparr>
      [] (\<lambda>_. empty_file) (\<lambda>_. None) = Some (Inr (None, [p4, p5])) \<and>
    wp_Path p4 = join (OutDir default_config) ''t4.html'' \<and> wp_Path p5 = join (OutDir default_config) ''t5.html'' \<and>
    map fst (successes r4) = map def_Name Indexes \<and> shows_measurements (successes r4) p4 \<and>
    map fst (successes r5) = map def_Name Indexes \<and> shows_measurements (successes r5) p5 \<and>
    (\<forall>p \<in> {p4, p5}. \<exists>bar line. wp_Charts p = [bar, line] \<and>
       map se_LineColor (ch_Series line) = map Some indexColorHex)"
  by (rule program_shows_measurements[OF mem.pebble_store_axioms count_rand_ok])
    (simp_all add: no_flags, simp_all add: default_config_def empty_tree_file_def entry_limit_def renders_ok_def)

end
