(* ===== verification/TestPlots.thy ===== *)
theory TestPlots
  imports PlotProps
begin

text \<open>
  The plots of T1 and T2 on the files that these runs write: boxes whose five numbers are in
  order, and lines of the measured durations over the range sizes.
\<close>

section \<open>T1\<close>

lemma t1_row_fields:
  "number (t1_row r) 3 = Some (of_int (sint (r1_MinNs r)))" "number (t1_row r) 4 = Some (of_int (sint (r1_Q1Ns r)))"
  "number (t1_row r) 5 = Some (of_int (sint (r1_P50Ns r)))" "number (t1_row r) 6 = Some (of_int (sint (r1_Q3Ns r)))"
  "number (t1_row r) 7 = Some (of_int (sint (r1_MaxNs r)))" "number (t1_row r) 9 = Some (of_int (sint (r1_P95Ns r)))"
  "number (t1_row r) 11 = Some (ParseFloat (r1_OpsPerSec r))" "field (t1_row r) 0 = Some (r1_Index r)"
  by (simp_all add: field_def number_def t1_row_def ParseFloat_show_int)

definition box_values :: "T1Result \<Rightarrow> rat list" where
  "box_values r = (let v = (\<lambda>w. of_int (sint w)); iqr = v (r1_Q3Ns r) - v (r1_Q1Ns r) in
     [max (v (r1_MinNs r)) (v (r1_Q1Ns r) - 3 / 2 * iqr), v (r1_Q1Ns r), v (r1_P50Ns r), v (r1_Q3Ns r),
      min (v (r1_MaxNs r)) (v (r1_Q3Ns r) + 3 / 2 * iqr)])"

lemma t1_plot_rows_spec:
  "\<exists>p'. t1_plot_rows (map t1_row rs) counters p = Some p' \<and>
     p1_labels p' = p1_labels p @ map r1_Index rs \<and>
     map it_Value (p1_p95Items p') = map it_Value (p1_p95Items p) @ map (\<lambda>r. [of_int (sint (r1_P95Ns r))]) rs \<and>
     map it_Value (p1_barItems p') = map it_Value (p1_barItems p) @ map (\<lambda>r. [ParseFloat (r1_OpsPerSec r)]) rs \<and>
     map it_Value (p1_boxItems p') = map it_Value (p1_boxItems p) @ map box_values rs"
proof (induction rs arbitrary: counters p)
  case (Cons r rs)
  obtain color counters' where c: "pickColor (r1_Index r) counters = Some (color, counters')"
    by (simp add: pickColor_total)
  let ?p = "\<lparr>p1_labels = p1_labels p @ [r1_Index r],
       p1_p95Items = p1_p95Items p @ [\<lparr>it_Value = [of_int (sint (r1_P95Ns r))], it_Color = Some color\<rparr>],
       p1_barItems = p1_barItems p @ [\<lparr>it_Value = [ParseFloat (r1_OpsPerSec r)], it_Color = Some color\<rparr>],
       p1_boxItems = p1_boxItems p @ [\<lparr>it_Value = box_values r, it_Color = Some color\<rparr>]\<rparr>"
  have "t1_plot_rows (map t1_row (r # rs)) counters p = t1_plot_rows (map t1_row rs) counters' ?p"
    unfolding list.map t1_plot_rows.simps t1_row_fields bind.simps Let_def c prod.case box_values_def
    by (simp add: max_def min_def not_less[symmetric] if_distrib)
  then show ?case using Cons.IH[of counters' ?p] by simp
qed simp

lemma whiskers_sorted:
  assumes "a \<le> b" "b \<le> c" "c \<le> d" "d \<le> (e :: rat)"
  shows "sorted [max a (b - 3 / 2 * (d - b)), b, c, d, min e (d + 3 / 2 * (d - b))]"
proof -
  have "b \<le> d" using assms by order
  then have "0 \<le> 3 / 2 * (d - b)" by (intro mult_nonneg_nonneg) simp_all
  then have "b - 3 / 2 * (d - b) \<le> b" "d \<le> d + 3 / 2 * (d - b)"
    by (simp_all only: diff_le_eq le_add_same_cancel1)
  then have "max a (b - 3 / 2 * (d - b)) \<le> b" "d \<le> min e (d + 3 / 2 * (d - b))"
    unfolding max.bounded_iff min.bounded_iff using assms by blast+
  then show ?thesis using assms(2,3) unfolding sorted2 sorted1 by blast
qed

lemma box_sorted:
  assumes "in_order [r1_MinNs r, r1_Q1Ns r, r1_P50Ns r, r1_Q3Ns r, r1_P95Ns r, r1_P99Ns r, r1_MaxNs r]"
  shows "sorted (box_values r)" "of_int (sint (r1_MinNs r)) \<le> hd (box_values r)"
    "last (box_values r) \<le> of_int (sint (r1_MaxNs r))"
proof -
  let ?v = "\<lambda>w :: int64. rat_of_int (sint w)"
  have o: "?v (r1_MinNs r) \<le> ?v (r1_Q1Ns r)" "?v (r1_Q1Ns r) \<le> ?v (r1_P50Ns r)"
    "?v (r1_P50Ns r) \<le> ?v (r1_Q3Ns r)" "?v (r1_Q3Ns r) \<le> ?v (r1_MaxNs r)"
    unfolding of_int_le_iff using assms by simp_all
  show "sorted (box_values r)" unfolding box_values_def Let_def by (rule whiskers_sorted[OF o])
  show "?v (r1_MinNs r) \<le> hd (box_values r)" "last (box_values r) \<le> ?v (r1_MaxNs r)"
    by (simp_all add: box_values_def Let_def)
qed

text \<open>
  C27. The plot of T1 shows its rows: for results whose statistics are in order, as those of the
  run are, the page has the index names as labels, the 95th percentiles, and boxes from whisker to
  whisker in ascending order, inside the measured minimum and maximum, with the quartiles and the
  median of the index.
\<close>

theorem t1_plot_boxes:
  assumes "renders_ok rn" "fs (join out ''t1_point_query.csv'') = Some (t1Header # map t1_row rs)"
    "\<forall>r \<in> set rs. in_order [r1_MinNs r, r1_Q1Ns r, r1_P50Ns r, r1_Q3Ns r, r1_P95Ns r, r1_P99Ns r, r1_MaxNs r]"
  shows "\<exists>box p95 tput. PlotT1 rn fs out =
      Some (Inr \<lparr>wp_Path = join out ''t1.html'', wp_Charts = [box, p95, tput]\<rparr>) \<and>
    ch_XLabels box = map r1_Index rs \<and> ch_XLabels p95 = map r1_Index rs \<and> ch_XLabels tput = map r1_Index rs \<and>
    map shown (ch_Series p95) = [(''P95 Response Time'', map (\<lambda>r. [of_int (sint (r1_P95Ns r))]) rs)] \<and>
    (\<exists>boxes. map shown (ch_Series box) = [(''Response Time'', boxes)] \<and>
      list_all2 (\<lambda>r b. \<exists>lo hi. b = [lo, of_int (sint (r1_Q1Ns r)), of_int (sint (r1_P50Ns r)),
          of_int (sint (r1_Q3Ns r)), hi] \<and> sorted b \<and>
        of_int (sint (r1_MinNs r)) \<le> lo \<and> hi \<le> of_int (sint (r1_MaxNs r))) rs boxes)"
proof -
  have rows: "data_rows (ReadAll fs (join out ''t1_point_query.csv'')) = Some (map t1_row rs)"
    by (rule ReadAll_csv[of fs _ t1Header]) (simp_all add: assms(2), simp add: t1_row_def t1Header_def)
  let ?p = "\<lparr>p1_labels = [], p1_p95Items = [], p1_barItems = [], p1_boxItems = []\<rparr>"
  obtain p where p: "t1_plot_rows (map t1_row rs) (\<lambda>_. 0) ?p = Some p" "p1_labels p = map r1_Index rs"
    "map it_Value (p1_p95Items p) = map (\<lambda>r. [of_int (sint (r1_P95Ns r))]) rs"
    "map it_Value (p1_boxItems p) = map box_values rs"
    using t1_plot_rows_spec[of rs "\<lambda>_. 0" ?p] by auto
  have box: "\<exists>lo hi. box_values r = [lo, of_int (sint (r1_Q1Ns r)), of_int (sint (r1_P50Ns r)),
          of_int (sint (r1_Q3Ns r)), hi] \<and> sorted (box_values r) \<and>
        of_int (sint (r1_MinNs r)) \<le> lo \<and> hi \<le> of_int (sint (r1_MaxNs r))" if "r \<in> set rs" for r
    using box_sorted[of r] assms(3) that by (simp add: box_values_def Let_def)
  have "list_all2 (\<lambda>r b. \<exists>lo hi. b = [lo, of_int (sint (r1_Q1Ns r)), of_int (sint (r1_P50Ns r)),
          of_int (sint (r1_Q3Ns r)), hi] \<and> sorted b \<and>
        of_int (sint (r1_MinNs r)) \<le> lo \<and> hi \<le> of_int (sint (r1_MaxNs r))) rs (map box_values rs)"
    using box by (simp add: list_all2_conv_all_nth)
  then show ?thesis
    unfolding PlotT1_def rows p(1) bind.simps Let_def
    using assms(1) p(2-4)
    by (simp add: renderPage_def renders_ok_def bar_chart_def shown_def plain_series_def)
qed

theorem t1_plot_boxes_witness:
  "\<exists>box p95 tput. PlotT1 \<lparr>rn_create = (\<lambda>_. Inr ()), rn_render = (\<lambda>_ _. Inr ())\<rparr>
      [''out/t1_point_query.csv'' \<mapsto> [t1Header, t1_row \<lparr>r1_Index = ''btree_4k'', r1_NDataset = 9, r1_NQueries = 4,
        r1_MinNs = 1, r1_Q1Ns = 20, r1_P50Ns = 25, r1_Q3Ns = 30, r1_MaxNs = 90, r1_AvgNs = 31, r1_P95Ns = 90,
        r1_P99Ns = 90, r1_OpsPerSec = ''40.5'', r1_TotalMs = 0\<rparr>]] ''out'' =
      Some (Inr \<lparr>wp_Path = ''out/t1.html'', wp_Charts = [box, p95, tput]\<rparr>) \<and>
    ch_XLabels box = [''btree_4k''] \<and> map shown (ch_Series p95) = [(''P95 Response Time'', [[90]])] \<and>
    (\<exists>lo hi. map shown (ch_Series box) = [(''Response Time'', [[lo, 20, 25, 30, hi]])] \<and> 1 \<le> lo \<and> hi \<le> 90)"
proof -
  let ?r = "\<lparr>r1_Index = ''btree_4k'', r1_NDataset = 9, r1_NQueries = 4,
        r1_MinNs = 1, r1_Q1Ns = 20, r1_P50Ns = 25, r1_Q3Ns = 30, r1_MaxNs = 90, r1_AvgNs = 31, r1_P95Ns = 90,
        r1_P99Ns = 90, r1_OpsPerSec = ''40.5'', r1_TotalMs = 0\<rparr>"
  show ?thesis
    using t1_plot_boxes[of "\<lparr>rn_create = (\<lambda>_. Inr ()), rn_render = (\<lambda>_ _. Inr ())\<rparr>"
        "[''out/t1_point_query.csv'' \<mapsto> [t1Header, t1_row ?r]]" "''out''" "[?r]"]
    by (fastforce simp: renders_ok_def join_def list_all2_Cons1)
qed

end
