(* ===== verification/TreeCheck.thy ===== *)
theory TreeCheck
  imports BTreeIndex BPTreeIndex
begin

text \<open>
  The invariant of the pages of a tree, as a program that reads the pages alone: every node has
  the type of its level, ascending keys within the bounds that its ancestors set, and one child
  more than keys; every leaf is at the same depth. The checker returns the pages it has visited.
\<close>

section \<open>The checker\<close>

definition node_cells :: "node_accessor \<Rightarrow> page \<Rightarrow> (bool \<times> cell list \<times> page_id) option" where
  "node_cells acc p = do {
     n \<leftarrow> NumCells p;
     leaf \<leftarrow> isLeaf p;
     cs \<leftarrow> mapM (\<lambda>j. ReadCell acc p j leaf) [0..<n];
     rm \<leftarrow> Rightmost p;
     Some (leaf, cs, rm)
   }"

text \<open>Keys from \<open>lo\<close> on and below \<open>hi\<close>.\<close>

definition ordered :: "int \<Rightarrow> int \<Rightarrow> cell list \<Rightarrow> bool" where
  "ordered lo hi cs \<longleftrightarrow> sorted_wrt (<) (map (\<lambda>c. sint (fst c)) cs) \<and>
     list_all (\<lambda>c. lo \<le> sint (fst c) \<and> sint (fst c) < hi) cs"

lemma ordered_keys:
  "ordered lo hi cs \<longleftrightarrow> sorted_wrt (<) (map (\<lambda>c. sint (fst c)) cs) \<and>
     (\<forall>k \<in> set (map (\<lambda>c. sint (fst c)) cs). lo \<le> k \<and> k < hi)"
  by (simp add: ordered_def list_all_iff)

text \<open>Right of a separator the keys are greater, in a B+ tree greater or equal.\<close>

fun check_children :: "(int \<Rightarrow> int \<Rightarrow> page_id \<Rightarrow> page_id list option) \<Rightarrow> bool \<Rightarrow> int \<Rightarrow> int \<Rightarrow> cell list \<Rightarrow>
    page_id \<Rightarrow> page_id list option" where
  "check_children check copies lo hi [] rm = check lo hi rm"
| "check_children check copies lo hi ((k, v, c) # cs) rm = do {
     is \<leftarrow> check lo (sint k) c;
     js \<leftarrow> check_children check copies (if copies then sint k else sint k + 1) hi cs rm;
     Some (is @ js)
   }"

primrec check_tree :: "node_accessor \<Rightarrow> (page_id \<Rightarrow> page) \<Rightarrow> nat \<Rightarrow> int \<Rightarrow> int \<Rightarrow> page_id \<Rightarrow>
    page_id list option" where
  "check_tree acc P 0 lo hi i = do {
     (leaf, cs, _) \<leftarrow> node_cells acc (P i);
     if leaf \<and> ordered lo hi cs then Some [i] else None
   }"
| "check_tree acc P (Suc h) lo hi i = do {
     (leaf, cs, rm) \<leftarrow> node_cells acc (P i);
     if \<not> leaf \<and> cs \<noteq> [] \<and> ordered lo hi cs then do {
       is \<leftarrow> check_children (check_tree acc P h) (CopyUpLeaves acc) lo hi cs rm;
       Some (i # is)
     } else None
   }"

definition max_key :: int where "max_key = 2 ^ 63"

text \<open>The pages of a tree form one tree, and all pages but the two headers belong to it.\<close>

definition well_formed :: "node_accessor \<Rightarrow> tree \<Rightarrow> nat \<Rightarrow> bool" where
  "well_formed acc t h \<longleftrightarrow>
     (case check_tree acc (disk_page (Pg t)) h (- max_key) max_key (RootID t) of
        None \<Rightarrow> False
      | Some is \<Rightarrow> distinct is \<and> set is = {2..<pageCount (Pg t)})"

section \<open>Well-formed trees pass\<close>

context tree_codec
begin

definition fits :: "int \<Rightarrow> int \<Rightarrow> item list \<Rightarrow> bool" where
  "fits lo hi xs \<longleftrightarrow> (\<forall>x \<in> set xs. 2 * lo \<le> fst x \<and> fst x < 2 * hi + (if cu then 0 else 1))"

lemma fits_simps [simp]:
  "fits lo hi []" "fits lo hi (x # xs) \<longleftrightarrow> 2 * lo \<le> fst x \<and> fst x < 2 * hi + (if cu then 0 else 1) \<and> fits lo hi xs"
  "fits lo hi (xs @ ys) \<longleftrightarrow> fits lo hi xs \<and> fits lo hi ys"
  by (auto simp: fits_def)

lemma children_pass:
  assumes "length ts = Suc (length ks)" "asc (weave (map (items cu) ts) (map (sep_item cu) ks))"
    "fits lo hi (weave (map (items cu) ts) (map (sep_item cu) ks))"
    "\<And>u lo hi. u \<in> set ts \<Longrightarrow> asc (items cu u) \<Longrightarrow> fits lo hi (items cu u) \<Longrightarrow>
      check lo hi (root_id u) = Some (ids u)"
  shows "check_children check cu lo hi (map2 node_cell ks ts) (root_id (last ts)) = Some (concat (map ids ts))"
  using assms
proof (induction ks arbitrary: ts lo)
  case Nil
  then obtain u where "ts = [u]" by (cases ts) auto
  then show ?case using Nil.prems by simp
next
  case (Cons k ks)
  obtain u ts' where ts: "ts = u # ts'" "length ts' = Suc (length ks)" using Cons.prems(1) by (cases ts) auto
  let ?W = "weave (map (items cu) ts') (map (sep_item cu) ks)" and ?k = "sint (fst k)"
  let ?s = "fst (sep_item cu k)"
  have s: "?s = 2 * ?k + (if cu then 0 else 1)" by (simp add: sep_item_def entry_item_def)
  have A: "asc (items cu u)" "asc ?W" "\<forall>x \<in> set (items cu u). fst x < ?s" "\<forall>x \<in> set ?W. ?s < fst x"
    using Cons.prems(2) ts by (auto simp: asc_append)
  have F: "fits lo hi (items cu u)" "fits lo hi ?W" using Cons.prems(3) ts by simp_all
  have "fits lo ?k (items cu u)" using F(1) A(3) s unfolding fits_def by auto
  then have u: "check lo ?k (root_id u) = Some (ids u)" using Cons.prems(4) A(1) ts by simp
  have "fits (if cu then ?k else ?k + 1) hi ?W" using F(2) A(4) s unfolding fits_def by (auto split: if_splits)
  then have "check_children check cu (if cu then ?k else ?k + 1) hi (map2 node_cell ks ts') (root_id (last ts')) =
      Some (concat (map ids ts'))"
    using Cons.IH[OF ts(2) A(2)] Cons.prems(4) ts by simp
  then show ?case using u ts by (cases k) (auto simp: node_cell_def)
qed

lemma leaf_cells:
  assumes "tree_at l ps P (Lf i xs)"
  shows "\<exists>rm. node_cells acc (P i) = Some (True, map leaf_cell xs, rm)"
proof -
  have T: "node_rep enc norm True (P i) (map leaf_cell xs) (ps - length xs * sz l True)" using assms by simp
  show ?thesis using node_mapM[OF T] node_repD(5,6,9)[OF T] by (simp add: node_cells_def)
qed

lemma inner_cells:
  assumes "tree_at l ps P (Nd i ts ks)"
  shows "node_cells acc (P i) = Some (False, map2 node_cell ks ts, root_id (last ts))"
proof -
  have T: "length ts = Suc (length ks)" "u32_at (P i) 5 = root_id (last ts)"
    "node_rep enc norm False (P i) (map2 node_cell ks ts) (ps - length ks * sz l False)"
    using assms by simp_all
  show ?thesis using node_mapM[OF T(3)] node_repD(5,6,9)[OF T(3)] T(1,2) by (simp add: node_cells_def)
qed

lemma tree_passes:
  "bal h t \<Longrightarrow> tree_at l ps P t \<Longrightarrow> h = 0 \<or> full t \<Longrightarrow> asc (items cu t) \<Longrightarrow> fits lo hi (items cu t) \<Longrightarrow>
   check_tree acc P h lo hi (root_id t) = Some (ids t)"
proof (induction h arbitrary: t lo hi)
  case 0
  then obtain i xs where t: "t = Lf i xs" by (cases t) auto
  obtain rm where C: "node_cells acc (P i) = Some (True, map leaf_cell xs, rm)"
    using leaf_cells[of l ps P i xs] 0 t by auto
  have "sorted_wrt (<) (map (\<lambda>e. sint (fst e)) xs)"
    using 0(4) t unfolding asc_def sorted_wrt_map
    by (auto simp: sorted_wrt_map entry_item_def elim!: sorted_wrt_mono_rel[rotated])
  moreover have "list_all (\<lambda>e. lo \<le> sint (fst e) \<and> sint (fst e) < hi) xs"
    using 0(5) t by (auto simp: fits_def entry_item_def list_all_iff split: if_splits)
  ultimately show ?case using C t by (simp add: ordered_def leaf_cell_def o_def list.pred_map sorted_wrt_map)
next
  case (Suc h)
  then obtain i ts ks where t: "t = Nd i ts ks" by (cases t) auto
  have T: "length ts = Suc (length ks)" "ks \<noteq> []" "\<forall>u \<in> set ts. bal h u \<and> full u \<and> tree_at l ps P u"
    using Suc.prems t by auto
  have W: "asc (weave (map (items cu) ts) (map (sep_item cu) ks))"
    "fits lo hi (weave (map (items cu) ts) (map (sep_item cu) ks))"
    using Suc.prems(4,5) t by simp_all
  have C: "node_cells acc (P i) = Some (False, map2 node_cell ks ts, root_id (last ts))"
    by (rule inner_cells) (use Suc.prems(2) t in blast)
  have keys: "map (\<lambda>c. sint (fst c)) (map2 node_cell ks ts) = map (\<lambda>e. sint (fst e)) ks"
    by (rule nth_equalityI) (use T(1) in \<open>simp_all add: node_cell_def split: prod.splits\<close>)
  have "asc (map (sep_item cu) ks)" using asc_weave_seps[OF _ W(1)] T(1) by simp
  then have "sorted_wrt (<) (map (\<lambda>e. sint (fst e)) ks)"
    unfolding asc_def sorted_wrt_map
    by (rule sorted_wrt_mono_rel[rotated]) (simp add: sorted_wrt_map sep_item_def entry_item_def split: if_splits)
  moreover have "set (map (sep_item cu) ks) \<subseteq> set (weave (map (items cu) ts) (map (sep_item cu) ks))"
    using set_weave[of "map (items cu) ts" "map (sep_item cu) ks"] T(1) by simp
  then have "\<forall>e \<in> set ks. lo \<le> sint (fst e) \<and> sint (fst e) < hi"
    using W(2) by (fastforce simp: fits_def sep_item_def entry_item_def split: if_splits)
  ultimately have "ordered lo hi (map2 node_cell ks ts)"
    unfolding ordered_keys keys by simp
  moreover have "check_children (check_tree acc P h) cu lo hi (map2 node_cell ks ts) (root_id (last ts)) =
      Some (concat (map ids ts))"
    by (rule children_pass[OF T(1) W]) (use Suc.IH T(3) in auto)
  ultimately show ?case using C t T(1,2) by (cases ks; cases ts) auto
qed

lemma item_key: "bal h t \<Longrightarrow> x \<in> set (items cu t) \<Longrightarrow> \<exists>e. x = entry_item e \<or> x = sep_item cu e"
proof (induction h arbitrary: t)
  case 0
  then show ?case by (cases t) auto
next
  case (Suc h)
  then obtain i ts ks where t: "t = Nd i ts ks" "length ts = Suc (length ks)" "\<forall>u \<in> set ts. bal h u"
    by (cases t) auto
  then show ?case using Suc set_weave[of "map (items cu) ts" "map (sep_item cu) ks"] by auto
qed

lemma all_fit: "bal h t \<Longrightarrow> fits (- max_key) max_key (items cu t)"
  unfolding fits_def
proof
  fix x assume "bal h t" "x \<in> set (items cu t)"
  then obtain e where "x = entry_item e \<or> x = sep_item cu e" using item_key by blast
  then have "fst x = 2 * sint (fst e) + 1 \<or> cu \<and> fst x = 2 * sint (fst e)"
    by (auto simp: entry_item_def sep_item_def split: if_splits)
  moreover have "- max_key \<le> sint (fst e)" "sint (fst e) < max_key"
    using sint_ge[of "fst e"] sint_lt[of "fst e"] by (simp_all add: max_key_def)
  ultimately show "2 * - max_key \<le> fst x \<and> fst x < 2 * max_key + (if cu then 0 else 1)" by auto
qed

end

section \<open>Height and leaves\<close>

text \<open>The pages of the file that are leaves, and those that hold a cell.\<close>

definition leaf_pages :: "tree \<Rightarrow> page_id list" where
  "leaf_pages t = filter (\<lambda>i. isLeaf (disk_page (Pg t) i) = Some True) [2..<pageCount (Pg t)]"

definition occupied :: "page \<Rightarrow> bool" where
  "occupied p \<longleftrightarrow> (case NumCells p of None \<Rightarrow> False | Some n \<Rightarrow> 0 < n)"

context tree_codec
begin

lemma filter_leaves: "tree_at l ps P t \<Longrightarrow> filter (\<lambda>i. isLeaf (P i) = Some True) (ids t) = leaves t"
proof (induction t)
  case (Lf i xs)
  then show ?case using node_repD(6) by fastforce
next
  case (Nd i ts ks)
  have "isLeaf (P i) = Some False" using node_repD(6) Nd.prems by (metis tree_at.simps(2))
  then show ?case using Nd by (auto simp: filter_concat o_def intro: arg_cong[where f = concat])
qed

lemma occupied_leaves: "tree_at l ps P t \<Longrightarrow> full t \<Longrightarrow> list_all (\<lambda>i. occupied (P i)) (leaves t)"
proof (induction t)
  case (Lf i xs)
  then have "NumCells (P i) = Some (length (map leaf_cell xs))" using node_repD(5) by (metis tree_at.simps(1))
  then show ?case using Lf by (simp add: occupied_def)
qed (auto simp: list_all_iff)

lemma leaf_pages_leaves:
  assumes "tree_inv l ps tr h t"
  shows "set (leaf_pages tr) = set (leaves t)" "length (leaf_pages tr) = length (leaves t)"
proof -
  note T = tree_invD[OF assms]
  have L: "leaves t = filter (\<lambda>i. isLeaf (disk_page (Pg tr) i) = Some True) (ids t)"
    using filter_leaves[OF T(10)] by simp
  show S: "set (leaf_pages tr) = set (leaves t)" unfolding L using T(4) by (auto simp: leaf_pages_def)
  have "distinct (leaf_pages tr)" "distinct (leaves t)" unfolding L using T(11) by (simp_all add: leaf_pages_def)
  then show "length (leaf_pages tr) = length (leaves t)" using S distinct_card by metis
qed

lemma holds_shape:
  assumes "holds l ps tr es"
  shows "\<exists>h t2 t3. well_formed acc tr h \<and> Height tr = Some (Suc h, t2) \<and>
    CountLeaves acc t2 = Some (length (leaf_pages tr), t3) \<and>
    2 ^ h \<le> length (leaf_pages tr) \<and> length (leaf_pages tr) \<le> max 1 (length es) \<and>
    (es = [] \<or> list_all (\<lambda>i. occupied (disk_page (Pg tr) i)) (leaf_pages tr))"
proof -
  obtain h t where H: "tree_inv l ps tr h t" "full t \<or> (\<exists>i. t = Lf i [])" "entries cu t = es"
    by (rule holdsE[OF assms]) blast
  note T = tree_invD[OF H(1)] and L = leaf_pages_leaves[OF H(1)]
  obtain s' where S: "height_loop (root_id t) 1 (Pg tr) = Some (1 + h, s')" "unchanged (Pg tr) s'"
    using height_loop_spec[OF T(7,8,10) ids_in_file[OF H(1)], of 1] by blast
  define t2 where "t2 = tr\<lparr>Pg := s'\<rparr>"
  note T2 = tree_invD[OF tree_inv_unchanged[OF H(1) S(2), folded t2_def]]
  obtain s3 where S3: "countLeavesRec acc (root_id t) (Pg t2) = Some (length (leaves t), s3)"
    using countLeaves_spec[OF T2(7,8,10) ids_in_file[OF tree_inv_unchanged[OF H(1) S(2), folded t2_def]]] by blast
  have "2 ^ h \<le> length (leaves t) \<and> length (leaves t) \<le> max 1 (length es) \<and>
      (es = [] \<or> list_all (\<lambda>i. occupied (disk_page (Pg tr) i)) (leaves t))"
  proof (cases "full t")
    case True
    show ?thesis
      using height_leaves[OF T(7) True] entries_leaves[OF T(7) True, of cu] occupied_leaves[OF T(10) True] H(3)
      by auto
  next
    case False
    then show ?thesis using H(2,3) T(7) by auto
  qed
  moreover have "Height tr = Some (Suc h, t2)" using S(1) T(2) by (simp add: Height_def t2_def)
  moreover have "CountLeaves acc t2 = Some (length (leaf_pages tr), t2\<lparr>Pg := s3\<rparr>)"
    using S3 T2(2) L(2) by (simp add: CountLeaves_def)
  moreover have "well_formed acc tr h"
    using tree_passes[OF T(7,10) _ T(12) all_fit[OF T(7)]] T(13,2,4,11) by (auto simp: well_formed_def)
  ultimately show ?thesis using L by (auto simp: list_all_iff)
qed

lemma holds_well_formed: "holds l ps t es \<Longrightarrow> \<exists>h. well_formed acc t h"
  using holds_shape by blast

end

section \<open>Properties\<close>

lemma btree_after:
  assumes "empty_tree_file f" "btree_geom l ps" "\<forall>op \<in> set ops. fixed_length l op" "inserts ops \<le> entry_limit"
  shows "\<exists>t t1. BTree_Open f cap ps = Some (Inr t) \<and>
    run_ops BTree_index ops t = Some (spec_run trimmed (Inr None) ops [], t1) \<and>
    btt.holds l ps t1 (spec_final trimmed ops [])"
proof -
  obtain t where O: "BTree_Open f cap ps = Some (Inr t)" "btt.holds l ps t []"
    using btd.open_law[of f l ps cap] assms(1,2) by auto
  show ?thesis using bti.run_ops_exact[OF O(2), of ops] O(1) assms(3,4) by (auto simp: fixed_length_allowed)
qed

lemma bptree_after:
  assumes "empty_tree_file f" "bptree_geom l ps" "\<forall>op \<in> set ops. fixed_length l op" "inserts ops \<le> entry_limit"
  shows "\<exists>t t1. BPTree_Open f cap ps = Some (Inr t) \<and>
    run_ops BPTree_index ops t = Some (spec_run trimmed (Inr None) ops [], t1) \<and>
    bpt.holds l ps t1 (spec_final trimmed ops [])"
proof -
  obtain t where O: "BPTree_Open f cap ps = Some (Inr t)" "bpt.holds l ps t []"
    using bpd.open_law[of f l ps cap] assms(1,2) by auto
  show ?thesis using bpi.run_ops_exact[OF O(2), of ops] O(1) assms(3,4) by (auto simp: fixed_length_allowed)
qed

text \<open>
  C4. After any operations the pages of a B-tree pass the checker: read from the file, they form one
  tree of some height with all leaves at the same depth, no internal node without a key, keys
  strictly ascending in every node and within the bounds that the separators above it set, and
  every allocated page but the two headers occurs in the tree exactly once.
\<close>

theorem btree_well_formed:
  assumes "empty_tree_file f" "btree_geom l ps" "\<forall>op \<in> set ops. fixed_length l op" "inserts ops \<le> entry_limit"
  shows "\<exists>t outs t1 h. BTree_Open f cap ps = Some (Inr t) \<and> run_ops BTree_index ops t = Some (outs, t1) \<and>
    well_formed BTreeAcc t1 h"
  using btree_after[OF assms] btt.holds_well_formed by blast

theorem btree_well_formed_witness:
  "\<exists>t outs t1 h. BTree_Open empty_file 2 64 = Some (Inr t) \<and>
    run_ops BTree_index [OInsert 5 (Some [1]), OInsert 3 (Some [2]), OInsert (-9) (Some [3])] t = Some (outs, t1) \<and>
    well_formed BTreeAcc t1 h"
  using btree_well_formed[of empty_file 1 64 "[OInsert 5 (Some [1]), OInsert 3 (Some [2]), OInsert (-9) (Some [3])]" 2]
  by (simp add: empty_tree_file_def btree_geom_def node_geom_def entry_limit_def)

text \<open>
  C5. After any operations the pages of a B+ tree pass the checker: all leaves at the same depth,
  keys strictly ascending in every node, those left of a separator smaller and those right of it
  at least as great, and every allocated page but the two headers in the tree exactly once.
\<close>

theorem bptree_well_formed:
  assumes "empty_tree_file f" "bptree_geom l ps" "\<forall>op \<in> set ops. fixed_length l op" "inserts ops \<le> entry_limit"
  shows "\<exists>t outs t1 h. BPTree_Open f cap ps = Some (Inr t) \<and> run_ops BPTree_index ops t = Some (outs, t1) \<and>
    well_formed BPTreeAcc t1 h"
  using bptree_after[OF assms] bpt.holds_well_formed by blast

theorem bptree_well_formed_witness:
  "\<exists>t outs t1 h. BPTree_Open empty_file 2 65 = Some (Inr t) \<and>
    run_ops BPTree_index [OInsert 5 (Some [1]), OInsert 3 (Some [2]), OInsert (-9) (Some [3])] t = Some (outs, t1) \<and>
    well_formed BPTreeAcc t1 h"
  using bptree_well_formed[of empty_file 1 65 "[OInsert 5 (Some [1]), OInsert 3 (Some [2]), OInsert (-9) (Some [3])]" 2]
  by (simp add: empty_tree_file_def bptree_geom_def node_geom_def entry_limit_def)

end
