(* ===== verification/Faults.thy ===== *)
theory Faults
  imports BTreeIndex BPTreeIndex "HOL-Library.Sublist"
begin

text \<open>
  Reading from a failing file: any call on the file may fail from some moment on. A lookup or a
  scan is compared with the same one on the calm file, where nothing fails: until the first
  failure the two are in the same state, and a failure ends the operation with an error.
\<close>

section \<open>The pager\<close>

definition calm :: "pager \<Rightarrow> pager" where
  "calm s = s\<lparr>pfile := (pfile s)\<lparr>ffaults := []\<rparr>\<rparr>"

lemma calm_simps [simp]:
  "cache (calm s) = cache s" "pageCount (calm s) = pageCount s" "PageSize (calm s) = PageSize s"
  "bufs (calm s) = bufs s" "next_buf (calm s) = next_buf s" "fdata (pfile (calm s)) = fdata (pfile s)"
  "calm (s\<lparr>cache := c\<rparr>) = (calm s)\<lparr>cache := c\<rparr>" "offset (calm s) i = offset s i"
  "calm (s\<lparr>pfile := g\<lparr>ffaults := fs\<rparr>\<rparr>) = calm (s\<lparr>pfile := g\<rparr>)" "calm (calm s) = calm s"
  by (simp_all add: calm_def offset_def)

lemma readAt_calm:
  assumes "readAt off k (f\<lparr>ffaults := []\<rparr>) = (r, g)"
  shows "g = f\<lparr>ffaults := []\<rparr>" "\<exists>r' fs. readAt off k f = (r', f\<lparr>ffaults := fs\<rparr>) \<and> (r' = r \<or> (\<exists>e. r' = Inl e))"
  using assms by (auto simp: readAt_def next_fault_def split: list.splits option.splits if_splits)
    (cases f; force)+

lemma Read_calm:
  assumes "Read i (calm s) = (r, s1)"
  shows "\<exists>r' s'. Read i s = (r', s') \<and> ((\<exists>e. r' = Inl e) \<or> r' = r \<and> calm s' = s1)"
proof (cases "fst (lru_get i (cache s))")
  case (Some a)
  then show ?thesis using assms by (cases "lru_get i (cache s)") (auto simp: Read_def)
next
  case None
  then obtain c where c: "lru_get i (cache s) = (None, c)" by (cases "lru_get i (cache s)") auto
  obtain x g where R: "readAt (offset s i) (PageSize s) ((pfile s)\<lparr>ffaults := []\<rparr>) = (x, g)" by fastforce
  obtain y fs where F: "readAt (offset s i) (PageSize s) (pfile s) = (y, (pfile s)\<lparr>ffaults := fs\<rparr>)"
    "y = x \<or> (\<exists>e. y = Inl e)"
    using readAt_calm(2)[OF R] by blast
  note g = readAt_calm(1)[OF R]
  show ?thesis
    using assms F(2)
    by (cases x) (auto simp: Read_def readPageFromDisk_def offset_def calm_def c R[unfolded offset_def g]
        F(1)[unfolded offset_def] new_buf_def)
qed

lemma Read_calmE:
  assumes "Read i (calm s) = (r, s1)"
  obtains e s' where "Read i s = (Inl e, s')"
  | a s' where "r = Inr a" "Read i s = (Inr a, s')" "s1 = calm s'"
  using Read_calm[OF assms] by (cases r) auto

section \<open>Runs that agree until they fail\<close>

text \<open>
  \<open>follows bad x y\<close>: when the calm run \<open>x\<close> returns, the run \<open>y\<close> on the failing file returns,
  either a bad result, one that reports the failure, or the same result in the same state.
\<close>

definition follows :: "('r \<Rightarrow> bool) \<Rightarrow> ('r \<times> pager) option \<Rightarrow> ('r \<times> pager) option \<Rightarrow> bool" where
  "follows bad x y \<longleftrightarrow>
     (\<forall>r t. x = Some (r, t) \<longrightarrow> (\<exists>r' s. y = Some (r', s) \<and> (bad r' \<or> r' = r \<and> calm s = t)))"

named_theorems follows_intro \<open>rules for runs that agree until they fail\<close>

lemma follows_basic [follows_intro]:
  "follows bad (Some (r, calm s)) (Some (r, s))" "follows bad None y"
  by (simp_all add: follows_def)

lemma follows_bind [follows_intro]:
  "(\<And>v. follows bad (f v) (g v)) \<Longrightarrow> follows bad (Option.bind m f) (Option.bind m g)"
  by (cases m) (simp_all add: follows_def)

lemma follows_if [follows_intro]:
  "follows bad x y \<Longrightarrow> follows bad x' y' \<Longrightarrow> follows bad (if b then x else x') (if b then y else y')"
  by simp

lemma follows_prod [follows_intro]:
  "(\<And>a b. follows bad (f a b) (g a b)) \<Longrightarrow>
     follows bad (case pr of (a, b) \<Rightarrow> f a b) (case pr of (a, b) \<Rightarrow> g a b)"
  by (cases pr) simp

lemma follows_list:
  "follows bad x y \<Longrightarrow> (\<And>z zs. follows bad (f z zs) (g z zs)) \<Longrightarrow>
     follows bad (case xs of [] \<Rightarrow> x | z # zs \<Rightarrow> f z zs) (case xs of [] \<Rightarrow> y | z # zs \<Rightarrow> g z zs)"
  by (cases xs) simp_all

lemma follows_option [follows_intro]:
  "follows bad x y \<Longrightarrow> (\<And>z. follows bad (f z) (g z)) \<Longrightarrow>
     follows bad (case m of None \<Rightarrow> x | Some z \<Rightarrow> f z) (case m of None \<Rightarrow> y | Some z \<Rightarrow> g z)"
  by (cases m) simp_all

lemma follows_if_result [follows_intro]:
  "follows bad (Some (if b then (r, calm s) else (r', calm s))) (Some (if b then (r, s) else (r', s)))"
  by (simp add: follows_def)

lemma follows_Read:
  assumes "\<And>e s'. \<exists>r' s1. g e s' = Some (r', s1) \<and> bad r'" "\<And>a s'. follows bad (f' a (calm s')) (f a s')"
  shows "follows bad (case Read i (calm s) of (Inl e, s') \<Rightarrow> g' e s' | (Inr a, s') \<Rightarrow> f' a s')
    (case Read i s of (Inl e, s') \<Rightarrow> g e s' | (Inr a, s') \<Rightarrow> f a s')"
proof -
  obtain r t where R: "Read i (calm s) = (r, t)" by fastforce
  obtain r' s' where F: "Read i s = (r', s')" "(\<exists>e. r' = Inl e) \<or> r' = r \<and> calm s' = t"
    using Read_calm[OF R] by blast
  show ?thesis
  proof (cases r')
    case (Inl e)
    then show ?thesis using assms(1)[of e s'] F(1) by (auto simp: follows_def)
  next
    case (Inr a)
    then show ?thesis using assms(2)[of a s'] F R by auto
  qed
qed

section \<open>The loops of the readers\<close>

text \<open>The induction over a loop needs that the relation is closed under limits.\<close>

lemma follows_admissible:
  fixes x :: 'a
  shows "option.admissible (\<lambda>f. follows bad (f x) y)"
proof -
  have "follows bad (f x) y \<longleftrightarrow> (\<forall>z r. f z = Some r \<longrightarrow>
      (z = x \<longrightarrow> (\<exists>r' s. y = Some (r', s) \<and> (bad r' \<or> r' = fst r \<and> calm s = snd r))))" for f :: "'a \<Rightarrow> _"
    by (auto simp: follows_def)
  then show ?thesis by (simp only: option_admissible)
qed

lemmas follows_limit = admissible_all follows_admissible

lemma get_loop_calm: "\<forall>acc key i s. follows isl (get_loop acc key i (calm s)) (get_loop acc key i s)"
proof (rule get_loop.fixp_induct[where P = "\<lambda>loop. \<forall>acc key i s.
      follows isl (loop acc key i (calm s)) (get_loop acc key i s)"], goal_cases)
  case 1
  show ?case unfolding curry_def by (intro follows_limit)
next
  case 2
  show ?case by (simp add: follows_intro)
next
  case (3 loop)
  note IH = this[rule_format]
  show ?case
    by (intro allI, subst get_loop.simps, unfold Let_def, rule follows_Read, simp,
        unfold calm_simps, (rule follows_intro IH)+)
qed

lemma find_leaf_calm:
  "\<forall>i s. follows isl (find_leaf_loop acc key i (calm s)) (find_leaf_loop acc key i s)"
proof (rule find_leaf_loop.fixp_induct[where P = "\<lambda>loop. \<forall>i s.
      follows isl (loop acc key i (calm s)) (find_leaf_loop acc key i s)"], goal_cases)
  case 1
  show ?case unfolding curry_def by (intro follows_limit)
next
  case 2
  show ?case by (simp add: follows_intro)
next
  case (3 loop)
  note IH = this[rule_format]
  show ?case
    by (intro allI, subst find_leaf_loop.simps, unfold Let_def, rule follows_Read, simp,
        unfold calm_simps, (rule follows_intro IH)+)
qed

lemma range_loop_calm:
  "\<forall>i st s. follows isl (range_loop a i st (calm s)) (range_loop a i st s)"
proof (rule range_loop.fixp_induct[where P = "\<lambda>loop. \<forall>i st s.
      follows isl (loop a i st (calm s)) (range_loop a i st s)"], goal_cases)
  case 1
  show ?case unfolding curry_def by (intro follows_limit)
next
  case 2
  show ?case by (simp add: follows_intro)
next
  case (3 loop)
  note IH = this[rule_format]
  show ?case
    by (intro allI, subst range_loop.simps, unfold Let_def, rule follows_Read, simp,
        unfold calm_simps, (rule follows_intro IH)+)
qed

lemma next_loop_calm:
  "\<forall>it s. follows (\<lambda>(c, it). \<not> c \<and> it_err it \<noteq> None) (next_loop it (calm s)) (next_loop it s)"
proof (rule next_loop.fixp_induct[where P = "\<lambda>loop. \<forall>it s.
      follows (\<lambda>(c, it). \<not> c \<and> it_err it \<noteq> None) (loop it (calm s)) (next_loop it s)"], goal_cases)
  case 1
  show ?case unfolding curry_def by (intro follows_limit)
next
  case 2
  show ?case by (simp add: follows_intro)
next
  case (3 loop)
  note IH = this[rule_format]
  show ?case
    by (intro allI, subst next_loop.simps, unfold Let_def, rule follows_list, rule follows_intro,
        rule follows_Read, simp, unfold calm_simps, (rule follows_intro IH)+)
qed

lemma bp_get_calm:
  "\<forall>i s. follows isl (bp_get_loop key i (calm s)) (bp_get_loop key i s)"
proof (rule bp_get_loop.fixp_induct[where P = "\<lambda>loop. \<forall>i s.
      follows isl (loop key i (calm s)) (bp_get_loop key i s)"], goal_cases)
  case 1
  show ?case unfolding curry_def by (intro follows_limit)
next
  case 2
  show ?case by (simp add: follows_intro)
next
  case (3 loop)
  note IH = this[rule_format]
  show ?case
    by (intro allI, subst bp_get_loop.simps, unfold Let_def, rule follows_if, rule follows_basic,
        rule follows_Read, simp, unfold calm_simps, (rule follows_intro IH)+)
qed

lemma bp_next_calm:
  "\<forall>it s. follows (\<lambda>(c, it). \<not> c \<and> bi_err it \<noteq> None) (bp_next_loop it (calm s)) (bp_next_loop it s)"
proof (rule bp_next_loop.fixp_induct[where P = "\<lambda>loop. \<forall>it s.
      follows (\<lambda>(c, it). \<not> c \<and> bi_err it \<noteq> None) (loop it (calm s)) (bp_next_loop it s)"], goal_cases)
  case 1
  show ?case unfolding curry_def by (intro follows_limit)
next
  case 2
  show ?case by (simp add: follows_intro)
next
  case (3 loop)
  note IH = this[rule_format]
  have pin: "follows (\<lambda>(c, it). \<not> c \<and> bi_err it \<noteq> None)
      (case bp_pin it (calm s) of (Inl e, s') \<Rightarrow> g' e s' | (Inr a, s') \<Rightarrow> f' a s')
      (case bp_pin it s of (Inl e, s') \<Rightarrow> g e s' | (Inr a, s') \<Rightarrow> f a s')"
    if "\<And>e s'. \<exists>c it1 s1. g e s' = Some ((c, it1), s1) \<and> \<not> c \<and> bi_err it1 \<noteq> None"
      "\<And>a s'. follows (\<lambda>(c, it). \<not> c \<and> bi_err it \<noteq> None) (f' a (calm s')) (f a s')" for it s g g' f f'
    unfolding bp_pin_def using that by (cases "bi_currPg it") (auto intro!: follows_Read)
  show ?case
    by (intro allI, subst bp_next_loop.simps, unfold Let_def, rule follows_if, rule follows_basic,
        rule pin, fastforce, unfold calm_simps, (rule follows_intro IH)+)
qed

section \<open>Readers of an index\<close>

text \<open>A result on a failing file that is an error or else the result on the calm file.\<close>

fun truthful :: "index_out \<Rightarrow> index_out \<Rightarrow> bool" where
  "truthful (RGet r') (RGet r) \<longleftrightarrow> isl r' \<or> r' = r"
| "truthful (RScan (Inl e)) (RScan r) \<longleftrightarrow> True"
| "truthful (RScan (Inr (ys, e'))) (RScan r) \<longleftrightarrow>
     (case r of Inl e \<Rightarrow> False | Inr (xs, e) \<Rightarrow> ys = xs \<and> e' = e \<or> prefix ys xs \<and> e' \<noteq> None)"
| "truthful _ _ \<longleftrightarrow> False"

fun reading :: "index_op \<Rightarrow> bool" where
  "reading (OInsert k v) \<longleftrightarrow> False"
| "reading _ \<longleftrightarrow> True"

locale fail_safe_reader =
  fixes ix :: "('i, 's) Index" and calm_state :: "'s \<Rightarrow> 's"
  assumes get_calm: "ix_Get ix k (calm_state s) = Some (r, s1) \<Longrightarrow>
      \<exists>r' s'. ix_Get ix k s = Some (r', s') \<and> (isl r' \<or> r' = r)"
    and range_calm: "ix_Range ix a b (calm_state s) = Some (q, s1) \<Longrightarrow>
      \<exists>q' s'. ix_Range ix a b s = Some (q', s') \<and> (isl q' \<or> q' = q \<and> calm_state s' = s1)"
    and next_calm: "iter_Next (ix_Iter ix) it (calm_state s) = Some ((c, it1), s1) \<Longrightarrow>
      \<exists>c' it' s'. iter_Next (ix_Iter ix) it s = Some ((c', it'), s') \<and>
        (\<not> c' \<and> iter_Error (ix_Iter ix) it' \<noteq> None \<or> c' = c \<and> it' = it1 \<and> calm_state s' = s1)"
    and key_calm: "iter_Key (ix_Iter ix) it (calm_state s) = iter_Key (ix_Iter ix) it s"
    and value_calm: "iter_Value (ix_Iter ix) it (calm_state s) = iter_Value (ix_Iter ix) it s"
begin

lemma scan_calm:
  assumes "scan (ix_Iter ix) it (calm_state s) = Some (xs, it1, s1)"
  shows "\<exists>ys it' s'. scan (ix_Iter ix) it s = Some (ys, it', s') \<and>
    (ys = xs \<and> it' = it1 \<or> prefix ys xs \<and> iter_Error (ix_Iter ix) it' \<noteq> None)"
proof -
  have "\<exists>ys it' s'. scan (ix_Iter ix) it s = Some (ys, it', s') \<and>
    (ys = xs \<and> it' = it1 \<or> prefix ys xs \<and> iter_Error (ix_Iter ix) it' \<noteq> None)"
    if "scan (ix_Iter ix) it t = Some (xs, it1, s1)" "t = calm_state s" for it t xs it1 s1 s
    using that
  proof (induction xs arbitrary: it t s)
    case Nil
    from Nil have "\<exists>t1. iter_Next (ix_Iter ix) it (calm_state s) = Some ((False, it1), t1)"
      by (subst (asm) scan.simps) (auto simp: Option.bind_eq_Some_conv split: if_splits)
    then obtain c' it' s' where N: "iter_Next (ix_Iter ix) it s = Some ((c', it'), s')"
      "\<not> c' \<and> iter_Error (ix_Iter ix) it' \<noteq> None \<or> c' = False \<and> it' = it1"
      using next_calm by blast
    then show ?case by (subst scan.simps) auto
  next
    case (Cons x xs)
    from Cons.prems obtain it2 t2 where C: "iter_Next (ix_Iter ix) it (calm_state s) = Some ((True, it2), t2)"
      "iter_Key (ix_Iter ix) it2 t2 = Some (fst x)" "iter_Value (ix_Iter ix) it2 t2 = Some (snd x)"
      "scan (ix_Iter ix) it2 t2 = Some (xs, it1, s1)"
      by (subst (asm) scan.simps) (auto simp: Option.bind_eq_Some_conv split: if_splits)
    obtain c' it' s' where N: "iter_Next (ix_Iter ix) it s = Some ((c', it'), s')"
      "\<not> c' \<and> iter_Error (ix_Iter ix) it' \<noteq> None \<or> c' = True \<and> it' = it2 \<and> calm_state s' = t2"
      using next_calm[OF C(1)] by blast
    show ?case
    proof (cases c')
      case False
      then show ?thesis using N by (subst scan.simps) auto
    next
      case True
      then have s': "it' = it2" "calm_state s' = t2" using N(2) by auto
      obtain ys it3 s3 where S: "scan (ix_Iter ix) it2 s' = Some (ys, it3, s3)"
        "ys = xs \<and> it3 = it1 \<or> prefix ys xs \<and> iter_Error (ix_Iter ix) it3 \<noteq> None"
        using Cons.IH[OF C(4)] s'(2) by blast
      have "iter_Key (ix_Iter ix) it2 s' = Some (fst x)" "iter_Value (ix_Iter ix) it2 s' = Some (snd x)"
        using C(2,3) key_calm[of it2 s'] value_calm[of it2 s'] s'(2) by simp_all
      then show ?thesis using N(1) S True s'(1) by (subst scan.simps) auto
    qed
  qed
  then show ?thesis using assms by blast
qed

lemma run_op_calm:
  assumes "reading op" "run_op ix op (calm_state s) = Some (out, s1)"
  shows "\<exists>out' s'. run_op ix op s = Some (out', s') \<and> truthful out' out"
proof (cases op)
  case (OGet k)
  then show ?thesis using assms(2) get_calm[of k s] by (fastforce simp: Option.bind_eq_Some_conv)
next
  case (OScan a b)
  then obtain q t where Q: "ix_Range ix a b (calm_state s) = Some (q, t)"
    using assms(2) by (auto simp: Option.bind_eq_Some_conv)
  obtain q' s' where R: "ix_Range ix a b s = Some (q', s')" "isl q' \<or> q' = q \<and> calm_state s' = t"
    using range_calm[OF Q] by blast
  show ?thesis
  proof (cases "isl q'")
    case True
    then show ?thesis using OScan R(1) assms(2) Q
      by (auto simp: isl_def Option.bind_eq_Some_conv split: sum.splits)
  next
    case False
    then obtain it where q: "q' = Inr it" "q = Inr it" "calm_state s' = t" using R(2) by (cases q') auto
    then obtain xs it1 t1 where S: "scan (ix_Iter ix) it (calm_state s') = Some (xs, it1, t1)"
      "out = RScan (Inr (xs, iter_Error (ix_Iter ix) it1))"
      using assms(2) OScan Q by (auto simp: Option.bind_eq_Some_conv)
    from scan_calm[OF S(1)] show ?thesis using OScan R(1) q(1) S(2) by auto
  qed
qed (use assms(1) in simp)

end

text \<open>An index whose readers are safe answers truthfully at any moment, or reports an error.\<close>

locale fail_safe_index = fail_safe_reader ix calm_state +
    durable_index ix pending same holds okk okr okv stored missing limit open_ix file_of fresh
  for ix :: "('i, 's) Index" and calm_state pending same holds okk okr okv stored missing limit
    and open_ix :: "'c \<Rightarrow> 'f \<Rightarrow> (go_error \<times> 'f + 's) option" and file_of fresh +
  assumes holds_calm: "holds s es \<Longrightarrow> holds (calm_state s) es"
begin

lemma read_truthful:
  assumes "fresh f" "\<forall>op \<in> set ops. op_allowed okk okr okv op" "inserts ops \<le> limit"
    "reading op" "op_allowed okk okr okv op"
  shows "\<exists>t outs t1. open_ix c f = Some (Inr t) \<and> run_ops ix ops t = Some (outs, t1) \<and>
    (\<forall>s. calm_state s = calm_state t1 \<longrightarrow>
      (\<exists>out s'. run_op ix op s = Some (out, s') \<and> truthful out (spec_out missing op (spec_final stored ops []))))"
proof -
  obtain t where O: "open_ix c f = Some (Inr t)" "holds t []" using open_law[OF assms(1)] by blast
  obtain t1 where R: "run_ops ix ops t = Some (spec_run stored missing ops [], t1)"
    "holds t1 (spec_final stored ops [])"
    using run_ops_exact[OF O(2) assms(2)] assms(3) by auto
  have i: "inserts [op] = 0" using assms(4) by (cases op) simp_all
  have "length (spec_final stored ops []) + inserts [op] \<le> limit"
    using length_spec_final[of stored ops "[]"] assms(3) i by simp
  then obtain s1 where "run_op ix op (calm_state t1) = Some (spec_out missing op (spec_final stored ops []), s1)"
    using run_op_exact[OF holds_calm[OF R(2)] assms(5)] by blast
  then show ?thesis using O(1) R(1) run_op_calm[OF assms(4)] by (metis (no_types))
qed

end

section \<open>The trees\<close>

definition calm_tree :: "tree \<Rightarrow> tree" where
  "calm_tree t = t\<lparr>Pg := calm (Pg t)\<rparr>"

text \<open>The tree when its file starts to fail.\<close>

definition failing :: "nat option list \<Rightarrow> tree \<Rightarrow> tree" where
  "failing faults t = t\<lparr>Pg := (Pg t)\<lparr>pfile := (pfile (Pg t))\<lparr>ffaults := faults\<rparr>\<rparr>\<rparr>"

lemma calm_tree_simps [simp]:
  "Pg (calm_tree t) = calm (Pg t)" "RootID (calm_tree t) = RootID t"
  "calm_tree (t\<lparr>Pg := s\<rparr>) = t\<lparr>Pg := calm s\<rparr>" "calm_tree (failing fs t) = calm_tree t"
  "(calm_tree t)\<lparr>Pg := s\<rparr> = t\<lparr>Pg := s\<rparr>"
  by (simp_all add: calm_tree_def failing_def calm_def)

lemma calm_unchanged: "pager_inv {} s \<Longrightarrow> unchanged s (calm s)"
  by (simp add: unchanged_def pager_inv_def owns_buf_def disk_page_def fun_eq_iff) (simp add: calm_def no_faults_def)

lemma followsE:
  assumes "follows bad x y" "x = Some (r, t)"
  obtains r' s where "y = Some (r', s)" "bad r' \<or> r' = r \<and> calm s = t"
  using assms by (auto simp: follows_def)

lemma FindLeaf_calm:
  assumes "FindLeaf acc key (calm_tree t) = Some (r, t1)"
  obtains r' t' where "FindLeaf acc key t = Some (r', t')" "isl r' \<or> r' = r \<and> calm_tree t' = t1"
  using assms find_leaf_calm[of acc key, rule_format, of "RootID t" "Pg t"]
  by (fastforce simp: FindLeaf_def Option.bind_eq_Some_conv elim: followsE)

lemma BTree_Range_calm:
  assumes "BTree_Range a b (calm_tree t) = Some (q, t1)"
  shows "\<exists>q' t'. BTree_Range a b t = Some (q', t') \<and> (isl q' \<or> q' = q \<and> calm_tree t' = t1)"
proof -
  obtain r s where L: "range_loop a (RootID t) [] (calm (Pg t)) = Some (r, s)" "t1 = t\<lparr>Pg := s\<rparr>"
    using assms by (auto simp: BTree_Range_def Option.bind_eq_Some_conv)
  obtain r' s' where F: "range_loop a (RootID t) [] (Pg t) = Some (r', s')" "isl r' \<or> r' = r \<and> calm s' = s"
    by (rule followsE[OF range_loop_calm[rule_format] L(1)]) blast
  show ?thesis using assms L F by (cases r') (auto simp: BTree_Range_def)
qed

lemma BTree_Next_calm:
  assumes "BTree_Next it (calm_tree t) = Some ((c, it1), t1)"
  shows "\<exists>c' it' t'. BTree_Next it t = Some ((c', it'), t') \<and>
    (\<not> c' \<and> it_err it' \<noteq> None \<or> c' = c \<and> it' = it1 \<and> calm_tree t' = t1)"
proof -
  obtain s where L: "next_loop it (calm (Pg t)) = Some ((c, it1), s)" "t1 = t\<lparr>Pg := s\<rparr>"
    using assms by (auto simp: BTree_Next_def Option.bind_eq_Some_conv)
  obtain r s' where F: "next_loop it (Pg t) = Some (r, s')"
    "(case r of (c, it) \<Rightarrow> \<not> c \<and> it_err it \<noteq> None) \<or> r = (c, it1) \<and> calm s' = s"
    by (rule followsE[OF next_loop_calm[rule_format] L(1)])
  then show ?thesis using L(2) by (cases r) (auto simp: BTree_Next_def)
qed

interpretation btf: fail_safe_index BTree_index calm_tree "btree_pending l ps" same_tree "btt.holds l ps"
    "\<lambda>_. True" "\<lambda>_ _. True" "\<lambda>v. glen v = l" trimmed "Inr None" entry_limit
    "\<lambda>cap f. BTree_Open f cap ps" tree_file "\<lambda>f. empty_tree_file f \<and> btree_geom l ps" for l ps
proof (unfold_locales, goal_cases)
  case (1 k s r s1)
  then show ?case using get_loop_calm[rule_format, of BTreeAcc k "RootID s" "Pg s"]
    by (fastforce simp: BTree_Get_def Tree_Get_def Option.bind_eq_Some_conv elim: followsE)
next
  case (2 a b s q s1)
  then show ?case using BTree_Range_calm by simp
next
  case (3 it s c it1 s1)
  then show ?case using BTree_Next_calm by (simp add: BTree_iterator_def BTree_Error_def)
next
  case (6 s es)
  obtain h u where "btt.tree_inv l ps s h u" by (rule btt.holdsE[OF 6])
  then show ?case using btt.holds_unchanged[OF 6 calm_unchanged[OF btt.tree_invD(8)]] by (simp add: calm_tree_def)
qed (simp_all add: BTree_iterator_def BTree_Key_def BTree_Value_def)

lemma bptree_get_calm:
  assumes "BPTree_Get k (calm_tree t) = Some (r, t1)"
  shows "\<exists>r' t'. BPTree_Get k t = Some (r', t') \<and> (isl r' \<or> r' = r)"
proof -
  obtain x t2 where L: "FindLeaf BPTreeAcc k (calm_tree t) = Some (x, t2)"
    using assms by (auto simp: BPTree_Get_def Option.bind_eq_Some_conv)
  obtain x' t' where F: "FindLeaf BPTreeAcc k t = Some (x', t')" "isl x' \<or> x' = x \<and> calm_tree t' = t2"
    by (rule FindLeaf_calm[OF L])
  show ?thesis
  proof (cases "isl x'")
    case True
    then show ?thesis using F(1) by (auto simp: BPTree_Get_def isl_def)
  next
    case False
    then have e: "x' = x" "t2 = calm_tree t'" using F(2) by auto
    then obtain i where x: "x = Inr i" using False by (cases x) auto
    obtain s where B: "bp_get_loop k i (calm (Pg t')) = Some (r, s)"
      using assms L x e(2) by (auto simp: BPTree_Get_def Option.bind_eq_Some_conv)
    obtain r' s' where "bp_get_loop k i (Pg t') = Some (r', s')" "isl r' \<or> r' = r \<and> calm s' = s"
      by (rule followsE[OF bp_get_calm[rule_format] B])
    then show ?thesis using F(1) x e(1) by (auto simp: BPTree_Get_def)
  qed
qed

lemma bptree_range_calm:
  assumes "BPTree_Range a b (calm_tree t) = Some (q, t1)"
  shows "\<exists>q' t'. BPTree_Range a b t = Some (q', t') \<and> (isl q' \<or> q' = q \<and> calm_tree t' = t1)"
proof -
  obtain x t2 where L: "FindLeaf BPTreeAcc a (calm_tree t) = Some (x, t2)"
    using assms by (auto simp: BPTree_Range_def Option.bind_eq_Some_conv)
  obtain x' t' where F: "FindLeaf BPTreeAcc a t = Some (x', t')" "isl x' \<or> x' = x \<and> calm_tree t' = t2"
    by (rule FindLeaf_calm[OF L])
  show ?thesis
  proof (cases "isl x'")
    case True
    then show ?thesis using F(1) by (auto simp: BPTree_Range_def isl_def)
  next
    case False
    then have e: "x' = x" "t2 = calm_tree t'" using F(2) by auto
    then obtain i where x: "x = Inr i" using False by (cases x) auto
    obtain y s where R: "Read i (calm (Pg t')) = (y, s)" by fastforce
    then show ?thesis
    proof (cases rule: Read_calmE)
      case (1 e s')
      then show ?thesis using F(1) x e(1) by (auto simp: BPTree_Range_def)
    next
      case (2 c s')
      then show ?thesis using F(1) x e L R assms by (auto simp: BPTree_Range_def Option.bind_eq_Some_conv)
    qed
  qed
qed

lemma BPTree_Next_calm:
  assumes "BPTree_Next it (calm_tree t) = Some ((c, it1), t1)"
  shows "\<exists>c' it' t'. BPTree_Next it t = Some ((c', it'), t') \<and>
    (\<not> c' \<and> bi_err it' \<noteq> None \<or> c' = c \<and> it' = it1 \<and> calm_tree t' = t1)"
proof -
  obtain s where L: "bp_next_loop it (calm (Pg t)) = Some ((c, it1), s)" "t1 = t\<lparr>Pg := s\<rparr>"
    using assms by (auto simp: BPTree_Next_def Option.bind_eq_Some_conv)
  obtain r s' where F: "bp_next_loop it (Pg t) = Some (r, s')"
    "(case r of (c, it) \<Rightarrow> \<not> c \<and> bi_err it \<noteq> None) \<or> r = (c, it1) \<and> calm s' = s"
    by (rule followsE[OF bp_next_calm[rule_format] L(1)])
  then show ?thesis using L(2) by (cases r) (auto simp: BPTree_Next_def)
qed

interpretation bpf: fail_safe_index BPTree_index calm_tree "bp_pending l ps" same_tree "bpt.holds l ps"
    "\<lambda>_. True" "\<lambda>_ _. True" "\<lambda>v. glen v = l" trimmed "Inr None" entry_limit
    "\<lambda>cap f. BPTree_Open f cap ps" tree_file "\<lambda>f. empty_tree_file f \<and> bptree_geom l ps" for l ps
proof (unfold_locales, goal_cases)
  case (1 k s r s1)
  then show ?case using bptree_get_calm by simp
next
  case (2 a b s q s1)
  then show ?case using bptree_range_calm by simp
next
  case (3 it s c it1 s1)
  then show ?case using BPTree_Next_calm by (simp add: BPTree_iterator_def BPTree_Error_def)
next
  case (6 s es)
  obtain h u where "bpt.tree_inv l ps s h u" by (rule bpt.holdsE[OF 6])
  then show ?case using bpt.holds_unchanged[OF 6 calm_unchanged[OF bpt.tree_invD(8)]] by (simp add: calm_tree_def)
qed (simp_all add: BPTree_iterator_def BPTree_Key_def BPTree_Value_def split: option.splits)

section \<open>Properties\<close>

text \<open>
  C6. The B-tree never answers wrongly because of a failing disk: after any sequence of operations
  on a new file, let the calls on the file fail at any moments; a lookup still returns, with an
  error or with the stored value, and a range scan yields a prefix of the entries of the range and
  either ends with all of them or leaves the error in the iterator.
\<close>

theorem btree_read_faults:
  assumes "empty_tree_file f" "btree_geom l ps" "\<forall>op \<in> set ops. fixed_length l op"
    "inserts ops \<le> entry_limit" "reading op"
  shows "\<exists>t outs t1 out t2. BTree_Open f cap ps = Some (Inr t) \<and> run_ops BTree_index ops t = Some (outs, t1) \<and>
    run_op BTree_index op (failing faults t1) = Some (out, t2) \<and>
    truthful out (spec_out (Inr None) op (spec_final trimmed ops []))"
proof -
  have "fixed_length l op" using assms(5) by (cases op) simp_all
  then obtain t outs t1 where "BTree_Open f cap ps = Some (Inr t)" "run_ops BTree_index ops t = Some (outs, t1)"
    "\<And>s. calm_tree s = calm_tree t1 \<Longrightarrow> \<exists>out s'. run_op BTree_index op s = Some (out, s') \<and>
      truthful out (spec_out (Inr None) op (spec_final trimmed ops []))"
    using btf.read_truthful[of f l ps ops op cap] assms by (auto simp: fixed_length_allowed)
  from this(1,2) this(3)[of "failing faults t1"] show ?thesis by auto
qed

theorem btree_read_faults_witness:
  "\<exists>t outs t1 out t2. BTree_Open empty_file 2 64 = Some (Inr t) \<and>
    run_ops BTree_index [OInsert 5 (Some [1]), OInsert 3 (Some [2])] t = Some (outs, t1) \<and>
    run_op BTree_index (OGet 3) (failing [Some 0] t1) = Some (out, t2) \<and>
    truthful out (RGet (Inr (Some [2])))"
  using btree_read_faults[of empty_file 1 64 "[OInsert 5 (Some [1]), OInsert 3 (Some [2])]" "OGet 3" 2 "[Some 0]"]
  by (simp add: empty_tree_file_def btree_geom_def node_geom_def entry_limit_def spec_final_def trimmed_def)

text \<open>
  C7. The B+ tree never answers wrongly because of a failing disk either: a lookup returns an
  error or the stored value, a range scan over the linked leaves yields a prefix of the entries of
  the range and either ends with all of them or leaves the error in the iterator.
\<close>

theorem bptree_read_faults:
  assumes "empty_tree_file f" "bptree_geom l ps" "\<forall>op \<in> set ops. fixed_length l op"
    "inserts ops \<le> entry_limit" "reading op"
  shows "\<exists>t outs t1 out t2. BPTree_Open f cap ps = Some (Inr t) \<and> run_ops BPTree_index ops t = Some (outs, t1) \<and>
    run_op BPTree_index op (failing faults t1) = Some (out, t2) \<and>
    truthful out (spec_out (Inr None) op (spec_final trimmed ops []))"
proof -
  have "fixed_length l op" using assms(5) by (cases op) simp_all
  then obtain t outs t1 where "BPTree_Open f cap ps = Some (Inr t)" "run_ops BPTree_index ops t = Some (outs, t1)"
    "\<And>s. calm_tree s = calm_tree t1 \<Longrightarrow> \<exists>out s'. run_op BPTree_index op s = Some (out, s') \<and>
      truthful out (spec_out (Inr None) op (spec_final trimmed ops []))"
    using bpf.read_truthful[of f l ps ops op cap] assms by (auto simp: fixed_length_allowed)
  from this(1,2) this(3)[of "failing faults t1"] show ?thesis by auto
qed

theorem bptree_read_faults_witness:
  "\<exists>t outs t1 out t2. BPTree_Open empty_file 2 65 = Some (Inr t) \<and>
    run_ops BPTree_index [OInsert 5 (Some [1]), OInsert 3 (Some [2])] t = Some (outs, t1) \<and>
    run_op BPTree_index (OScan 1 9) (failing [None, Some 0] t1) = Some (out, t2) \<and>
    truthful out (RScan (Inr ([(3, Some [2]), (5, Some [1])], None)))"
  using bptree_read_faults[of empty_file 1 65 "[OInsert 5 (Some [1]), OInsert 3 (Some [2])]" "OScan 1 9" 2 "[None, Some 0]"]
  by (simp add: empty_tree_file_def bptree_geom_def node_geom_def entry_limit_def spec_final_def trimmed_def
      range_entries_def)

end
