(* ===== verification/Cursor.thy ===== *)
theory Cursor
  imports BTreeIndex BPTreeIndex ListIndex
begin

text \<open>
  Iterators run to their end and stay there: Next returns true once for every entry of the
  range and false from then on, however often it is called.
\<close>

section \<open>The contract\<close>

fun calls :: "('i, 's) Iterator \<Rightarrow> nat \<Rightarrow> 'i \<Rightarrow> 's \<Rightarrow> (bool list \<times> 'i \<times> 's) option" where
  "calls ops 0 it s = Some ([], it, s)"
| "calls ops (Suc n) it s = do {
     ((cont, it1), s1) \<leftarrow> iter_Next ops it s;
     (cs, r) \<leftarrow> calls ops n it1 s1;
     Some (cont # cs, r)
   }"

locale steady_cursor = range_cursor +
  assumes next_ended: "pending it s [] \<Longrightarrow> iter_Next ops it s = Some ((c, it'), s') \<Longrightarrow> pending it' s' []"
begin

lemma calls_ended:
  "pending it s [] \<Longrightarrow> \<exists>it' s'. calls ops n it s = Some (replicate n False, it', s') \<and> pending it' s' []"
proof (induction n arbitrary: it s)
  case (Suc n)
  obtain it1 s1 where N: "iter_Next ops it s = Some ((False, it1), s1)" using next_end[OF Suc.prems] by blast
  show ?case using Suc.IH[OF next_ended[OF Suc.prems N]] N by auto
qed simp

lemma calls_pending:
  "pending it s rem \<Longrightarrow>
     \<exists>it' s'. calls ops (length rem + n) it s = Some (replicate (length rem) True @ replicate n False, it', s')"
proof (induction rem arbitrary: it s)
  case Nil
  then show ?case using calls_ended by fastforce
next
  case (Cons x xs)
  obtain it1 s1 where N: "iter_Next ops it s = Some ((True, it1), s1)" "pending it1 s1 xs"
    using next_entry[OF Cons.prems] by blast
  show ?case using Cons.IH[OF N(2)] N(1) by auto
qed

end

interpretation bts: steady_cursor BTree_iterator "btree_pending l ps" same_tree for l ps
proof (unfold_locales, goal_cases)
  case (1 it s c it' s')
  then show ?case using btree_next[OF 1(1)] by (auto simp: BTree_iterator_def)
qed

interpretation bps: steady_cursor BPTree_iterator "bp_pending l ps" same_tree for l ps
proof (unfold_locales, goal_cases)
  case (1 it s c it' s')
  then show ?case using bptree_next[OF 1(1)] by (auto simp: BPTree_iterator_def)
qed

interpretation lis: steady_cursor ListIndex_iterator list_pending "(=)"
proof (unfold_locales, goal_cases)
  case (1 it s c it' s')
  then show ?case using list_next[OF 1(1)] by (auto simp: ListIndex_iterator_def)
qed

section \<open>Properties\<close>

lemma small_counts: "replicate 2 x = [x, x]" "Suc (Suc (Suc (Suc 0))) = 4"
  by (simp_all add: numeral_2_eq_2)

text \<open>
  C8. A scan of a B-tree always comes to its end: after any operations on a new file, the iterator
  of a range says true exactly once for every stored entry of the range and false on every later
  call, so that a loop over it ends after one call more than there are entries.
\<close>

theorem btree_iterator_ends:
  assumes "empty_tree_file f" "btree_geom l ps" "\<forall>op \<in> set ops. fixed_length l op" "inserts ops \<le> entry_limit"
  shows "\<exists>t outs t1 it t2 it' t3. BTree_Open f cap ps = Some (Inr t) \<and>
    run_ops BTree_index ops t = Some (outs, t1) \<and> BTree_Range a b t1 = Some (Inr it, t2) \<and>
    (let m = length (range_entries a b (spec_final trimmed ops [])) in
     calls BTree_iterator (m + n) it t2 = Some (replicate m True @ replicate n False, it', t3))"
proof -
  obtain t where O: "BTree_Open f cap ps = Some (Inr t)" "btt.holds l ps t []"
    using btd.open_law[of f l ps cap] assms(1,2) by auto
  obtain t1 where R: "run_ops BTree_index ops t = Some (spec_run trimmed (Inr None) ops [], t1)"
    "btt.holds l ps t1 (spec_final trimmed ops [])"
    using bti.run_ops_exact[OF O(2), of ops] assms(3,4) by (auto simp: fixed_length_allowed)
  obtain it t2 where I: "BTree_Range a b t1 = Some (Inr it, t2)"
    "btree_pending l ps it t2 (range_entries a b (spec_final trimmed ops []))"
    using btree_range[OF R(2)] by blast
  show ?thesis using O(1) R(1) I(1) bts.calls_pending[OF I(2), of n] by (simp add: Let_def)
qed

theorem btree_iterator_ends_witness:
  "\<exists>t outs t1 it t2 it' t3. BTree_Open empty_file 2 64 = Some (Inr t) \<and>
    run_ops BTree_index [OInsert 5 (Some [1]), OInsert 3 (Some [2]), OInsert 9 (Some [3])] t = Some (outs, t1) \<and>
    BTree_Range 4 9 t1 = Some (Inr it, t2) \<and>
    calls BTree_iterator 4 it t2 = Some ([True, True, False, False], it', t3)"
  using btree_iterator_ends[of empty_file 1 64 "[OInsert 5 (Some [1]), OInsert 3 (Some [2]), OInsert 9 (Some [3])]" 2 4 9 2]
  by (simp add: empty_tree_file_def btree_geom_def node_geom_def entry_limit_def spec_final_def trimmed_def
      range_entries_def small_counts del: calls.simps)

text \<open>
  C9. A scan of a B+ tree always comes to its end: the iterator follows the leaf chain, says true
  exactly once for every stored entry of the range and false on every later call.
\<close>

theorem bptree_iterator_ends:
  assumes "empty_tree_file f" "bptree_geom l ps" "\<forall>op \<in> set ops. fixed_length l op" "inserts ops \<le> entry_limit"
  shows "\<exists>t outs t1 it t2 it' t3. BPTree_Open f cap ps = Some (Inr t) \<and>
    run_ops BPTree_index ops t = Some (outs, t1) \<and> BPTree_Range a b t1 = Some (Inr it, t2) \<and>
    (let m = length (range_entries a b (spec_final trimmed ops [])) in
     calls BPTree_iterator (m + n) it t2 = Some (replicate m True @ replicate n False, it', t3))"
proof -
  obtain t where O: "BPTree_Open f cap ps = Some (Inr t)" "bpt.holds l ps t []"
    using bpd.open_law[of f l ps cap] assms(1,2) by auto
  obtain t1 where R: "run_ops BPTree_index ops t = Some (spec_run trimmed (Inr None) ops [], t1)"
    "bpt.holds l ps t1 (spec_final trimmed ops [])"
    using bpi.run_ops_exact[OF O(2), of ops] assms(3,4) by (auto simp: fixed_length_allowed)
  obtain it t2 where I: "BPTree_Range a b t1 = Some (Inr it, t2)"
    "bp_pending l ps it t2 (range_entries a b (spec_final trimmed ops []))"
    using bptree_range[OF R(2)] by blast
  show ?thesis using O(1) R(1) I(1) bps.calls_pending[OF I(2), of n] by (simp add: Let_def)
qed

theorem bptree_iterator_ends_witness:
  "\<exists>t outs t1 it t2 it' t3. BPTree_Open empty_file 2 65 = Some (Inr t) \<and>
    run_ops BPTree_index [OInsert 5 (Some [1]), OInsert 3 (Some [2]), OInsert 9 (Some [3])] t = Some (outs, t1) \<and>
    BPTree_Range 4 9 t1 = Some (Inr it, t2) \<and>
    calls BPTree_iterator 4 it t2 = Some ([True, True, False, False], it', t3)"
  using bptree_iterator_ends[of empty_file 1 65 "[OInsert 5 (Some [1]), OInsert 3 (Some [2]), OInsert 9 (Some [3])]" 2 4 9 2]
  by (simp add: empty_tree_file_def bptree_geom_def node_geom_def entry_limit_def spec_final_def trimmed_def
      range_entries_def small_counts del: calls.simps)

end
