(* ===== verification/Durability.thy ===== *)
theory Durability
  imports Pager
begin

text \<open>
  What a crash can lose. The pager counts its page writes and calls Sync after every
  \<open>SyncInterval\<close> of them; \<open>fsynced\<close> is the content of the file at the last Sync, which is what
  remains of it when the machine stops.
\<close>

section \<open>The counter of writes\<close>

definition counters :: "pager \<Rightarrow> int \<times> int" where
  "counters p = (SyncInterval p, writeCount p)"

lemma Read_synced:
  assumes "Read i p = (r, p')"
  shows "counters p' = counters p" "fsynced (pfile p') = fsynced (pfile p)"
  using assms by (auto simp: Read_def readPageFromDisk_def readAt_def next_fault_def new_buf_def counters_def
      split: prod.splits option.splits sum.splits if_splits list.splits)

lemma writeAt_synced: "writeAt off bs f = (r, g) \<Longrightarrow> fsynced g = fsynced f"
  by (auto simp: writeAt_def next_fault_def split: if_splits list.splits option.splits)

lemma fsync_synced: "fsync f = (Inr u, g) \<Longrightarrow> fsynced g = fdata g"
  by (auto simp: fsync_def next_fault_def split: list.splits option.splits)

lemma writePageToDisk_synced:
  assumes "writePageToDisk i c p = (Inr u, p')" "0 < SyncInterval p"
  shows "counters p' = (SyncInterval p, i64 (writeCount p + 1)) \<and>
    fsynced (pfile p') = (if i64 (writeCount p + 1) mod SyncInterval p = 0 then fdata (pfile p') else fsynced (pfile p))"
proof -
  obtain v f where W: "writeAt (offset p i) c (pfile p) = (v, f)" by fastforce
  note f = writeAt_synced[OF W]
  show ?thesis
  proof (cases v)
    case (Inl e)
    then show ?thesis using assms(1) W by (simp add: writePageToDisk_def)
  next
    case (Inr _)
    obtain w g where F: "fsync f = (w, g)" by fastforce
    show ?thesis
    proof (cases w)
      case (Inl e)
      then show ?thesis using assms W Inr F f
        by (auto simp: writePageToDisk_def Let_def counters_def split: if_splits)
    next
      case (Inr u)
      then show ?thesis using assms W \<open>v = Inr _\<close> F f fsync_synced[of f u g]
        by (auto simp: writePageToDisk_def Let_def counters_def split: if_splits)
    qed
  qed
qed

lemma poke_synced: "counters (poke a c s) = counters s" "pfile (poke a c s) = pfile s"
  by (simp_all add: poke_def counters_def)

section \<open>Operations\<close>

definition writes :: "page_op \<Rightarrow> nat" where
  "writes x = (case x of AllocOp \<Rightarrow> 1 | WriteOp i c \<Rightarrow> 1 | _ \<Rightarrow> 0)"

definition page_writes :: "page_op list \<Rightarrow> nat" where
  "page_writes ops = sum_list (map writes ops)"

definition keeps_interval :: "page_op \<Rightarrow> bool" where
  "keeps_interval x = (case x of SyncOp n \<Rightarrow> False | _ \<Rightarrow> True)"

lemma page_writes_simps [simp]: "page_writes [] = 0" "page_writes (x # ops) = writes x + page_writes ops"
  by (simp_all add: page_writes_def)

lemma i64_count: "0 \<le> w \<Longrightarrow> w < 2 ^ 63 \<Longrightarrow> i64 w = w"
  by (rule i64_id) auto

lemma mod_next:
  assumes "(0::int) < k" "(w + 1) mod k \<noteq> 0"
  shows "(w + 1) mod k = w mod k + 1"
proof -
  have e: "(w + 1) mod k = (w mod k + 1) mod k" by (rule mod_add_left_eq[symmetric])
  have "w mod k + 1 \<noteq> k" using assms(2) e by auto
  moreover have "0 \<le> w mod k" "w mod k < k" using assms(1) by simp_all
  ultimately show ?thesis unfolding e by (intro mod_pos_pos_trivial) linarith+
qed

lemma step_synced:
  assumes inv: "pager_inv {} s" and ok: "op_ok (PageSize s) x (pages s)" and x: "keeps_interval x"
    and k: "SyncInterval s = k" "0 < k" and w: "0 \<le> writeCount s" "writeCount s + 1 < 2 ^ 63"
  shows "counters (snd (pager_step x s)) = (k, writeCount s + int (writes x)) \<and>
    fsynced (pfile (snd (pager_step x s))) =
      (if writes x = 1 \<and> (writeCount s + 1) mod k = 0 then fdata (pfile (snd (pager_step x s)))
       else fsynced (pfile s))"
proof (cases x)
  case AllocOp
  let ?s = "s\<lparr>pageCount := u64 (pageCount s + 1)\<rparr>"
  have "pageCount s < page_limit (PageSize s)" using ok AllocOp by simp
  then obtain s' where A: "Allocate s = (Inr (pageCount s), s')" using Allocate_law[OF inv] by blast
  from A have "writePageToDisk (pageCount s) (replicate (PageSize s) 0) ?s = (Inr (), s')"
    by (auto simp: Allocate_def Let_def split: prod.splits sum.splits)
  then show ?thesis
    using writePageToDisk_synced[of "pageCount s" "replicate (PageSize s) 0" ?s "()" s'] A AllocOp k w
    by (simp add: writes_def i64_count)
next
  case (ReadOp i)
  obtain r s' where "Read i s = (r, s')" by fastforce
  then show ?thesis using Read_synced[of i s r s'] ReadOp k
    by (auto simp: writes_def counters_def split: sum.splits)
next
  case (WriteOp i c)
  have i: "i < pageCount s" "length c = PageSize s" using ok WriteOp by simp_all
  obtain a s1 s2 where W: "Read i s = (Inr a, s1)" "Write i a (poke a c s1) = (Inr (), s2)"
    using pg.read_assign_write[OF inv i] .
  note R = Read_synced[OF W(1)]
  let ?p = "(poke a c s1)\<lparr>cache := lru_put i a (cache (poke a c s1))\<rparr>"
  have "writePageToDisk i c ?p = (Inr (), s2)" using W(2) by (simp add: Write_def poke_def)
  moreover have "SyncInterval ?p = k" "writeCount ?p = writeCount s" "fsynced (pfile ?p) = fsynced (pfile s)"
    using R k by (simp_all add: counters_def poke_def)
  ultimately show ?thesis
    using writePageToDisk_synced[of i c ?p "()" s2] W WriteOp k(2) w by (simp add: writes_def i64_count)
qed (use x in \<open>simp add: keeps_interval_def\<close>)

lemma run_synced:
  assumes "pager_inv {} s" "ops_ok (PageSize s) ops (pages s)" "\<forall>x \<in> set ops. keeps_interval x"
    "SyncInterval s = k" "0 < k" "0 \<le> writeCount s" "writeCount s + int (length ops) < 2 ^ 63"
  shows "\<exists>ops1 ops2. ops = ops1 @ ops2 \<and> int (page_writes ops2) < k \<and>
    fsynced (pfile (snd (run_steps pager_step ops s))) =
      (if ops1 = [] then fsynced (pfile s) else fdata (pfile (snd (run_steps pager_step ops1 s)))) \<and>
    (ops1 = [] \<longrightarrow> writeCount s mod k + int (page_writes ops) < k)"
  using assms
proof (induction ops arbitrary: s)
  case Nil
  then show ?case by simp
next
  case (Cons x ops)
  obtain r s1 where S: "pager_step x s = (r, s1)" "pager_inv {} s1" "PageSize s1 = PageSize s"
    "array_step (PageSize s) x (pages s) = (r, pages s1)"
    using pager_step_refines[OF Cons.prems(1)] Cons.prems(2) by auto
  have Y: "counters s1 = (k, writeCount s + int (writes x))"
    "fsynced (pfile s1) = (if writes x = 1 \<and> (writeCount s + 1) mod k = 0 then fdata (pfile s1) else fsynced (pfile s))"
    using step_synced[of s x k] Cons.prems S(1) by auto
  have wx: "writes x = 0 \<or> writes x = 1" by (auto simp: writes_def split: page_op.splits)
  then have "writeCount s1 + int (length ops) < 2 ^ 63" "0 \<le> writeCount s1" "SyncInterval s1 = k"
    using Cons.prems(6,7) Y(1) by (auto simp: counters_def)
  moreover have "ops_ok (PageSize s1) ops (pages s1)" "\<forall>x \<in> set ops. keeps_interval x"
    using Cons.prems(2,3) S(3,4) by simp_all
  ultimately obtain ops1 ops2 where I: "ops = ops1 @ ops2" "int (page_writes ops2) < k"
    "fsynced (pfile (snd (run_steps pager_step ops s1))) =
      (if ops1 = [] then fsynced (pfile s1) else fdata (pfile (snd (run_steps pager_step ops1 s1))))"
    "ops1 = [] \<longrightarrow> writeCount s1 mod k + int (page_writes ops) < k"
    using Cons.IH[OF S(2) _ _ _ Cons.prems(5)] by blast
  have run: "snd (run_steps pager_step (x # os) s) = snd (run_steps pager_step os s1)" for os
    using S(1) by (simp split: prod.splits)
  show ?case
  proof (cases "ops1 \<noteq> [] \<or> writes x = 1 \<and> (writeCount s + 1) mod k = 0")
    case True
    then have "fsynced (pfile (snd (run_steps pager_step (x # ops) s))) =
        fdata (pfile (snd (run_steps pager_step (x # ops1) s)))"
      unfolding run using I(3) Y(2) by auto
    then show ?thesis using I(1,2) by (intro exI[of _ "x # ops1"] exI[of _ ops2]) simp
  next
    case False
    have "writeCount s mod k + int (writes x) = writeCount s1 mod k"
    proof (cases "writes x = 0")
      case True
      then show ?thesis using Y(1) by (simp add: counters_def)
    next
      case w1: False
      then have "(writeCount s + 1) mod k \<noteq> 0" using False wx by auto
      then have "(writeCount s + 1) mod k = writeCount s mod k + 1"
        by (rule mod_next[OF Cons.prems(5)])
      then show ?thesis using Y(1) w1 wx by (simp add: counters_def)
    qed
    then have c: "writeCount s mod k + int (page_writes (x # ops)) < k" using I(4) False by simp
    moreover have "0 \<le> writeCount s mod k" using Cons.prems(5) by simp
    moreover have "fsynced (pfile (snd (run_steps pager_step (x # ops) s))) = fsynced (pfile s)"
      unfolding run using I(3) Y(2) False by auto
    ultimately show ?thesis by (intro exI[of _ "[]"] exI[of _ "x # ops"]) simp
  qed
qed

section \<open>Opening\<close>

text \<open>The pager before Open looks at its file.\<close>

definition new_pager :: "os_file \<Rightarrow> int \<Rightarrow> nat \<Rightarrow> pager" where
  "new_pager f cap ps = \<lparr>pfile = f, cache = newLRUCache cap, pageCount = 0, PageSize = ps,
     writeCount = 0, SyncInterval = 10000, bufs = (\<lambda>_. []), next_buf = 0\<rparr>"

lemma open_pager_read:
  assumes "no_faults f" "fdata f \<noteq> []"
  shows "open_pager f cap ps = do {
     (r, p2) \<leftarrow> readPageCount (new_pager (quiet (quiet f)) cap ps);
     (case r of
        Inl e \<Rightarrow> Some (Inl (Wrapped ''read page count'' e, snd (fclose (pfile p2))))
      | Inr _ \<Rightarrow> Some (Inr p2))
   }"
  using assms fileExists_ok[of "new_pager (quiet f) cap ps"] no_faults_quiet[OF assms(1)]
  by (simp add: open_pager_def new_pager_def)

lemma readPageCount_new:
  assumes f: "no_faults f"
  shows "readPageCount (new_pager f cap ps) =
    (if 0 < ps \<and> length (fdata f) < ps then Some (Inl (ReadPage 0 EOF), new_pager (quiet f) cap ps)
     else if ps < 8 then None
     else Some (Inr (), (new_pager (quiet f) cap ps)\<lparr>pageCount := le_get (take 8 (fdata f)),
       bufs := (\<lambda>_. [])(0 := take ps (fdata f)), next_buf := 1\<rparr>))"
  using f by (auto simp: readPageCount_def readPageFromDisk_def readAt_def new_pager_def offset_def i64_def
      new_buf_def rd_def sl_def min_def)

section \<open>Properties\<close>

text \<open>
  C13. A crash loses fewer page writes than the sync interval: whatever sequence of allocations,
  reads and writes a pager performs with a sync interval \<open>k\<close>, the content that survives a crash at
  its end is the content the file had after some earlier operation, and fewer than \<open>k\<close> page writes
  came after that one; if the pager has not synced at all it is the content synced before.
\<close>

theorem crash_loses_few_writes:
  assumes "pager_inv {} s" "ops_ok (PageSize s) ops (pages s)" "\<forall>x \<in> set ops. keeps_interval x"
    "0 < k" "0 \<le> writeCount s" "writeCount s + int (length ops) < 2 ^ 63"
  shows "\<exists>ops1 ops2. ops = ops1 @ ops2 \<and> int (page_writes ops2) < k \<and>
    fsynced (pfile (snd (run_steps pager_step ops (SetSyncInterval k s)))) =
      (if ops1 = [] then fsynced (pfile s)
       else fdata (pfile (snd (run_steps pager_step ops1 (SetSyncInterval k s)))))"
proof -
  let ?s = "SetSyncInterval k s"
  have "pages ?s = pages s" by (rule pages_cong) (simp_all add: SetSyncInterval_inv)
  then have inv: "pager_inv {} ?s" "ops_ok (PageSize ?s) ops (pages ?s)"
    using assms(1,2) by (simp_all add: SetSyncInterval_inv)
  have S: "SyncInterval ?s = k" "writeCount ?s = writeCount s" "fsynced (pfile ?s) = fsynced (pfile s)"
    by (simp_all add: SetSyncInterval_def)
  from run_synced[OF inv assms(3) S(1) assms(4)] assms(5,6) show ?thesis unfolding S(2,3) by blast
qed

theorem crash_loses_few_writes_witness:
  "\<exists>p ops1 ops2. open_pager empty_file 2 16 = Some (Inr p) \<and>
    [AllocOp, AllocOp, WriteOp 1 (replicate 16 7), ReadOp 1, AllocOp] = ops1 @ ops2 \<and> page_writes ops2 < 2 \<and>
    fsynced (pfile (snd (run_steps pager_step [AllocOp, AllocOp, WriteOp 1 (replicate 16 7), ReadOp 1, AllocOp]
        (SetSyncInterval 2 p)))) =
      (if ops1 = [] then fsynced (pfile p)
       else fdata (pfile (snd (run_steps pager_step ops1 (SetSyncInterval 2 p)))))"
proof -
  obtain p where p: "open_pager empty_file 2 16 = Some (Inr p)" "pager_inv {} p" "pageCount p = 1"
    "PageSize p = 16"
    by (rule open_pager_new[of empty_file 16 2]) auto
  have "writeCount p = 1"
    using p(1) by (auto simp: open_pager_def next_fault_def fileExists_def writePageCount_def wr_def empty_file_def
        writePageToDisk_def writeAt_def offset_def i64_def Let_def u64_def split: if_splits)
  then have w: "0 \<le> writeCount p" "writeCount p + int (length [AllocOp, AllocOp, WriteOp 1 (replicate 16 7), ReadOp 1, AllocOp]) < 2 ^ 63"
    by simp_all
  have o: "ops_ok (PageSize p) [AllocOp, AllocOp, WriteOp 1 (replicate 16 7), ReadOp 1, AllocOp] (pages p)"
    using p(3,4) by (simp add: page_limit_def)
  have "\<forall>x \<in> set [AllocOp, AllocOp, WriteOp 1 (replicate 16 7), ReadOp 1, AllocOp]. keeps_interval x"
    by (simp add: keeps_interval_def)
  from crash_loses_few_writes[OF p(2) o this zero_less_numeral w, of "num.Bit0 num.One"] p(1) show ?thesis
    unfolding of_nat_less_numeral_iff by blast
qed

text \<open>
  C14. Every outcome of opening a page file on a disk without faults: a file that is not empty but
  shorter than a page gives the end-of-file error, wrapped, and keeps its bytes; a page size below
  8, which has no room for the page count, panics; otherwise Open succeeds with one page for an
  empty file, and with the page count that the first eight bytes of the file hold.
\<close>

theorem open_pager_outcomes:
  assumes "no_faults f" "ps < 2 ^ 32"
  shows "if fdata f \<noteq> [] \<and> length (fdata f) < ps then
      \<exists>g. open_pager f cap ps = Some (Inl (Wrapped ''read page count'' (ReadPage 0 EOF), g)) \<and> fdata g = fdata f
    else if ps < 8 then open_pager f cap ps = None
    else \<exists>p. open_pager f cap ps = Some (Inr p) \<and> PageSize p = ps \<and>
      pageCount p = (if fdata f = [] then 1 else le_get (take 8 (fdata f)))"
proof (cases "fdata f = []")
  case True
  have "open_pager f cap ps = None" if "ps < 8"
    using assms(1) True that fileExists_ok[of "new_pager (quiet f) cap ps"] no_faults_quiet[OF assms(1)]
    by (simp add: open_pager_def new_pager_def writePageCount_def wr_def)
  moreover have "\<exists>p. open_pager f cap ps = Some (Inr p) \<and> PageSize p = ps \<and> pageCount p = 1" if "\<not> ps < 8"
    using open_pager_new[OF assms(1) True, of ps cap] assms(2) that by force
  ultimately show ?thesis using True by simp
next
  case False
  have nf: "no_faults (quiet (quiet f))" "no_faults (quiet (quiet (quiet f)))"
    using assms(1) no_faults_quiet by blast+
  show ?thesis
    using False nf(2) unfolding open_pager_read[OF assms(1) False] readPageCount_new[OF nf(1)]
    by (auto simp: fclose_def new_pager_def)
qed

theorem open_pager_outcomes_witness:
  "\<exists>g. open_pager \<lparr>fdata = [1, 2, 3], fsynced = [], ffaults = []\<rparr> 4 16 =
    Some (Inl (Wrapped ''read page count'' (ReadPage 0 EOF), g)) \<and> fdata g = [1, 2, 3]"
  using open_pager_outcomes[of "\<lparr>fdata = [1, 2, 3], fsynced = [], ffaults = []\<rparr>" 16 4]
  by (simp add: no_faults_def)

end
