(* ===== verification/PageProps.thy ===== *)
theory PageProps
  imports BTree BPTree TreeOps
begin

text \<open>
  Node pages as containers: a new page gives back the cells that were appended to it, whatever
  their sizes, and the binary search in a node agrees with a search from the left.
\<close>

definition cells_size :: "node_accessor \<Rightarrow> bool \<Rightarrow> cell list \<Rightarrow> nat" where
  "cells_size acc leaf xs = (\<Sum>x\<leftarrow>xs. CellSize acc leaf (fst (snd x)))"

lemma cells_size_simps [simp]:
  "cells_size acc leaf [] = 0"
  "cells_size acc leaf (x # xs) = CellSize acc leaf (fst (snd x)) + cells_size acc leaf xs"
  by (simp_all add: cells_size_def)

definition node_type :: "bool \<Rightarrow> byte" where
  "node_type leaf = (if leaf then TypeLeaf else TypeInternal)"

text \<open>The index that a search from the left finds.\<close>

definition linear_search :: "bool \<Rightarrow> bool \<Rightarrow> cell list \<Rightarrow> key \<Rightarrow> nat" where
  "linear_search copies leaf xs key = length (takeWhile
     (\<lambda>x. sint (fst x) < sint key \<or> (\<not> leaf \<and> copies \<and> fst x = key)) xs)"

context cell_codec
begin

lemma append_sizes:
  assumes "node_rep enc norm leaf p cs c" "\<forall>x \<in> set xs. cell_ok x"
    "ptr_off (length cs + length xs) + cells_size acc leaf xs \<le> c"
  shows "\<exists>q. append_cells acc xs p = Some q \<and> length q = length p \<and>
    node_rep enc norm leaf q (cs @ map (norm leaf) xs) (c - cells_size acc leaf xs)"
  using assms
proof (induction xs arbitrary: p cs c)
  case (Cons x xs)
  obtain k v lc where x: "x = (k, v, lc)" by (metis prod_cases3)
  have fit: "ptr_off (Suc (length cs)) + CellSize acc leaf v \<le> c" using Cons.prems(3) x by simp
  obtain p1 where p1: "AppendCell acc p k v lc = Some p1" "length p1 = length p"
    "node_rep enc norm leaf p1 (cs @ [norm leaf x]) (c - CellSize acc leaf v)"
    using AppendCell_spec[OF Cons.prems(1) _ fit] Cons.prems(2) x by (metis list.set_intros(1))
  show ?case using Cons.IH[OF p1(3)] Cons.prems(2,3) p1(1,2) x by auto
qed simp

lemma page_cells:
  assumes "13 \<le> length p" "length p < 65536" "\<forall>x \<in> set xs. cell_ok x"
    "ptr_off (length xs) + cells_size acc leaf xs \<le> length p"
  obtains p0 q where "InitPage p (node_type leaf) = Some p0" "append_cells acc xs p0 = Some q"
    "length q = length p" "node_rep enc norm leaf q (map (norm leaf) xs) (length p - cells_size acc leaf xs)"
proof -
  obtain q where q: "InitPage p (node_type leaf) = Some q" "length q = length p"
    "page_rep enc leaf q [] (length p)"
    using InitPage_rep[of p leaf enc] assms(1,2) unfolding node_type_def by metis
  have "node_rep enc norm leaf q [] (length p)" using q(3) by (auto simp: node_rep_def)
  from append_sizes[OF this assms(3)] assms(4) q that show thesis by auto
qed

lemma page_round_trip:
  assumes "13 \<le> length p" "length p < 65536" "\<forall>x \<in> set xs. cell_ok x"
    "ptr_off (length xs) + cells_size acc leaf xs \<le> length p"
  shows "\<exists>p0 q. InitPage p (node_type leaf) = Some p0 \<and> append_cells acc xs p0 = Some q \<and>
    length q = length p \<and> NumCells q = Some (length xs) \<and> isLeaf q = Some leaf \<and>
    FreeSpace q (length xs) = Some (int (length p) - int (cells_size acc leaf xs) - int (ptr_off (length xs))) \<and>
    mapM (\<lambda>i. ReadCell acc q i leaf) [0..<length xs] = Some (map (norm leaf) xs)"
proof -
  obtain p0 q where Q: "InitPage p (node_type leaf) = Some p0" "append_cells acc xs p0 = Some q"
    "length q = length p" "node_rep enc norm leaf q (map (norm leaf) xs) (length p - cells_size acc leaf xs)"
    by (rule page_cells[OF assms])
  then show ?thesis using node_repD(5,6,8)[OF Q(4)] node_mapM[OF Q(4)] assms(4) by (simp add: of_nat_diff)
qed

lemma search_linear:
  assumes "13 \<le> length p" "length p < 65536" "\<forall>x \<in> set xs. cell_ok x"
    "ptr_off (length xs) + cells_size acc leaf xs \<le> length p" "sorted (map (\<lambda>x. sint (fst x)) xs)"
    "InitPage p (node_type leaf) = Some p0" "append_cells acc xs p0 = Some q"
  shows "FindIdx acc q key (length xs) leaf = Some (linear_search (CopyUpLeaves acc) leaf xs key)"
proof -
  have rep: "node_rep enc norm leaf q (map (norm leaf) xs) (length p - cells_size acc leaf xs)"
    by (rule page_cells[OF assms(1-4)]) (use assms(6,7) in simp)
  have b: "before leaf key (map (norm leaf) xs ! i) \<longleftrightarrow>
      sint (fst (xs ! i)) < sint key \<or> (\<not> leaf \<and> CopyUpLeaves acc \<and> fst (xs ! i) = key)"
    if "i < length xs" for i
    using that norm_key by (auto simp: before_def)
  obtain idx where I: "FindIdx acc q key (length (map (norm leaf) xs)) leaf = Some idx" "idx \<le> length (map (norm leaf) xs)"
    "\<And>i. i < idx \<Longrightarrow> before leaf key (map (norm leaf) xs ! i)"
    "\<And>i. idx \<le> i \<Longrightarrow> i < length (map (norm leaf) xs) \<Longrightarrow> \<not> before leaf key (map (norm leaf) xs ! i)"
  proof (rule FindIdx_spec[OF rep, of key])
    fix i j assume ij: "i \<le> j" "j < length (map (norm leaf) xs)" "before leaf key (map (norm leaf) xs ! j)"
    have "sint (fst (xs ! i)) \<le> sint (fst (xs ! j))"
      using sorted_nth_mono[OF assms(5), of i j] ij(1,2) by simp
    moreover have "sint (fst (xs ! j)) < sint key \<or> (\<not> leaf \<and> CopyUpLeaves acc \<and> fst (xs ! j) = key)"
      using ij(2,3) b[of j] by simp
    ultimately have "sint (fst (xs ! i)) < sint key \<or> (\<not> leaf \<and> CopyUpLeaves acc \<and> fst (xs ! i) = key)"
      using sint_inject[of "fst (xs ! i)" key] by (auto simp: order_le_less)
    then show "before leaf key (map (norm leaf) xs ! i)" using ij(1,2) b[of i] by simp
  qed blast
  have "linear_search (CopyUpLeaves acc) leaf xs key = idx"
    unfolding linear_search_def
    by (subst takeWhile_eq_take_P_nth[where n = idx]) (use I(2-4) b in \<open>auto simp: conj_commute\<close>)
  then show ?thesis using I(1) by simp
qed

end

section \<open>Properties\<close>

lemma btree_page_round_trip:
  assumes "13 \<le> length p" "length p < 65536" "\<forall>x \<in> set xs. cell_ok x"
    "ptr_off (length xs) + cells_size BTreeAcc leaf xs \<le> length p"
  shows "\<exists>p0 q. InitPage p (node_type leaf) = Some p0 \<and> append_cells BTreeAcc xs p0 = Some q \<and>
    length q = length p \<and> NumCells q = Some (length xs) \<and> isLeaf q = Some leaf \<and>
    FreeSpace q (length xs) =
      Some (int (length p) - int (cells_size BTreeAcc leaf xs) - int (ptr_off (length xs))) \<and>
    mapM (\<lambda>i. BTree_ReadCell q i leaf) [0..<length xs] = Some (map (\<lambda>(k, v, lc). (k, Some (gbytes v), lc)) xs)"
proof -
  have "map (BTree_norm leaf) xs = map (\<lambda>(k, v, lc). (k, Some (gbytes v), lc)) xs"
    by (simp add: BTree_norm_def)
  from bt.page_round_trip[OF assms, unfolded this BTreeAcc_simps(2)] show ?thesis .
qed

lemma bptree_page_round_trip:
  assumes "13 \<le> length p" "length p < 65536" "\<forall>x \<in> set xs. cell_ok x"
    "ptr_off (length xs) + cells_size BPTreeAcc leaf xs \<le> length p"
  shows "\<exists>p0 q. InitPage p (node_type leaf) = Some p0 \<and> append_cells BPTreeAcc xs p0 = Some q \<and>
    length q = length p \<and> NumCells q = Some (length xs) \<and> isLeaf q = Some leaf \<and>
    FreeSpace q (length xs) =
      Some (int (length p) - int (cells_size BPTreeAcc leaf xs) - int (ptr_off (length xs))) \<and>
    mapM (\<lambda>i. BPTree_ReadCell q i leaf) [0..<length xs] =
      Some (map (\<lambda>(k, v, lc). if leaf then (k, Some (gbytes v), 0) else (k, None, lc)) xs)"
proof -
  have "map (BPTree_norm leaf) xs = map (\<lambda>(k, v, lc). if leaf then (k, Some (gbytes v), 0) else (k, None, lc)) xs"
    by (simp add: BPTree_norm_def)
  from bp.page_round_trip[OF assms, unfolded this BPTreeAcc_simps(2)] show ?thesis .
qed

text \<open>
  C36. A page stores cells without loss: on any page buffer, initialising it as a leaf or an
  internal node and appending cells of any sizes that fit, the page reports their number and the
  remaining space and reads back every cell in order. A page of the B-tree gives back key, value
  and child (a nil value as an empty slice), a leaf of the B+ tree the key and the value, and an
  internal node of the B+ tree the key and the child.
\<close>

theorem tree_page_round_trip:
  assumes "13 \<le> length p" "length p < 65536" "\<forall>x \<in> set xs \<union> set ys. cell_ok x"
    "ptr_off (length xs) + cells_size BTreeAcc leaf xs \<le> length p"
    "ptr_off (length ys) + cells_size BPTreeAcc leaf ys \<le> length p"
  shows "(\<exists>p0 q. InitPage p (node_type leaf) = Some p0 \<and> append_cells BTreeAcc xs p0 = Some q \<and>
      length q = length p \<and> NumCells q = Some (length xs) \<and> isLeaf q = Some leaf \<and>
      FreeSpace q (length xs) =
        Some (int (length p) - int (cells_size BTreeAcc leaf xs) - int (ptr_off (length xs))) \<and>
      mapM (\<lambda>i. BTree_ReadCell q i leaf) [0..<length xs] = Some (map (\<lambda>(k, v, lc). (k, Some (gbytes v), lc)) xs)) \<and>
    (\<exists>p0 q. InitPage p (node_type leaf) = Some p0 \<and> append_cells BPTreeAcc ys p0 = Some q \<and>
      length q = length p \<and> NumCells q = Some (length ys) \<and> isLeaf q = Some leaf \<and>
      FreeSpace q (length ys) =
        Some (int (length p) - int (cells_size BPTreeAcc leaf ys) - int (ptr_off (length ys))) \<and>
      mapM (\<lambda>i. BPTree_ReadCell q i leaf) [0..<length ys] =
        Some (map (\<lambda>(k, v, lc). if leaf then (k, Some (gbytes v), 0) else (k, None, lc)) ys))"
  by (rule conjI) (rule btree_page_round_trip bptree_page_round_trip; use assms in simp)+

theorem tree_page_round_trip_witness:
  "(\<exists>p0 q. InitPage (replicate 64 9) TypeInternal = Some p0 \<and>
     append_cells BTreeAcc [(-7, Some [1, 2], 0), (4, None, 0)] p0 = Some q \<and> NumCells q = Some 2 \<and>
     FreeSpace q 2 = Some 17 \<and>
     mapM (\<lambda>i. BTree_ReadCell q i False) [0, 1] = Some [(-7, Some [1, 2], 0), (4, Some [], 0)]) \<and>
   (\<exists>p0 q. InitPage (replicate 64 9) TypeInternal = Some p0 \<and>
     append_cells BPTreeAcc [(-7, None, 3), (4, None, 8)] p0 = Some q \<and> NumCells q = Some 2 \<and>
     FreeSpace q 2 = Some 23 \<and>
     mapM (\<lambda>i. BPTree_ReadCell q i False) [0, 1] = Some [(-7, None, 3), (4, None, 8)])"
  using tree_page_round_trip[of "replicate 64 9" "[(-7, Some [1, 2], 0), (4, None, 0)]" "[(-7, None, 3), (4, None, 8)]" False]
  by (simp add: cell_ok_def node_type_def upt_rec numeral_2_eq_2[symmetric] del: append_cells.simps) blast

text \<open>
  C37. The binary search in a node is a search from the left: on a page of either tree that holds
  cells in the order of their keys, FindIdx returns the number of leading cells with a smaller key,
  or with the same key in an internal node of a B+ tree.
\<close>

theorem find_idx_linear:
  assumes "13 \<le> length p" "length p < 65536" "\<forall>x \<in> set xs. cell_ok x" "sorted (map (\<lambda>x. sint (fst x)) xs)"
    "acc = BTreeAcc \<or> acc = BPTreeAcc" "ptr_off (length xs) + cells_size acc leaf xs \<le> length p"
    "InitPage p (node_type leaf) = Some p0" "append_cells acc xs p0 = Some q"
  shows "FindIdx acc q key (length xs) leaf = Some (linear_search (acc = BPTreeAcc) leaf xs key)"
proof -
  have "BTreeAcc \<noteq> BPTreeAcc" using BTreeAcc_simps(5) BPTreeAcc_simps(5) by metis
  then show ?thesis
    using assms(5) bt.search_linear[OF assms(1-3) _ assms(4,7)] bp.search_linear[OF assms(1-3) _ assms(4,7)]
      assms(6,8) by auto
qed

theorem find_idx_linear_witness:
  "\<exists>p0 q. InitPage (replicate 64 9) TypeInternal = Some p0 \<and>
    append_cells BPTreeAcc [(-7, None, 3), (4, None, 8)] p0 = Some q \<and> FindIdx BPTreeAcc q 4 2 False = Some 2"
proof -
  obtain p0 q where Q: "InitPage (replicate 64 9) (node_type False) = Some p0"
    "append_cells BPTreeAcc [(-7, None, 3), (4, None, 8)] p0 = Some q"
    using bp.page_round_trip[of "replicate 64 9" "[(-7, None, 3), (4, None, 8)]" False]
    by (auto simp: cell_ok_def)
  have "FindIdx BPTreeAcc q 4 (length [(-7 :: key, None :: gobytes, 3 :: nat), (4, None, 8)]) False =
      Some (linear_search (BPTreeAcc = BPTreeAcc) False [(-7, None, 3), (4, None, 8)] 4)"
    by (rule find_idx_linear[OF _ _ _ _ _ _ Q]) (simp_all add: cell_ok_def)
  then show ?thesis using Q by (simp add: linear_search_def node_type_def numeral_2_eq_2[symmetric] del: append_cells.simps)
qed

end
