(* ===== verification/PageEdits.thy ===== *)
theory PageEdits
  imports PageProps
begin

text \<open>
  Changing a page in place: DeleteCell takes one cell out, deleting and reinserting gives a key a
  longer value, and the space that FreeSpace reports has room for a cell but not for its pointer.
\<close>

section \<open>Deleting a cell\<close>

lemma delete_shift_spec:
  "ptr_off n \<le> length p \<Longrightarrow>
   \<exists>q. delete_shift p j n = Some q \<and> length q = length p \<and>
     (\<forall>off k. off + k \<le> ptr_off j \<or> ptr_off (n - 1) \<le> off \<longrightarrow> sl q off k = sl p off k) \<and>
     (\<forall>i. j \<le> i \<and> i + 1 < n \<longrightarrow> u16_at q (ptr_off i) = u16_at p (ptr_off (i + 1)))"
proof (induction p j n rule: delete_shift.induct)
  case (1 p j n)
  show ?case
  proof (cases "j + 1 < n")
    case False
    then have "delete_shift p j n = Some p" by (simp add: delete_shift.simps[of p j n])
    with False show ?thesis by (intro exI[of _ p]) auto
  next
    case True
    let ?v = "u16_at p (ptr_off (j + 1))"
    let ?p1 = "upd p (ptr_off j) (le_put 2 ?v)"
    have c: "CellPtr p (j + 1) = Some ?v" and w: "SetCellPtr p j ?v = Some ?p1"
      using "1.prems" True header_reads(5)[of "j + 1" p] header_writes(5)[of j p ?v] by simp_all
    have v: "?v < 65536" using u16_at_less[of "ptr_off (j + 1)" p] "1.prems" True by simp
    have pre: "ptr_off n \<le> length ?p1" using "1.prems" True by simp
    obtain q where q: "delete_shift ?p1 (j + 1) n = Some q" "length q = length ?p1"
      "\<forall>off k. off + k \<le> ptr_off (j + 1) \<or> ptr_off (n - 1) \<le> off \<longrightarrow> sl q off k = sl ?p1 off k"
      "\<forall>i. j + 1 \<le> i \<and> i + 1 < n \<longrightarrow> u16_at q (ptr_off i) = u16_at ?p1 (ptr_off (i + 1))"
      using "1.IH"[OF True c w pre] by blast
    have "delete_shift p j n = Some q" using True c w q(1) by (simp add: delete_shift.simps[of p j n])
    moreover have "length q = length p" using q(2) "1.prems" True by simp
    moreover have "sl q off k = sl p off k" if "off + k \<le> ptr_off j \<or> ptr_off (n - 1) \<le> off" for off k
    proof -
      have "sl q off k = sl ?p1 off k" using q(3) that by auto
      also have "\<dots> = sl p off k" using that True "1.prems" by (auto intro: sl_upd_before sl_upd_after)
      finally show ?thesis .
    qed
    moreover have "u16_at q (ptr_off i) = u16_at p (ptr_off (i + 1))" if "j \<le> i" "i + 1 < n" for i
    proof (cases "i = j")
      case True
      have "u16_at q (ptr_off j) = u16_at ?p1 (ptr_off j)" using q(3) by (simp add: u16_at_def)
      then show ?thesis using True v that "1.prems" by (simp add: slice_simps)
    next
      case False
      then have "u16_at q (ptr_off i) = u16_at ?p1 (ptr_off (i + 1))" using q(4) that by simp
      also have "\<dots> = u16_at p (ptr_off (i + 1))"
        using False that "1.prems" by (auto intro: u16_at_other)
      finally show ?thesis .
    qed
    ultimately show ?thesis by blast
  qed
qed

text \<open>One element taken out of a list.\<close>

definition without :: "nat \<Rightarrow> 'a list \<Rightarrow> 'a list" where
  "without i xs = take i xs @ drop (Suc i) xs"

lemma without_props:
  assumes "i < length xs"
  shows "length (without i xs) = length xs - 1" "map f (without i xs) = without i (map f xs)"
    "j < length xs - 1 \<Longrightarrow> without i xs ! j = xs ! (if j < i then j else j + 1)"
    "without i (xs @ [y]) = without i xs @ [y]" "set (without i xs) \<subseteq> set xs"
  using assms by (auto simp: without_def nth_append take_map drop_map min_def dest: in_set_takeD in_set_dropD)

lemma page_rep_delete:
  assumes rep: "page_rep enc leaf p ocs c" and i: "i < length ocs"
    and q: "length q = length p"
    and same: "\<forall>off k. off + k \<le> ptr_off i \<or> ptr_off (length ocs - 1) \<le> off \<longrightarrow> sl q off k = sl p off k"
    and hi: "\<forall>j. i \<le> j \<and> j + 1 < length ocs \<longrightarrow> u16_at q (ptr_off j) = u16_at p (ptr_off (j + 1))"
  defines "r \<equiv> upd q 1 (le_put 2 (length ocs - 1))"
  shows "page_rep enc leaf r (without i ocs) c" "u32_at r 5 = u32_at p 5" "u32_at r 9 = u32_at p 9"
    "length r = length p"
proof -
  note R = page_repD[OF rep]
  let ?n = "length ocs" and ?os = "without i ocs"
  have l: "length r = length p" "13 \<le> length q" using q R(8) by (simp_all add: r_def)
  then show "length r = length p" by simp
  have hd: "sl r a b = sl p a b" if "a + b \<le> 1 \<or> 3 \<le> a \<and> a + b \<le> 13" for a b
  proof -
    have "sl r a b = sl q a b" using that l(2) by (auto simp: r_def slice_simps)
    also have "\<dots> = sl p a b" using same that by auto
    finally show ?thesis .
  qed
  show "u32_at r 5 = u32_at p 5" "u32_at r 9 = u32_at p 9" using hd[of 5 4] hd[of 9 4] by (simp_all add: u32_at_def)
  have t: "r ! 0 = p ! 0"
  proof -
    have "p \<noteq> []" "r \<noteq> []" using R(8) l by auto
    then show ?thesis using hd[of 0 1] by (cases p; cases r) (simp_all add: sl_def)
  qed
  have n: "u16_at r 1 = ?n - 1" using l(2) R(1,5,6) by (simp add: r_def slice_simps)
  have c: "u16_at r 3 = c" using hd[of 3 2] R(4) by (simp add: u16_at_def)
  have ptr: "ptrs r (?n - 1) = map fst ?os"
  proof (rule ptrs_eqI)
    fix j assume j: "j < ?n - 1"
    have "u16_at r (ptr_off j) = u16_at q (ptr_off j)" using j q R(5,6) by (simp add: r_def slice_simps)
    also have "\<dots> = u16_at p (ptr_off (if j < i then j else j + 1))"
      using same hi j by (cases "j < i") (simp_all add: u16_at_def)
    also have "\<dots> = map fst ocs ! (if j < i then j else j + 1)"
      by (rule page_rep_nth_ptr[OF rep]) (use j i in \<open>simp split: if_split; linarith\<close>)
    also have "\<dots> = map fst ?os ! j"
      using without_props(1)[OF i] without_props(3)[OF i, of j] j i by simp
    finally show "u16_at r (ptr_off j) = map fst ?os ! j" .
  qed (use without_props(1)[OF i] in simp)
  have "cell_at enc leaf r y" if y: "y \<in> set ocs" for y
  proof -
    have f: "c \<le> fst y" "ptr_off ?n \<le> fst y" using R(5) R(9)[OF y] by simp_all
    have "sl r (fst y) k = sl q (fst y) k" for k using f(2) l(2) by (simp add: r_def slice_simps)
    also have "\<dots> k = sl p (fst y) k" for k using same f(2) by simp
    finally show ?thesis using cell_at_same[OF R(10)[OF y] l(1)] by simp
  qed
  moreover have "sorted_wrt (apart enc leaf) ?os"
  proof -
    have "ocs = take i ocs @ ocs ! i # drop (Suc i) ocs" using id_take_nth_drop[OF i] .
    then have "sorted_wrt (apart enc leaf) (take i ocs @ ocs ! i # drop (Suc i) ocs)" using R(11) by simp
    then show ?thesis by (auto simp: without_def sorted_wrt_append)
  qed
  ultimately show "page_rep enc leaf r ?os c"
    unfolding page_rep_def without_props(1)[OF i]
    using R(1,2,5,6,9) l(1) t n c ptr without_props(5)[OF i] by auto
qed

context cell_codec
begin

lemma DeleteCell_spec:
  assumes rep: "node_rep enc norm leaf p cs c" and i: "i < length cs"
  obtains q where "DeleteCell p i = Some q" "length q = length p" "node_rep enc norm leaf q (without i cs) c"
    "u32_at q 5 = u32_at p 5" "u32_at q 9 = u32_at p 9"
proof -
  obtain ocs where ocs: "page_rep enc leaf p ocs c" "map snd ocs = cs" "length ocs = length cs"
    "\<forall>x \<in> set cs. cell_ok x \<and> norm leaf x = x"
    using node_rep_ocs[OF rep] .
  note N = node_repD[OF rep]
  have i': "i < length ocs" using i ocs(3) by simp
  have "ptr_off (length cs) \<le> length p" using N(3,4) by simp
  then obtain q where q: "delete_shift p i (length cs) = Some q" "length q = length p"
    "\<forall>off k. off + k \<le> ptr_off i \<or> ptr_off (length cs - 1) \<le> off \<longrightarrow> sl q off k = sl p off k"
    "\<forall>j. i \<le> j \<and> j + 1 < length cs \<longrightarrow> u16_at q (ptr_off j) = u16_at p (ptr_off (j + 1))"
    using delete_shift_spec by blast
  let ?r = "upd q 1 (le_put 2 (length ocs - 1))"
  note D = page_rep_delete[OF ocs(1) i' q(2) q(3,4)[folded ocs(3)]]
  have e: "int (length cs) - 1 = int (length ocs - 1)" using i ocs(3) by simp
  have "length ocs - 1 < 65536" using N(1,3,4) ocs(3) by linarith
  then have u: "u16 (int (length cs) - 1) = length ocs - 1" unfolding e by (rule u16_int)
  have del: "DeleteCell p i = Some ?r" using N(2,5) q(1,2) u by (simp add: DeleteCell_def page_defs)
  have "map snd (without i ocs) = without i cs" using without_props(2)[OF i', of snd] ocs(2) by simp
  moreover have "\<forall>x \<in> set (without i cs). cell_ok x \<and> norm leaf x = x" using ocs(4) without_props(5)[OF i] by blast
  ultimately have "node_rep enc norm leaf ?r (without i cs) c" unfolding node_rep_def using D(1) by blast
  then show thesis using that del D(2-4) by blast
qed

text \<open>Deleting and, in a leaf, inserting again under the same key.\<close>

lemma inserted_without:
  assumes "i < length cs"
  shows "inserted True (without i cs) i x rc = cs[i := x]"
  using assms by (simp add: inserted_def without_def upd_conv_take_nth_drop min_absorb2)

lemma node_children:
  assumes rep: "node_rep enc norm False p cs c"
  shows "mapM (\<lambda>j. ChildAt acc p j (length cs)) [0..<length cs + 1] = Some (map (\<lambda>x. snd (snd x)) cs @ [u32_at p 5])"
proof -
  let ?ks = "map (\<lambda>x. snd (snd x)) cs @ [u32_at p 5]"
  have "mapM (\<lambda>j. ChildAt acc p j (length cs)) [0..<length cs + 1] = Some (map ((!) ?ks) [0..<length cs + 1])"
    by (rule mapM_Some) (use node_child[OF rep] in \<open>auto simp: nth_append simp del: upt_Suc\<close>)
  also have "map ((!) ?ks) [0..<length cs + 1] = ?ks" using map_nth[of ?ks] by (simp del: upt_Suc)
  finally show ?thesis .
qed

lemma delete_reinsert:
  assumes page: "13 \<le> length p" "length p < 65536" "\<forall>x \<in> set xs. cell_ok x"
    "ptr_off (length xs) + cells_size acc leaf xs \<le> length p"
    "InitPage p (node_type leaf) = Some p0" "append_cells acc xs p0 = Some q"
    and i: "i < length xs" and cs: "mapM (\<lambda>j. ReadCell acc q j leaf) [0..<length xs] = Some cs"
  shows "\<exists>r. DeleteCell q i = Some r \<and> NumCells r = Some (length xs - 1) \<and> isLeaf r = Some leaf \<and>
    mapM (\<lambda>j. ReadCell acc r j leaf) [0..<length xs - 1] = Some (without i cs) \<and>
    Rightmost r = Rightmost q \<and> NextLeaf r = NextLeaf q \<and>
    FreeSpace r (length xs - 1) = map_option (\<lambda>f. f + 2) (FreeSpace q (length xs)) \<and>
    (\<not> leaf \<longrightarrow> (\<exists>ks. mapM (\<lambda>j. ChildAt acc q j (length xs)) [0..<length xs + 1] = Some ks \<and>
       mapM (\<lambda>j. ChildAt acc r j (length xs - 1)) [0..<length xs] = Some (without i ks))) \<and>
    (leaf \<and> glen v < 65536 \<and> ptr_off (length xs) + cells_size acc leaf xs + CellSize acc leaf v \<le> length p \<longrightarrow>
       (\<exists>s. insert_cell acc r (length xs - 1) i (fst (xs ! i)) v 0 = Some s \<and> NumCells s = Some (length xs) \<and>
          mapM (\<lambda>j. ReadCell acc s j leaf) [0..<length xs] = Some (cs[i := norm leaf (fst (xs ! i), v, 0)])))"
proof -
  let ?n = "length xs" and ?c = "length p - cells_size acc leaf xs"
  have rep: "node_rep enc norm leaf q (map (norm leaf) xs) ?c"
    by (rule page_cells[OF page(1-4)]) (use page(5,6) in simp)
  note N = node_repD[OF rep] and M = node_mapM[OF rep]
  have c: "cs = map (norm leaf) xs" "length cs = ?n" using M cs by simp_all
  have rep': "node_rep enc norm leaf q cs ?c" and i': "i < length cs" using rep i c by simp_all
  obtain r where r: "DeleteCell q i = Some r" "length r = length q" "node_rep enc norm leaf r (without i cs) ?c"
    "u32_at r 5 = u32_at q 5" "u32_at r 9 = u32_at q 9"
    by (rule DeleteCell_spec[OF rep' i'])
  have w: "length (without i cs) = ?n - 1" using without_props(1)[OF i'] c(2) by simp
  note D = node_repD[OF r(3)]
  have "FreeSpace r (?n - 1) = map_option (\<lambda>f. f + 2) (FreeSpace q ?n)"
    using D(8)[of "?n - 1"] N(8)[of ?n] i by (simp add: of_nat_diff)
  moreover have "\<exists>ks. mapM (\<lambda>j. ChildAt acc q j ?n) [0..<?n + 1] = Some ks \<and>
      mapM (\<lambda>j. ChildAt acc r j (?n - 1)) [0..<?n] = Some (without i ks)" if "\<not> leaf"
  proof -
    have L: "leaf = False" using that by simp
    let ?lc = "\<lambda>x :: cell. snd (snd x)"
    have "mapM (\<lambda>j. ChildAt acc q j ?n) [0..<?n + 1] = Some (map ?lc cs @ [u32_at q 5])"
      using node_children[of q cs ?c] rep' c(2) unfolding L by simp
    moreover have "mapM (\<lambda>j. ChildAt acc r j (?n - 1)) [0..<?n] = Some (map ?lc (without i cs) @ [u32_at q 5])"
    proof -
      have "?n - 1 + 1 = ?n" using i by simp
      then show ?thesis using node_children[of r "without i cs" ?c] r(3,4) w unfolding L by metis
    qed
    moreover have "map ?lc (without i cs) @ [u32_at q 5] = without i (map ?lc cs @ [u32_at q 5])"
      using without_props(2)[OF i', of ?lc] without_props(4)[of i "map ?lc cs" "u32_at q 5"] i' by simp
    ultimately show ?thesis by metis
  qed
  moreover have "\<exists>s. insert_cell acc r (?n - 1) i (fst (xs ! i)) v 0 = Some s \<and> NumCells s = Some ?n \<and>
      mapM (\<lambda>j. ReadCell acc s j leaf) [0..<?n] = Some (cs[i := norm leaf (fst (xs ! i), v, 0)])"
    if v: "leaf \<and> glen v < 65536 \<and> ptr_off ?n + cells_size acc leaf xs + CellSize acc leaf v \<le> length p"
  proof -
    have L: "leaf = True" using v by simp
    have v': "glen v < 65536" "ptr_off ?n + cells_size acc leaf xs + CellSize acc leaf v \<le> length p"
      using v by blast+
    have n: "Suc (length (without i cs)) = ?n" using w i by simp
    have a: "i \<le> length (without i cs)" "glen v < 65536" "(0 :: nat) < 2 ^ 32"
      "ptr_off (Suc (length (without i cs))) + CellSize acc leaf v \<le> ?c"
      unfolding n using v' w i by simp_all
    obtain s where s: "insert_cell acc r (length (without i cs)) i (fst (xs ! i)) v 0 = Some s"
      "node_rep enc norm leaf s (inserted leaf (without i cs) i
        (norm leaf (fst (xs ! i), v, new_child leaf r (without i cs) i)) 0) (?c - CellSize acc leaf v)"
      by (rule insert_cell_spec[OF r(3) a])
    have e: "inserted leaf (without i cs) i (norm leaf (fst (xs ! i), v, new_child leaf r (without i cs) i)) 0 =
        cs[i := norm leaf (fst (xs ! i), v, 0)]"
      using inserted_without[OF i'] L by (simp add: new_child_def)
    show ?thesis using s(1) node_mapM[OF s(2)[unfolded e]] node_repD(5)[OF s(2)[unfolded e]] w c(2) by simp
  qed
  moreover have "mapM (\<lambda>j. ReadCell acc r j leaf) [0..<?n - 1] = Some (without i cs)"
    using node_mapM[OF r(3)] w by simp
  moreover have "NumCells r = Some (?n - 1)" "isLeaf r = Some leaf" "Rightmost r = Rightmost q" "NextLeaf r = NextLeaf q"
    using r(4,5) D(5,6,9,10) N(9,10) w by simp_all
  ultimately show ?thesis using r(1) by blast
qed

end

section \<open>Appending an entry to a leaf\<close>

context cell_codec
begin

lemma append_room:
  assumes rep: "node_rep enc norm True q cs c" and v: "glen v < 65536"
    and fit: "int (CellSize acc True v) + 2 \<le> int c - int (ptr_off (length cs))"
  shows "\<exists>r. insert_cell acc q (length cs) (length cs) k v 0 = Some r \<and> NumCells r = Some (length cs + 1) \<and>
    mapM (\<lambda>i. ReadCell acc r i True) [0..<length cs + 1] = Some (cs @ [norm True (k, v, 0)])"
proof -
  have a: "length cs \<le> length cs" "(0 :: nat) < 2 ^ 32"
    "ptr_off (Suc (length cs)) + CellSize acc True v \<le> c" using fit by simp_all
  obtain r where r: "insert_cell acc q (length cs) (length cs) k v 0 = Some r"
    "node_rep enc norm True r (inserted True cs (length cs)
      (norm True (k, v, new_child True q cs (length cs))) 0) (c - CellSize acc True v)"
    by (rule insert_cell_spec[OF rep a(1) v a(2,3)])
  have e: "inserted True cs (length cs) (norm True (k, v, new_child True q cs (length cs))) 0 =
      cs @ [norm True (k, v, 0)]"
    by (simp add: inserted_def new_child_def)
  show ?thesis using r(1) node_mapM[OF r(2)[unfolded e]] node_repD(5)[OF r(2)[unfolded e]] by simp
qed

end

text \<open>Overwriting the first two bytes of a key.\<close>

lemma le_get_append: "le_get (as @ bs) = le_get as + 256 ^ length as * le_get bs"
  by (induction as) (simp_all add: algebra_simps)

lemma le_put_append: "le_put (m + n) x = le_put m x @ le_put n (x div 256 ^ m)"
  by (induction m arbitrary: x) (simp_all add: div_mult2_eq)

lemma key_bits_small: "m < 2 ^ 64 \<Longrightarrow> key_bits (bits_key m) = m"
  by (simp add: key_bits_def bits_key_def unsigned_of_nat take_bit_nat_eq_self)

lemma clobbered_key:
  assumes "off < 65536"
  shows "key_bits (bits_key (le_get (le_put 2 off @ drop 2 (le_put 8 (key_bits k))))) =
    key_bits k div 65536 * 65536 + off"
proof -
  have w: "key_bits k div 65536 < 256 ^ 6" using key_bits_less[of k] by (simp add: less_mult_imp_div_less)
  have "drop 2 (le_put 8 (key_bits k)) = le_put 6 (key_bits k div 65536)"
    using le_put_append[of 2 6 "key_bits k"] by (simp del: le_put.simps)
  then have g: "le_get (le_put 2 off @ drop 2 (le_put 8 (key_bits k))) = key_bits k div 65536 * 65536 + off"
    using assms w by (simp add: le_get_append le_get_put del: le_put.simps)
  have "key_bits k div 65536 * 65536 + off < 2 ^ 64" using w assms by simp
  then show ?thesis unfolding g by (rule key_bits_small)
qed

lemma bp_exact_fit:
  assumes rep: "node_rep BPTree_cell BPTree_norm True q cs c" and v: "glen v < 65536"
    and fit: "int (CellSize BPTreeAcc True v) = int c - int (ptr_off (length cs))"
  shows "\<exists>r k'. insert_cell BPTreeAcc q (length cs) (length cs) k v 0 = Some r \<and> NumCells r = Some (length cs + 1) \<and>
    ReadCell BPTreeAcc r (length cs) True = Some (k', Some (gbytes v), 0) \<and>
    key_bits k' = key_bits k div 65536 * 65536 + ptr_off (length cs) \<and>
    (k' = k \<longleftrightarrow> key_bits k mod 65536 = ptr_off (length cs))"
proof -
  let ?n = "length cs" and ?x = "(k, v, 0)"
  note N = bp.node_repD[OF rep]
  obtain off where off_def: "off = ptr_off ?n" by blast
  have c: "c = off + (10 + glen v)" using fit N(3) off_def by simp
  have off: "off + (10 + glen v) \<le> length q" "off < 65536" "Suc ?n < 65536" "13 \<le> off"
    using N(1,4) c off_def by simp_all
  obtain ocs where ocs: "page_rep BPTree_cell True q ocs c" by (rule bp.node_rep_ocs[OF rep])
  have cc: "CellContent q = Some c" using page_repD(4,8)[OF ocs] by (simp add: page_defs)
  define q1 where "q1 = upd q 3 (le_put 2 off)"
  define q2 where "q2 = upd q1 off (BPTree_cell True ?x)"
  define q3 where "q3 = upd q2 off (le_put 2 off)"
  define q4 where "q4 = upd q3 5 (le_put 4 0)"
  define r where "r = upd q4 1 (le_put 2 (Suc ?n))"
  have enc: "length (BPTree_cell True ?x) = 10 + glen v" using bp.enc_length[of True k v 0] by simp
  have l: "length q1 = length q" "length q2 = length q" "length q3 = length q" "length q4 = length q"
    "length r = length q"
    using off enc N(2) by (simp_all add: q1_def q2_def q3_def q4_def r_def)
  have ins: "insert_cell BPTreeAcc q ?n ?n k v 0 = Some r"
  proof -
    have "AllocCell q (10 + glen v) = Some (int off, q1)"
      using cc c off(2) N(2) by (simp add: AllocCell_def Let_def page_defs q1_def)
    moreover have "isLeaf q1 = Some True"
    proof -
      have "q1 ! 0 = q ! 0" using N(2) by (simp add: q1_def slice_simps)
      then show ?thesis using N(2,6) l(1) by (simp add: isLeaf_def page_defs)
    qed
    moreover have "BPTree_WriteCell q1 (int off) k v 0 True = Some q2"
      using bp.write_cell[of off True v q1 k 0] off l by (simp add: q2_def)
    moreover have "SetCellPtr q2 ?n (u16 (int off)) = Some q3"
      using header_writes(5)[of ?n q2 off] u16_int[OF off(2)] off l(2) off_def by (simp add: q3_def)
    moreover have "SetRightmost q3 (u32 0) = Some q4" using N(2) l(3) by (simp add: page_defs q4_def u32_def)
    moreover have "SetNumCells q4 (int ?n + 1) = Some r" using N(2) l(4) off(3) by (simp add: page_defs r_def)
    moreover have "insert_shift q ?n ?n = Some q" by (simp add: insert_shift.simps)
    ultimately show ?thesis using N(6) by (simp add: insert_cell_def)
  qed
  have "cell_at BPTree_cell True q2 (off, ?x)" "cell_ok ?x"
    using off l(1) enc v by (simp_all add: cell_at_def q2_def cell_ok_def sl_upd_same)
  note F = BPTree_leaf_fields[OF this]
  have r_above: "sl r a b = sl q3 a b" if "13 \<le> a" for a b
    using that l N(2) by (simp add: r_def q4_def slice_simps)
  have "sl r off 8 = le_put 2 off @ drop 2 (le_put 8 (key_bits k))"
  proof -
    have s: "sl q off 8 = sl q off 2 @ sl q (off + 2) 6" if "length q = length r" for q
      using sl_append[of off 2 6 q] off(1) l that by simp
    have "sl q3 off 2 = le_put 2 off" using off l by (simp add: q3_def slice_simps)
    moreover have "sl q3 (off + 2) 6 = sl q2 (off + 2) 6" using off l by (simp add: q3_def slice_simps)
    moreover have "sl q2 (off + 2) 6 = drop 2 (le_put 8 (key_bits k))"
      using sl_sub[of 2 6 8 q2 off] F(2)
      by (simp add: sl_def del: le_put.simps)
    ultimately show ?thesis using s[of q3] r_above[OF off(4)] l by simp
  qed
  moreover have "sl r (off + 8) 2 = le_put 2 (glen v)" "sl r (off + 10) (glen v) = gbytes v"
    using F(3,4) r_above[of "off + 8"] r_above[of "off + 10"] off l by (simp_all add: q3_def slice_simps)
  moreover have "CellPtr r ?n = Some off"
  proof -
    have "u16_at r off = off"
      using r_above[OF off(4)] off l by (simp add: u16_at_def q3_def slice_simps le_get_put del: le_put.simps)
    then show ?thesis using off off_def l(5) by (simp add: page_defs)
  qed
  ultimately have read: "ReadCell BPTreeAcc r ?n True =
      Some (bits_key (le_get (le_put 2 off @ drop 2 (le_put 8 (key_bits k)))), Some (gbytes v), 0)"
    using off l(5) v rd_nat[of r "off + 8" 2] rd_nat[of r "off + 10" "glen v"]
    by (simp add: BPTree_ReadCell_def le_get_put del: le_put.simps)
  let ?k = "bits_key (le_get (le_put 2 off @ drop 2 (le_put 8 (key_bits k))))"
  have K: "key_bits ?k = key_bits k div 65536 * 65536 + off" by (rule clobbered_key[OF off(2)])
  have "?k = k \<longleftrightarrow> key_bits ?k = key_bits k" by (metis bits_key_bits)
  also have "\<dots> \<longleftrightarrow> key_bits k mod 65536 = off" unfolding K using div_mult_mod_eq[of "key_bits k" 65536] by linarith
  finally have same: "?k = k \<longleftrightarrow> key_bits k mod 65536 = off" .
  have "NumCells r = Some (?n + 1)" using N(2) l off(3) by (simp add: page_defs r_def slice_simps)
  then show ?thesis using ins read K same unfolding off_def[symmetric] by blast
qed

section \<open>Properties\<close>

text \<open>
  C38. DeleteCell takes exactly one cell out of a page of either tree, for cells of any sizes: the
  other cells stay readable in their order, the header keeps the type, the rightmost child and the
  next leaf, and only the space of the cell's pointer is free again. In a leaf with enough space,
  inserting the key again with a value of any length changes exactly this cell. In an internal node
  the child to the left of the key is gone from the children, and with it its subtree: this is what
  giving a longer value to a key of an internal B-tree node does.
\<close>

theorem delete_and_reinsert:
  assumes "13 \<le> length p" "length p < 65536" "\<forall>x \<in> set xs. cell_ok x" "acc = BTreeAcc \<or> acc = BPTreeAcc"
    "ptr_off (length xs) + cells_size acc leaf xs \<le> length p"
    "InitPage p (node_type leaf) = Some p0" "append_cells acc xs p0 = Some q" "i < length xs"
    "mapM (\<lambda>j. ReadCell acc q j leaf) [0..<length xs] = Some cs"
  shows "\<exists>r. DeleteCell q i = Some r \<and> NumCells r = Some (length xs - 1) \<and> isLeaf r = Some leaf \<and>
    mapM (\<lambda>j. ReadCell acc r j leaf) [0..<length xs - 1] = Some (without i cs) \<and>
    Rightmost r = Rightmost q \<and> NextLeaf r = NextLeaf q \<and>
    FreeSpace r (length xs - 1) = map_option (\<lambda>f. f + 2) (FreeSpace q (length xs)) \<and>
    (\<not> leaf \<longrightarrow> (\<exists>ks. mapM (\<lambda>j. ChildAt acc q j (length xs)) [0..<length xs + 1] = Some ks \<and>
       mapM (\<lambda>j. ChildAt acc r j (length xs - 1)) [0..<length xs] = Some (without i ks))) \<and>
    (leaf \<and> glen v < 65536 \<and> ptr_off (length xs) + cells_size acc leaf xs + CellSize acc leaf v \<le> length p \<longrightarrow>
       (\<exists>s. insert_cell acc r (length xs - 1) i (fst (xs ! i)) v 0 = Some s \<and> NumCells s = Some (length xs) \<and>
          mapM (\<lambda>j. ReadCell acc s j leaf) [0..<length xs] = Some (cs[i := (fst (xs ! i), Some (gbytes v), 0)])))"
proof -
  have n: "BTree_norm True (k, v, 0) = (k, Some (gbytes v), 0)" "BPTree_norm True (k, v, 0) = (k, Some (gbytes v), 0)" for k
    by (simp_all add: BTree_norm_def BPTree_norm_def)
  show ?thesis
    using assms(4)
  proof
    assume a: "acc = BTreeAcc"
    show ?thesis
      using bt.delete_reinsert[OF assms(1-3) assms(5-9)[unfolded a], of v] n unfolding a by (cases leaf) simp_all
  next
    assume a: "acc = BPTreeAcc"
    show ?thesis
      using bp.delete_reinsert[OF assms(1-3) assms(5-9)[unfolded a], of v] n unfolding a by (cases leaf) simp_all
  qed
qed

theorem delete_and_reinsert_witness:
  "\<exists>p0 q r s. InitPage (replicate 64 9) TypeLeaf = Some p0 \<and>
     append_cells BPTreeAcc [(-7, Some [1], 0), (4, None, 0)] p0 = Some q \<and> DeleteCell q 0 = Some r \<and>
     NumCells r = Some 1 \<and> mapM (\<lambda>j. ReadCell BPTreeAcc r j True) [0] = Some [(4, Some [], 0)] \<and>
     insert_cell BPTreeAcc r 1 0 (-7) (Some [1, 2, 3]) 0 = Some s \<and>
     mapM (\<lambda>j. ReadCell BPTreeAcc s j True) [0, 1] = Some [(-7, Some [1, 2, 3], 0), (4, Some [], 0)]"
proof -
  let ?xs = "[(-7, Some [1], 0), (4, None, 0)] :: cell list"
  have ok: "\<forall>x \<in> set ?xs. cell_ok x" "ptr_off (length ?xs) + cells_size BPTreeAcc True ?xs \<le> length (replicate 64 9 :: page)"
    by (simp_all add: cell_ok_def)
  obtain p0 q where Q: "InitPage (replicate 64 9) (node_type True) = Some p0" "append_cells BPTreeAcc ?xs p0 = Some q"
    "mapM (\<lambda>j. ReadCell BPTreeAcc q j True) [0..<length ?xs] = Some (map (BPTree_norm True) ?xs)"
    using bp.page_round_trip[of "replicate 64 9" ?xs True, OF _ _ ok] by auto
  have i: "0 < length ?xs" by simp
  show ?thesis
    using delete_and_reinsert[OF _ _ ok(1) disjI2[OF refl] ok(2) Q(1,2) i Q(3), of "Some [1, 2, 3]"] Q(1,2)
    by (simp add: node_type_def without_def BPTree_norm_def upt_rec numeral_2_eq_2[symmetric] del: append_cells.simps) blast
qed

text \<open>
  C39. How much FreeSpace promises: FreeSpace counts the bytes between the pointers and the cells, and
  doInsert accepts a cell that is no larger. Appending an entry to a leaf of the B+ tree, whatever is
  in it, is right if two more bytes are free: all entries read back. If the cell fits exactly, the
  call reports success too, but the pointer of the new cell lies on its first two bytes: the entry
  reads back under a key whose low 16 bits are the offset of the pointer, so it is lost unless the
  key happens to have these bits.
\<close>

theorem free_space_boundary:
  assumes "13 \<le> length p" "length p < 65536" "\<forall>x \<in> set xs. cell_ok x"
    "ptr_off (length xs) + cells_size BPTreeAcc True xs \<le> length p"
    "InitPage p TypeLeaf = Some p0" "append_cells BPTreeAcc xs p0 = Some q"
    "FreeSpace q (length xs) = Some free" "glen v < 65536"
  shows "(int (CellSize BPTreeAcc True v) + 2 \<le> free \<longrightarrow>
      (\<exists>r. insert_cell BPTreeAcc q (length xs) (length xs) k v 0 = Some r \<and> NumCells r = Some (length xs + 1) \<and>
         mapM (\<lambda>i. ReadCell BPTreeAcc r i True) [0..<length xs + 1] =
           Some (map (\<lambda>(k, v, _). (k, Some (gbytes v), 0)) xs @ [(k, Some (gbytes v), 0)]))) \<and>
    (int (CellSize BPTreeAcc True v) = free \<longrightarrow>
      (\<exists>r k'. insert_cell BPTreeAcc q (length xs) (length xs) k v 0 = Some r \<and> NumCells r = Some (length xs + 1) \<and>
         ReadCell BPTreeAcc r (length xs) True = Some (k', Some (gbytes v), 0) \<and>
         key_bits k' = key_bits k div 65536 * 65536 + ptr_off (length xs) \<and>
         (k' = k \<longleftrightarrow> key_bits k mod 65536 = ptr_off (length xs))))"
proof -
  let ?n = "length xs" and ?c = "length p - cells_size BPTreeAcc True xs"
  have t: "node_type True = TypeLeaf" by (simp add: node_type_def)
  have norm: "map (BPTree_norm True) xs = map (\<lambda>(k, v, _). (k, Some (gbytes v), 0)) xs"
    by (simp add: BPTree_norm_def)
  have rep: "node_rep BPTree_cell BPTree_norm True q (map (BPTree_norm True) xs) ?c"
    by (rule bp.page_cells[OF assms(1-4), unfolded t]) (use assms(5,6) in simp)
  have k: "BPTree_norm True (k, v, 0) = (k, Some (gbytes v), 0)" by (simp add: BPTree_norm_def)
  have free: "free = int ?c - int (ptr_off ?n)" using bp.node_repD(8)[OF rep, of ?n] assms(7) by simp
  show ?thesis
    using bp.append_room[OF rep assms(8), of k] bp_exact_fit[OF rep assms(8), of k]
    unfolding free norm length_map k by blast
qed

theorem free_space_boundary_witness:
  "\<exists>p0 q r k'. InitPage (replicate 25 9) TypeLeaf = Some p0 \<and> FreeSpace p0 0 = Some 12 \<and>
     insert_cell BPTreeAcc p0 0 0 7 (Some [1, 2]) 0 = Some r \<and>
     ReadCell BPTreeAcc r 0 True = Some (k', Some [1, 2], 0) \<and> k' \<noteq> 7"
proof -
  obtain p0 where P: "InitPage (replicate 25 9) TypeLeaf = Some p0" "FreeSpace p0 0 = Some 12"
    using bp.page_round_trip[of "replicate 25 9" "[]" True] by (auto simp: node_type_def)
  have "key_bits (7 :: key) = 7" by (simp add: key_bits_def)
  then show ?thesis
    using free_space_boundary[of "replicate 25 9" "[]" p0 p0 12 "Some [1, 2]" 7] P by auto
qed

end
