(* ===== verification/Clients.thy ===== *)
theory Clients
  imports Index
begin

text \<open>
  Clients with several open iterators. The interface lets a client open any number of iterators
  and advance them in any order, between lookups on the same index. The client is a transition
  system over the state of the index and the iterators that are open; every step is one call of
  the interface with its result. An insertion invalidates the open iterators.
\<close>

section \<open>Steps of a client\<close>

datatype client_request = QInsert key gobytes | QGet key | QRange key key | QNext nat

datatype client_answer =
    AInsert "go_error + unit"
  | AGet "go_error + gobytes"
  | ARange "go_error option"
  | AEntry key gobytes
  | AEnd "go_error option"

inductive client_step :: "('i, 's) Index \<Rightarrow> 's \<times> 'i list \<Rightarrow> client_request \<times> client_answer \<Rightarrow>
    's \<times> 'i list \<Rightarrow> bool" for ix where
  insert: "ix_Insert ix k v s = Some (r, s') \<Longrightarrow> client_step ix (s, its) (QInsert k v, AInsert r) (s', [])"
| get: "ix_Get ix k s = Some (r, s') \<Longrightarrow> client_step ix (s, its) (QGet k, AGet r) (s', its)"
| range: "ix_Range ix a b s = Some (Inr it, s') \<Longrightarrow>
    client_step ix (s, its) (QRange a b, ARange None) (s', its @ [it])"
| range_error: "ix_Range ix a b s = Some (Inl e, s') \<Longrightarrow>
    client_step ix (s, its) (QRange a b, ARange (Some e)) (s', its)"
| next_entry: "i < length its \<Longrightarrow> iter_Next (ix_Iter ix) (its ! i) s = Some ((True, it), s') \<Longrightarrow>
    iter_Key (ix_Iter ix) it s' = Some k \<Longrightarrow> iter_Value (ix_Iter ix) it s' = Some v \<Longrightarrow>
    client_step ix (s, its) (QNext i, AEntry k v) (s', its[i := it])"
| next_end: "i < length its \<Longrightarrow> iter_Next (ix_Iter ix) (its ! i) s = Some ((False, it), s') \<Longrightarrow>
    client_step ix (s, its) (QNext i, AEnd (iter_Error (ix_Iter ix) it)) (s', its[i := it])"

inductive_cases insert_stepE: "client_step ix (s, its) (QInsert k v, ans) c"
inductive_cases get_stepE: "client_step ix (s, its) (QGet k, ans) c"
inductive_cases range_stepE: "client_step ix (s, its) (QRange a b, ans) c"
inductive_cases next_stepE: "client_step ix (s, its) (QNext i, ans) c"

lemmas step_elims = insert_stepE get_stepE range_stepE next_stepE

inductive client_run :: "('i, 's) Index \<Rightarrow> 's \<times> 'i list \<Rightarrow> (client_request \<times> client_answer) list \<Rightarrow>
    's \<times> 'i list \<Rightarrow> bool" for ix where
  none: "client_run ix c [] c"
| more: "client_step ix c x c1 \<Longrightarrow> client_run ix c1 xs c2 \<Longrightarrow> client_run ix c (x # xs) c2"

inductive_simps run_Nil [simp]: "client_run ix c [] c'"
inductive_simps run_Cons: "client_run ix c (x # xs) c'"

text \<open>A request has one answer at most.\<close>

lemma client_step_unique:
  "client_step ix (s, its) (q, ans) c \<Longrightarrow> client_step ix (s, its) (q, ans') c' \<Longrightarrow> ans' = ans \<and> c' = c"
  by (cases q) (auto elim!: step_elims)

section \<open>The specification\<close>

text \<open>
  The state is the list of entries and, for every iterator, the entries it has yet to yield;
  \<open>None\<close> for an iterator that has come to its end, on which a client no longer calls Next.
\<close>

type_synonym client_spec = "(key \<times> gobytes) list \<times> (key \<times> gobytes) list option list"

fun spec_answer :: "(go_error + gobytes) \<Rightarrow> client_request \<Rightarrow> client_spec \<Rightarrow> client_answer" where
  "spec_answer missing (QInsert k v) _ = AInsert (Inr ())"
| "spec_answer missing (QGet k) (es, rems) = AGet (case map_of es k of None \<Rightarrow> missing | Some w \<Rightarrow> Inr w)"
| "spec_answer missing (QRange a b) _ = ARange None"
| "spec_answer missing (QNext i) (es, rems) =
     (case rems ! i of Some (x # _) \<Rightarrow> AEntry (fst x) (snd x) | _ \<Rightarrow> AEnd None)"

fun spec_move :: "(gobytes \<Rightarrow> gobytes) \<Rightarrow> client_request \<Rightarrow> client_spec \<Rightarrow> client_spec" where
  "spec_move stored (QInsert k v) (es, rems) = (ins_entry k (stored v) es, [])"
| "spec_move stored (QGet k) (es, rems) = (es, rems)"
| "spec_move stored (QRange a b) (es, rems) = (es, rems @ [Some (range_entries a b es)])"
| "spec_move stored (QNext i) (es, rems) =
     (es, rems[i := (case rems ! i of Some (_ # xs) \<Rightarrow> Some xs | _ \<Rightarrow> None)])"

fun spec_answers :: "(gobytes \<Rightarrow> gobytes) \<Rightarrow> (go_error + gobytes) \<Rightarrow> client_request list \<Rightarrow> client_spec \<Rightarrow>
    client_answer list" where
  "spec_answers stored missing [] a = []"
| "spec_answers stored missing (q # qs) a =
     spec_answer missing q a # spec_answers stored missing qs (spec_move stored q a)"

fun request_ok :: "(key \<Rightarrow> bool) \<Rightarrow> (key \<Rightarrow> key \<Rightarrow> bool) \<Rightarrow> (gobytes \<Rightarrow> bool) \<Rightarrow> client_request \<Rightarrow> client_spec \<Rightarrow> bool" where
  "request_ok okk okr okv (QInsert k v) _ = (okk k \<and> okv v)"
| "request_ok okk okr okv (QGet k) _ = okk k"
| "request_ok okk okr okv (QRange a b) _ = okr a b"
| "request_ok okk okr okv (QNext i) (es, rems) = (i < length rems \<and> rems ! i \<noteq> None)"

fun requests_ok :: "(key \<Rightarrow> bool) \<Rightarrow> (key \<Rightarrow> key \<Rightarrow> bool) \<Rightarrow> (gobytes \<Rightarrow> bool) \<Rightarrow> (gobytes \<Rightarrow> gobytes) \<Rightarrow>
    client_request list \<Rightarrow> client_spec \<Rightarrow> bool" where
  "requests_ok okk okr okv stored [] a = True"
| "requests_ok okk okr okv stored (q # qs) a =
     (request_ok okk okr okv q a \<and> requests_ok okk okr okv stored qs (spec_move stored q a))"

fun insertions :: "client_request list \<Rightarrow> nat" where
  "insertions [] = 0"
| "insertions (QInsert k v # qs) = Suc (insertions qs)"
| "insertions (_ # qs) = insertions qs"

lemma insertions_Cons: "insertions (q # qs) = insertions [q] + insertions qs"
  by (cases q) simp_all

lemma length_move: "length (fst (spec_move stored q a)) \<le> length (fst a) + insertions [q]"
  using length_ins_entry by (cases q; cases a) fastforce+

section \<open>Indexes that clients can share\<close>

text \<open>Reading leaves every open iterator where it is.\<close>

locale shared_index = ordered_index +
  assumes pending_same: "pending it s rem \<Longrightarrow> same s s' \<Longrightarrow> pending it s' rem"
    and get_same: "holds s es \<Longrightarrow> okk k \<Longrightarrow> ix_Get ix k s = Some (r, s') \<Longrightarrow> same s s'"
    and range_same: "holds s es \<Longrightarrow> okr a b \<Longrightarrow> ix_Range ix a b s = Some (Inr it, s') \<Longrightarrow> same s s'"
begin

definition stands :: "'b \<Rightarrow> 'a \<Rightarrow> (key \<times> gobytes) list option \<Rightarrow> bool" where
  "stands s it rem \<longleftrightarrow> (\<forall>es. rem = Some es \<longrightarrow> pending it s es)"

fun represents :: "'b \<times> 'a list \<Rightarrow> client_spec \<Rightarrow> bool" where
  "represents (s, its) (es, rems) \<longleftrightarrow> holds s es \<and> list_all2 (stands s) its rems"

lemma stands_same: "list_all2 (stands s) its rems \<Longrightarrow> same s s' \<Longrightarrow> list_all2 (stands s') its rems"
  by (erule list_all2_mono) (auto simp: stands_def intro: pending_same)

lemma range_exact:
  assumes "holds s es" "okr a b"
  obtains it s' where "ix_Range ix a b s = Some (Inr it, s')" "holds s' es" "pending it s' (range_entries a b es)"
proof -
  obtain it s' rem where R: "ix_Range ix a b s = Some (Inr it, s')" "holds s' es" "pending it s' rem"
    "mset rem = mset (range_entries a b es)"
    using range_law[OF assms] by blast
  have "rem = range_entries a b es"
    using sorted_entries_mset[OF pending_sorted[OF R(3)] range_entries_sorted[OF holds_sorted[OF assms(1)]] R(4)] .
  then show thesis using that R(1-3) by blast
qed

lemma next_step:
  assumes r: "represents (s, its) (es, rems)" and i: "i < length rems" "rems ! i \<noteq> None"
  shows "\<exists>c. client_step ix (s, its) (QNext i, spec_answer missing (QNext i) (es, rems)) c \<and>
    represents c (spec_move stored (QNext i) (es, rems))"
proof -
  have h: "holds s es" and a: "list_all2 (stands s) its rems" using r by simp_all
  have l: "i < length its" using a i(1) by (simp add: list_all2_lengthD)
  obtain rem where rem: "rems ! i = Some rem" "pending (its ! i) s rem"
    using a i by (auto simp: list_all2_conv_all_nth stands_def)
  have close: "represents (s', its[i := it]) (es, rems[i := w])" if "same s s'" "stands s' it w" for it s' w
    using that stands_same[OF a that(1)] holds_same[OF h that(1)] by (simp add: list_all2_update_cong)
  show ?thesis
  proof (cases rem)
    case Nil
    then obtain it s' where N: "iter_Next (ix_Iter ix) (its ! i) s = Some ((False, it), s')" "same s s'"
      "iter_Error (ix_Iter ix) it = None"
      using next_end rem(2) by blast
    then show ?thesis using client_step.next_end[OF l N(1)] close[OF N(2), of it None] Nil rem(1)
      by (auto simp: stands_def)
  next
    case (Cons x xs)
    then obtain it s' where N: "iter_Next (ix_Iter ix) (its ! i) s = Some ((True, it), s')" "same s s'"
      "iter_Key (ix_Iter ix) it s' = Some (fst x)" "iter_Value (ix_Iter ix) it s' = Some (snd x)" "pending it s' xs"
      using next_entry rem(2) by blast
    then show ?thesis using client_step.next_entry[OF l N(1,3,4)] close[OF N(2), of it "Some xs"] Cons rem(1)
      by (auto simp: stands_def)
  qed
qed

lemma step_progress:
  assumes r: "represents (s, its) (es, rems)" and ok: "request_ok okk okr okv q (es, rems)"
    and room: "length es + insertions [q] \<le> limit"
  shows "\<exists>c. client_step ix (s, its) (q, spec_answer missing q (es, rems)) c \<and>
    represents c (spec_move stored q (es, rems))"
proof (cases q)
  case (QInsert k v)
  then have l: "okk k" "okv v" "length es < limit" "holds s es" using ok room r by simp_all
  obtain s' where "ix_Insert ix k v s = Some (Inr (), s')" "holds s' (ins_entry k (stored v) es)"
    using insert_law[OF l(4,1-3)] by blast
  then show ?thesis using client_step.insert[of ix k v s _ s' its] QInsert by fastforce
next
  case (QGet k)
  then have l: "holds s es" "okk k" using ok r by simp_all
  obtain s' where G: "ix_Get ix k s = Some (case map_of es k of None \<Rightarrow> missing | Some w \<Rightarrow> Inr w, s')" "holds s' es"
    using get_law[OF l] by blast
  then show ?thesis using client_step.get[OF G(1), of its] get_same[OF l G(1)] stands_same r QGet by fastforce
next
  case (QRange a b)
  then have l: "holds s es" "okr a b" using ok r by simp_all
  obtain it s' where R: "ix_Range ix a b s = Some (Inr it, s')" "holds s' es" "pending it s' (range_entries a b es)"
    by (rule range_exact[OF l])
  have "list_all2 (stands s') (its @ [it]) (rems @ [Some (range_entries a b es)])"
    using stands_same[OF _ range_same[OF l R(1)]] r R(3) by (simp add: list_all2_appendI stands_def)
  then show ?thesis using client_step.range[OF R(1), of its] R(2) QRange by fastforce
next
  case (QNext i)
  then show ?thesis using next_step[OF r] ok by simp
qed

lemma step_sound:
  assumes "represents (s, its) a" "request_ok okk okr okv q a" "length (fst a) + insertions [q] \<le> limit"
    "client_step ix (s, its) (q, ans) c"
  shows "ans = spec_answer missing q a \<and> represents c (spec_move stored q a)"
proof -
  obtain es rems where a: "a = (es, rems)" by (cases a)
  obtain c' where "client_step ix (s, its) (q, spec_answer missing q a) c'" "represents c' (spec_move stored q a)"
    using step_progress[of s its es rems q] assms(1-3) a by auto
  then show ?thesis using client_step_unique[OF assms(4)] by blast
qed

lemma runs_answered:
  "represents c a \<Longrightarrow> requests_ok okk okr okv stored qs a \<Longrightarrow> length (fst a) + insertions qs \<le> limit \<Longrightarrow>
   \<exists>xs c'. client_run ix c xs c' \<and> map fst xs = qs"
proof (induction qs arbitrary: c a)
  case Nil
  then show ?case by (intro exI[of _ "[]"]) simp
next
  case (Cons q qs)
  obtain s its es rems where c: "c = (s, its)" "a = (es, rems)" by (cases c; cases a)
  obtain c1 where S: "client_step ix c (q, spec_answer missing q a) c1" "represents c1 (spec_move stored q a)"
    using step_progress[of s its es rems q] Cons.prems insertions_Cons[of q qs] unfolding c by auto
  have "length (fst (spec_move stored q a)) + insertions qs \<le> limit"
    using length_move[of stored q a] Cons.prems(3) insertions_Cons[of q qs] by simp
  then obtain xs c' where R: "client_run ix c1 xs c'" "map fst xs = qs" using Cons.IH[OF S(2)] Cons.prems(2) by auto
  have "client_run ix c ((q, spec_answer missing q a) # xs) c'" using S(1) R(1) by (rule client_run.more)
  then show ?case using R(2) by (intro exI[of _ "(q, spec_answer missing q a) # xs"] exI[of _ c']) simp
qed

lemma runs_right:
  "client_run ix c xs c' \<Longrightarrow> represents c a \<Longrightarrow> requests_ok okk okr okv stored (map fst xs) a \<Longrightarrow>
   length (fst a) + insertions (map fst xs) \<le> limit \<Longrightarrow>
   map snd xs = spec_answers stored missing (map fst xs) a"
proof (induction arbitrary: a rule: client_run.induct)
  case (more c x c1 xs c2)
  obtain q ans where x: "x = (q, ans)" by (cases x)
  have i: "insertions (map fst (x # xs)) = insertions [q] + insertions (map fst xs)"
    using insertions_Cons[of q "map fst xs"] x by simp
  have S: "ans = spec_answer missing q a \<and> represents c1 (spec_move stored q a)"
    using step_sound[of "fst c" "snd c" a q ans c1] more.prems more.hyps(1) x i by simp
  have "length (fst (spec_move stored q a)) + insertions (map fst xs) \<le> limit"
    using length_move[of stored q a] more.prems(3) i by simp
  then show ?case using more.IH[of "spec_move stored q a"] S more.prems(2) x by simp
qed simp

end

end
