(* ===== verification/Shared.thy ===== *)
theory Shared
  imports Clients Program
begin

text \<open>
  The indexes of the registry can be shared by the readers of a client: any number of open
  iterators, advanced in any order and between lookups, do not disturb each other. A B+ tree
  iterator keeps the buffer of its leaf while other readers move the cache; a B-tree iterator
  reads its pages again at every step.
\<close>

lemma btree_pending_same: "btree_pending l ps it t rem \<Longrightarrow> same_tree t t' \<Longrightarrow> btree_pending l ps it t' rem"
  unfolding btree_pending_def same_tree_def using unchangedD(1) stack_ok_unchanged by blast

lemma bp_stands_unchanged: "bp_stands l ps it s rem \<Longrightarrow> unchanged s s' \<Longrightarrow> bp_stands l ps it s' rem"
proof -
  assume b: "bp_stands l ps it s rem" and u: "unchanged s s'"
  have o: "owns_buf s j a \<Longrightarrow> owns_buf s' j a \<and> bufs s' a = bufs s a" "disk_page s' = disk_page s" for j a
    using u by (auto simp: unchanged_def)
  obtain C where C: "run_ok l ps s C" "bi_leafID it = run_head C"
    "case C of [] \<Rightarrow> rem = []
     | x # B \<Rightarrow> bi_idx it \<le> length (snd x) \<and> rem = drop (bi_idx it) (snd x) @ run_entries B \<and>
         (case bi_currPg it of None \<Rightarrow> True
          | Some a \<Rightarrow> owns_buf s (fst x) a \<and> bufs s a = disk_page s (fst x))"
    using b unfolding bp_stands_def by blast
  have "case C of [] \<Rightarrow> rem = []
     | x # B \<Rightarrow> bi_idx it \<le> length (snd x) \<and> rem = drop (bi_idx it) (snd x) @ run_entries B \<and>
         (case bi_currPg it of None \<Rightarrow> True
          | Some a \<Rightarrow> owns_buf s' (fst x) a \<and> bufs s' a = disk_page s' (fst x))"
    using C(3) o by (cases C; cases "bi_currPg it") auto
  then show ?thesis using run_ok_unchanged[OF C(1) u] C(2) unfolding bp_stands_def by blast
qed

lemma bptree_pending_same: "bp_pending l ps it t rem \<Longrightarrow> same_tree t t' \<Longrightarrow> bp_pending l ps it t' rem"
  unfolding bp_pending_def same_tree_def using unchangedD(1) bp_stands_unchanged by blast

interpretation bth: shared_index BTree_index "btree_pending l ps" same_tree "btt.holds l ps"
    "\<lambda>_. True" "\<lambda>_ _. True" "\<lambda>v. glen v = l" trimmed "Inr None" entry_limit for l ps
proof (unfold_locales, goal_cases)
  case (1 it s rem s')
  then show ?case by (rule btree_pending_same)
next
  case (2 s es k r s')
  then show ?case using btree_get[of l ps s es k] by auto
next
  case (3 s es a b it s')
  then show ?case using btree_range[of l ps s es a b] by auto
qed

interpretation bph: shared_index BPTree_index "bp_pending l ps" same_tree "bpt.holds l ps"
    "\<lambda>_. True" "\<lambda>_ _. True" "\<lambda>v. glen v = l" trimmed "Inr None" entry_limit for l ps
proof (unfold_locales, goal_cases)
  case (1 it s rem s')
  then show ?case by (rule bptree_pending_same)
next
  case (2 s es k r s')
  then show ?case using bptree_get[of l ps s es k] by auto
next
  case (3 s es a b it s')
  then show ?case using bptree_range[of l ps s es a b] by auto
qed

sublocale pebble_store \<subseteq> anyh: shared_index "any_index P" "any_pending l" same_state "any_holds l"
    lsm_key lsm_bounds "\<lambda>v. glen v = l" trimmed "Inr None" entry_limit for l
proof (unfold_locales, goal_cases)
  case (1 it s rem s')
  then show ?case
    by (cases it; cases s; cases s') (auto intro: btree_pending_same bptree_pending_same)
next
  case (2 s es k r s')
  show ?case
  proof (cases s)
    case (StBTree t)
    then obtain ps where "btt.holds l ps t es" using 2(1) by auto
    then show ?thesis using bth.get_same[of l ps t es k r] 2(3) StBTree by (auto simp: lift_def)
  next
    case (StBPTree t)
    then obtain ps where "bpt.holds l ps t es" using 2(1) by auto
    then show ?thesis using bph.get_same[of l ps t es k r] 2(3) StBPTree by (auto simp: lift_def)
  next
    case (StLsm db)
    then show ?thesis using 2(3) by auto
  qed
next
  case (3 s es a b it s')
  show ?case
  proof (cases s)
    case (StBTree t)
    then obtain ps where h: "btt.holds l ps t es" using 3(1) by auto
    then show ?thesis using btree_range[OF h, of a b] 3(3) StBTree by auto
  next
    case (StBPTree t)
    then obtain ps where h: "bpt.holds l ps t es" using 3(1) by auto
    then show ?thesis using bptree_range[OF h, of a b] 3(3) StBPTree by auto
  next
    case (StLsm db)
    then show ?thesis using 3(3) by auto
  qed
qed

context pebble_store
begin

lemma clients_served:
  assumes "kind_fits l (def_Kind d)" "empty_tree_file f"
    "requests_ok lsm_key lsm_bounds (\<lambda>v. glen v = l) trimmed qs ([], [])" "insertions qs \<le> entry_limit"
  shows "\<exists>s. NewFunc P cfg d path f = Some (Inr s) \<and>
    (\<exists>xs c. client_run (any_index P) (s, []) xs c \<and> map fst xs = qs) \<and>
    (\<forall>xs c. client_run (any_index P) (s, []) xs c \<and> map fst xs = qs \<longrightarrow>
       map snd xs = spec_answers trimmed (Inr None) qs ([], []))"
proof -
  obtain s where s: "NewFunc P cfg d path f = Some (Inr s)" "any_holds l s []"
    using any_open[OF assms(1,2)] by blast
  have r: "anyh.represents l (s, []) ([], [])" using s(2) by simp
  show ?thesis using s(1) anyh.runs_answered[OF r assms(3)] anyh.runs_right[OF _ r] assms(3,4) by auto
qed

end

section \<open>Properties\<close>

text \<open>
  C10. Readers do not disturb each other: on every index of the registry, opened on a new file or
  database with values of one length that fits, a client may open any number of iterators and
  advance them in any order, between lookups. No sequence of requests gets stuck, and in every
  run each iterator yields its own range in order and each lookup finds the last value inserted,
  exactly as on a list of entries with independent cursors. Insertions may come between, after
  which the client opens new iterators; a client does not advance an iterator that has ended.
\<close>

theorem readers_independent:
  assumes "pebble_store P content rest" "kind_fits l (def_Kind d)" "empty_tree_file f"
    "requests_ok lsm_key lsm_bounds (\<lambda>v. glen v = l) trimmed qs ([], [])" "insertions qs \<le> entry_limit"
  shows "\<exists>s. NewFunc P cfg d path f = Some (Inr s) \<and>
    (\<exists>xs c. client_run (any_index P) (s, []) xs c \<and> map fst xs = qs) \<and>
    (\<forall>xs c. client_run (any_index P) (s, []) xs c \<and> map fst xs = qs \<longrightarrow>
       map snd xs = spec_answers trimmed (Inr None) qs ([], []))"
  by (rule pebble_store.clients_served[OF assms])

text \<open>Two iterators on a B+ tree, with the range of one inside that of the other.\<close>

theorem readers_independent_witness:
  "\<exists>s xs c. NewFunc mem_pebble default_config \<lparr>def_Name = ''bptree_4k'', def_Kind = KBPTree 4096\<rparr> ''t'' empty_file =
       Some (Inr s) \<and>
     client_run (any_index mem_pebble) (s, []) xs c \<and>
     map snd xs = [AInsert (Inr ()), AInsert (Inr ()), ARange None, ARange None, AEntry 3 (Some [6]),
       AGet (Inr (Some [5])), AEntry 5 (Some [5]), AEntry 5 (Some [5]), AEnd None, AEnd None]"
proof -
  let ?qs = "[QInsert 5 (Some [5]), QInsert 3 (Some [6]), QRange 0 9, QRange 4 9, QNext 0, QGet 5, QNext 1,
    QNext 0, QNext 0, QNext 1]"
  have ok: "requests_ok lsm_key lsm_bounds (\<lambda>v. glen v = 1) trimmed ?qs ([], [])"
    by (simp add: lsm_key_def lsm_bounds_def range_entries_def trimmed_def)
  have ans: "spec_answers trimmed (Inr None) ?qs ([], []) =
      [AInsert (Inr ()), AInsert (Inr ()), ARange None, ARange None, AEntry 3 (Some [6]),
       AGet (Inr (Some [5])), AEntry 5 (Some [5]), AEntry 5 (Some [5]), AEnd None, AEnd None]"
    by (simp add: range_entries_def trimmed_def)
  have k: "kind_fits 1 (KBPTree 4096)" "empty_tree_file empty_file" "insertions ?qs \<le> entry_limit"
    by (simp_all add: bptree_geom_def node_geom_def empty_tree_file_def entry_limit_def)
  obtain s where s: "NewFunc mem_pebble default_config \<lparr>def_Name = ''bptree_4k'', def_Kind = KBPTree 4096\<rparr> ''t''
      empty_file = Some (Inr s)"
    "\<exists>xs c. client_run (any_index mem_pebble) (s, []) xs c \<and> map fst xs = ?qs"
    "\<forall>xs c. client_run (any_index mem_pebble) (s, []) xs c \<and> map fst xs = ?qs \<longrightarrow>
       map snd xs = spec_answers trimmed (Inr None) ?qs ([], [])"
    using readers_independent[OF mem.pebble_store_axioms _ k(2) ok k(3)] k(1) by (metis index_def.select_convs(2))
  from s(2) obtain xs c where x: "client_run (any_index mem_pebble) (s, []) xs c \<and> map fst xs = ?qs"
    by (elim exE)
  note right = s(3)[rule_format, OF x, unfolded ans]
  show ?thesis
    by (rule exI[of _ s], rule exI[of _ xs], rule exI[of _ c], intro conjI)
      (rule s(1), rule conjunct1[OF x], rule right)
qed

end
