(* ===== verification/Spec2Isabelle.thy ===== *)
theory Spec2Isabelle
  imports Prelude Format Lru PageStore Pager Btpage Engine NodeOps BTree BPTree
    TreeOps AbsTree TreeInv Entries TreeInsert TreeFile TreeRead TreeLookup
    Index TreeIndex BTreeIndex BPTreeIndex ListIndex Lsm
    Dataset Registry Stats Harness HarnessSpec Cleanup HarnessProps
    Dot DotSpec Plotter PlotterSpec Program Flags FlagsSpec PlotProps TestPlots
    TreeCheck Faults Cursor Durability PageProps PageEdits Clients Shared
begin

text \<open>
  A verification development for the index benchmark of this repository (Go, src/).

  The program. Three index structures on disk are compared: a B-tree and a B+ tree, which share
  one engine and keep their nodes in the pages of a file, and a wrapper of the LSM tree Pebble; a
  list in memory is the fourth implementation of the same interface. A benchmark fills each of
  them with shuffled keys, runs point queries, scans, insertions and mixed workloads on it, writes
  the measured times to CSV files and draws plots from these. Everything here is translated from
  the code; the theorems say what it guarantees, and under which conditions.

  Conventions (Prelude). A run-time panic of Go is the value \<open>None\<close> of an option, an \<open>error\<close>
  result the left part of a sum, a nil slice the value \<open>None\<close> of \<open>gobytes\<close>. A method takes the
  state of its receiver and returns it updated. Page buffers are shared by reference in Go, so a
  page argument that a function writes through is an address in the store of buffers, never a
  copy. Keys are 64-bit words that are compared as signed numbers; page numbers, offsets and
  counts are naturals with every conversion to 16, 32 or 64 bits written out. Loops that follow
  page numbers are \<open>partial_function (option)\<close>, since on a damaged file they may not end; the
  theorems show that on the files the program makes they return.

  Theories, in the order of the code.

  src/dbms/pager/pager.go. Lru: the page cache, a map and a doubly linked list over an explicit
  store of entries. Pager: \<open>Open\<close>, \<open>Read\<close>, \<open>Write\<close>, \<open>Allocate\<close>, \<open>Close\<close> on a file whose calls can
  fail. The cache is a list in order of use, the pager an array of pages that survives closing
  and opening. Durability: what a crash can lose, and every outcome of opening a file.
  PageStore is the contract (a locale) that the engine relies on, interpreted by the pager.

  src/dbms/index/btpage/page.go, src/dbms/index/shared/tree.go. Btpage: the bytes of a node page.
  Engine: search, insertion with splits, the header page, \<open>Height\<close>, \<open>CountLeaves\<close>; generic in a
  record \<open>node_accessor\<close> of the methods of NodeAccessor. NodeOps, PageProps and PageEdits: pages as lists
  of cells (searching, appending, deleting, and how far the free space reaches), for every accessor
  that keeps the contract \<open>cell_codec\<close>. TreeOps, AbsTree, TreeInv,
  TreeInsert: when the pages of a file represent a tree, and that \<open>insertRec\<close> keeps it so (locale
  \<open>tree_codec\<close>). TreeFile, TreeRead, TreeLookup: opening, closing and the reading operations.
  Entries, TreeIndex: the tree as a sorted list of entries, with the bounds on its height.
  Dot, DotSpec: \<open>Print\<close> and \<open>ExportDOT\<close> as the drawing of the abstract tree.

  src/dbms/index/btree/btree.go, src/dbms/index/bptree/bptree.go. BTree, BPTree: the two accessors,
  the operations and the range iterators (a stack of frames; a chain of leaves). BTreeIndex and
  BPTreeIndex prove that they keep the contract of the interface. TreeCheck: an executable
  checker of the invariant of the pages, which fixes what \<open>Height\<close> and \<open>CountLeaves\<close> return (C16). Faults: the same operations when calls on the file fail.
  Cursor: iterators come to their end and stay there.

  src/dbms/index/index.go. Index: the method tables of the interface and its contract as a
  hierarchy of locales, from \<open>range_cursor\<close> (an iterator yields a list of entries) over
  \<open>index_contract\<close> and \<open>ordered_index\<close> to \<open>durable_index\<close> (closing and opening keeps the entries).
  src/dbms/index/lsm/lsm.go and src/dbms/index/listindex/listindex.go: Lsm, ListIndex.
  Registry: the configuration and the nine indexes of src/bench/benchmark.go, and values of the
  interface type as a sum of the implementations, to which calls are passed on (the language's
  dispatch, which no code under src/ spells out).
  Clients: a client with several open iterators as a transition system over calls of the interface,
  and the contract (locale \<open>shared_index\<close>) under which its readers do not disturb each other; Shared:
  every index of the registry keeps it.

  src/bench/dataset.go, src/bench/tests.go, src/bench/plotter.go, src/main.go, src/gen_btree_dot.go.
  Dataset: keys, values and samples. Stats: averages, percentiles and rows. Harness: the runs T1
  to T5. HarnessSpec proves them for any index that keeps the contract, HarnessProps for the
  registry. Cleanup: which paths the
  deletion of data files removes. Format, Plotter, PlotterSpec: from the numbers in the files to the charts.
  Program: the two commands. Flags, FlagsSpec: the command line, with the flag package's notations and
  strconv's numbers. PlotProps, TestPlots: the charts show what the runs measured.

  What the theorems show. The central ones are refinements: any number of sessions on a tree file
  (C1, C2) and any operations on the other indexes (C28, C30) behave as operations on a list of
  entries, so the three indexes on disk agree (C3). The pages satisfy their invariant (C4, C5),
  failing file calls are reported and never turned into wrong results (C6, C7), iterators end
  (C8, C9), open iterators are independent (C10), and the pager below them is an array (C11 to C15).
  The command line, the runs and the plots are shown to do what they are meant to on these indexes
  (C17 to C27, C40).

  Conditions and bounds. \<open>btree_geom l ps\<close> and \<open>bptree_geom l ps\<close> say that pages of \<open>ps\<close> bytes, less
  than 65536, take two values of length \<open>l\<close> and that no cell runs into the cell pointers; the
  values of a tree have one length \<open>l\<close>. The code checks neither; C38 and C39
  in PageEdits show at the level of one page what happens without them: a longer value for a key of
  an internal node drops a child, and a cell that fits exactly is overwritten by its own pointer. \<open>entry_limit\<close>, 2^30 insertions into one file, keeps page numbers below 2^32 - 1, the
  width of a page number in a page and the end mark of the chain of leaves; \<open>page_limit\<close> keeps file
  offsets below 2^63. The LSM index is ordered on the keys that are not negative and on range
  ends below the largest key, which the benchmark respects; C29 says what happens outside.

  Parameters. Pebble is a table of its calls, with its documentation as the laws of the locale
  \<open>pebble_store\<close> (interpreted on a database in memory). The generator of \<open>math/rand\<close> is a
  parameter with the bounds that its documentation promises, and is interpreted as well. Clock
  readings, the text of a rate or of a fill level (float64), the chart renderer and the creation
  of the picture's file are parameters too. Counts in the configuration are naturals; the command
  line can give negative ones, for which \<open>config_of_flags\<close> has no configuration.

  Not modelled: messages on the console and in the log, running Graphviz and the bytes of the HTML
  pages, the creation of directories and failures of the CSV files. The deletion of data files is
  modelled on the set of paths, apart from the runs, which find new files at their paths. Paths are
  joined without cleaning and float64 values are exact numbers. There is no concurrency in the
  program. What the code does after a failed write is left open, since it ignores such errors.
\<close>

text \<open>
  C3. The three persistent indexes are interchangeable: on new files (with values of one length
  that fits the pages) and on a new Pebble database that behaves as documented, the B-tree, the
  B+ tree and the LSM index give identical results for every sequence of inserts, lookups and
  range scans on keys that are not negative, whatever the page sizes and cache sizes.
\<close>

theorem indexes_agree:
  assumes "empty_tree_file f" "btree_geom l ps" "empty_tree_file g" "bptree_geom l qs"
    "pebble_store P content rest" "content db = Map.empty"
    "\<forall>op \<in> set ops. op_allowed lsm_key lsm_bounds (\<lambda>v. glen v = l) op" "inserts ops \<le> entry_limit"
  shows "\<exists>t t1 u u1 db1 outs. BTree_Open f cap ps = Some (Inr t) \<and> BPTree_Open g cap' qs = Some (Inr u) \<and>
    run_ops BTree_index ops t = Some (outs, t1) \<and>
    run_ops BPTree_index ops u = Some (outs, u1) \<and>
    run_ops (LSM_index P) ops db = Some (outs, db1)"
proof -
  have fl: "\<forall>op \<in> set ops. op_allowed (\<lambda>_. True) (\<lambda>_ _. True) (\<lambda>v. glen v = l) op"
    "\<forall>op \<in> set ops. op_allowed lsm_key lsm_bounds (\<lambda>_. True) op"
  proof -
    have "op_allowed (\<lambda>_. True) (\<lambda>_ _. True) (\<lambda>v. glen v = l) op \<and>
        op_allowed lsm_key lsm_bounds (\<lambda>_. True) op"
      if "op_allowed lsm_key lsm_bounds (\<lambda>v. glen v = l) op" for op
      using that by (cases op) simp_all
    then show "\<forall>op \<in> set ops. op_allowed (\<lambda>_. True) (\<lambda>_ _. True) (\<lambda>v. glen v = l) op"
      "\<forall>op \<in> set ops. op_allowed lsm_key lsm_bounds (\<lambda>_. True) op"
      using assms(7) by blast+
  qed
  obtain t where T: "BTree_Open f cap ps = Some (Inr t)" "btt.holds l ps t []"
    using btd.open_law[of f l ps cap] assms(1,2) by auto
  obtain u where U: "BPTree_Open g cap' qs = Some (Inr u)" "bpt.holds l qs u []"
    using bpd.open_law[of g l qs cap'] assms(3,4) by auto
  have st: "lsm_stored = trimmed" by (simp add: fun_eq_iff lsm_stored_def trimmed_def)
  show ?thesis
    using bti.run_ops_exact[OF T(2) fl(1)] bpi.run_ops_exact[OF U(2) fl(1)] T(1) U(1) assms(8)
      pebble_store.lsm_run[OF assms(5,6) fl(2)] st by fastforce
qed

theorem indexes_agree_witness:
  "\<exists>t t1 u u1 db1 outs. BTree_Open empty_file 2 64 = Some (Inr t) \<and>
    BPTree_Open empty_file 3 65 = Some (Inr u) \<and>
    run_ops BTree_index [OInsert 7 (Some [1]), OScan 0 9] t = Some (outs, t1) \<and>
    run_ops BPTree_index [OInsert 7 (Some [1]), OScan 0 9] u = Some (outs, u1) \<and>
    run_ops (LSM_index mem_pebble) [OInsert 7 (Some [1]), OScan 0 9] [] = Some (outs, db1)"
proof -
  have "empty_tree_file empty_file" "btree_geom 1 64" "bptree_geom 1 65"
    by (simp_all add: empty_tree_file_def btree_geom_def bptree_geom_def node_geom_def)
  then show ?thesis
    using indexes_agree[OF _ _ _ _ mem.pebble_store_axioms, of empty_file 1 64 empty_file 65 "[]"
        "[OInsert 7 (Some [1]), OScan 0 9]" 2 3]
    by (auto simp: lsm_key_def lsm_bounds_def entry_limit_def)
qed

text \<open>
  C16. What Height and CountLeaves return, on the B-tree as on the B+ tree, after any sequence of
  operations on a new file: Height is one more than the depth \<open>h\<close> at which the page checker finds
  every leaf, and CountLeaves is the number of allocated pages of leaf type. Both trees branch at
  every internal node and grow slowly: there are at least \<open>2 ^ h\<close> leaves, at most one per entry
  (one in an empty tree), and no leaf of a tree with entries is empty.
\<close>

theorem heights_and_leaves:
  assumes "empty_tree_file f" "btree_geom l ps" "empty_tree_file g" "bptree_geom l qs"
    "\<forall>op \<in> set ops. fixed_length l op" "inserts ops \<le> entry_limit"
  shows "(\<exists>t outs t1 h t2 t3. BTree_Open f cap ps = Some (Inr t) \<and>
      run_ops BTree_index ops t = Some (outs, t1) \<and> well_formed BTreeAcc t1 h \<and>
      Height t1 = Some (Suc h, t2) \<and> CountLeaves BTreeAcc t2 = Some (length (leaf_pages t1), t3) \<and>
      2 ^ h \<le> length (leaf_pages t1) \<and> length (leaf_pages t1) \<le> max 1 (length (spec_final trimmed ops [])) \<and>
      (spec_final trimmed ops [] = [] \<or> list_all (\<lambda>i. occupied (disk_page (Pg t1) i)) (leaf_pages t1))) \<and>
    (\<exists>t outs t1 h t2 t3. BPTree_Open g cap' qs = Some (Inr t) \<and>
      run_ops BPTree_index ops t = Some (outs, t1) \<and> well_formed BPTreeAcc t1 h \<and>
      Height t1 = Some (Suc h, t2) \<and> CountLeaves BPTreeAcc t2 = Some (length (leaf_pages t1), t3) \<and>
      2 ^ h \<le> length (leaf_pages t1) \<and> length (leaf_pages t1) \<le> max 1 (length (spec_final trimmed ops [])) \<and>
      (spec_final trimmed ops [] = [] \<or> list_all (\<lambda>i. occupied (disk_page (Pg t1) i)) (leaf_pages t1)))"
proof -
  obtain t t1 where "BTree_Open f cap ps = Some (Inr t)"
    "run_ops BTree_index ops t = Some (spec_run trimmed (Inr None) ops [], t1)"
    "btt.holds l ps t1 (spec_final trimmed ops [])"
    using btree_after[OF assms(1,2,5,6)] by blast
  moreover obtain u u1 where "BPTree_Open g cap' qs = Some (Inr u)"
    "run_ops BPTree_index ops u = Some (spec_run trimmed (Inr None) ops [], u1)"
    "bpt.holds l qs u1 (spec_final trimmed ops [])"
    using bptree_after[OF assms(3-6)] by blast
  ultimately show ?thesis using btt.holds_shape bpt.holds_shape by blast
qed

theorem heights_and_leaves_witness:
  "(\<exists>t outs t1 h t2 t3. BTree_Open empty_file 2 64 = Some (Inr t) \<and>
      run_ops BTree_index [OInsert 5 (Some [1]), OInsert 3 (Some [2])] t = Some (outs, t1) \<and>
      well_formed BTreeAcc t1 h \<and> Height t1 = Some (Suc h, t2) \<and>
      CountLeaves BTreeAcc t2 = Some (length (leaf_pages t1), t3) \<and>
      2 ^ h \<le> length (leaf_pages t1) \<and> length (leaf_pages t1) \<le> 2 \<and>
      list_all (\<lambda>i. occupied (disk_page (Pg t1) i)) (leaf_pages t1)) \<and>
   (\<exists>t outs t1 h t2 t3. BPTree_Open empty_file 2 65 = Some (Inr t) \<and>
      run_ops BPTree_index [OInsert 5 (Some [1]), OInsert 3 (Some [2])] t = Some (outs, t1) \<and>
      well_formed BPTreeAcc t1 h \<and> Height t1 = Some (Suc h, t2) \<and>
      CountLeaves BPTreeAcc t2 = Some (length (leaf_pages t1), t3) \<and>
      2 ^ h \<le> length (leaf_pages t1) \<and> length (leaf_pages t1) \<le> 2 \<and>
      list_all (\<lambda>i. occupied (disk_page (Pg t1) i)) (leaf_pages t1))"
  using heights_and_leaves[of empty_file 1 64 empty_file 65 "[OInsert 5 (Some [1]), OInsert 3 (Some [2])]" 2 2]
  by (simp add: empty_tree_file_def btree_geom_def bptree_geom_def node_geom_def entry_limit_def spec_final_def
      trimmed_def numeral_2_eq_2[symmetric])

end
